(* ===== verification/Fw_Prelude.thy ===== *)
theory Fw_Prelude
  imports Main "HOL-Library.Word" "HOL-Library.Char_ord" "HOL-Library.List_Lexorder"
begin

section \<open>Prelude: strings, integers and generic lemmas\<close>

text \<open>
  What the components share: the operations of \<open>std::string\<close> and of Boost's string
  algorithms that the sources call, decimal printing and parsing (\<open>std::to_string\<close>,
  \<open>std::stoi\<close>, \<open>std::stoll\<close>), the machine integer types, and generic lemmas on lists and
  words. A \<open>std::string\<close> is a list of \<open>char\<close>, a \<open>char\<close> is one byte, \<open>npos\<close> is \<open>None\<close>.
\<close>

unbundle bit_operations_syntax

named_theorems fw_char "evaluation of characters as byte values"

type_synonym u8 = "8 word"
type_synonym u16 = "16 word"
type_synonym u32 = "32 word"
type_synonym u64 = "64 word"

subsection \<open>Characters\<close>

definition code_of :: "char \<Rightarrow> nat" where
  "code_of c = of_char c"

lemma code_of_less: "code_of c < 256"
  unfolding code_of_def by (metis nat_of_char_less_256)

lemma code_of_inject [simp]: "code_of c = code_of d \<longleftrightarrow> c = d"
  by (simp add: code_of_def)

text \<open>\<open>isspace\<close> in the C locale: blank and the codes 9 to 13.\<close>

definition is_space :: "char \<Rightarrow> bool" where
  "is_space c \<longleftrightarrow> code_of c = 32 \<or> (9 \<le> code_of c \<and> code_of c \<le> 13)"

definition is_digit :: "char \<Rightarrow> bool" where
  "is_digit c \<longleftrightarrow> 48 \<le> code_of c \<and> code_of c \<le> 57"

definition is_upper :: "char \<Rightarrow> bool" where
  "is_upper c \<longleftrightarrow> 65 \<le> code_of c \<and> code_of c \<le> 90"

definition is_lower :: "char \<Rightarrow> bool" where
  "is_lower c \<longleftrightarrow> 97 \<le> code_of c \<and> code_of c \<le> 122"

text \<open>\<open>std::tolower\<close> and \<open>std::toupper\<close> in the C locale.\<close>

definition lower_char :: "char \<Rightarrow> char" where
  "lower_char c = (if is_upper c then char_of (code_of c + 32) else c)"

definition upper_char :: "char \<Rightarrow> char" where
  "upper_char c = (if is_lower c then char_of (code_of c - 32) else c)"

definition to_lower :: "string \<Rightarrow> string" where
  "to_lower s = map lower_char s"

definition to_upper :: "string \<Rightarrow> string" where
  "to_upper s = map upper_char s"

lemma code_of_char_of [simp]: "n < 256 \<Longrightarrow> code_of (char_of n) = n"
  by (simp add: code_of_def)

lemma char_of_code_of [simp]: "char_of (code_of c) = c"
  by (simp add: code_of_def)

lemma lower_char_idem [simp]: "lower_char (lower_char c) = lower_char c"
  by (auto simp: lower_char_def is_upper_def)

lemma to_lower_idem [simp]: "to_lower (to_lower s) = to_lower s"
  by (simp add: to_lower_def)

lemma length_to_lower [simp]: "length (to_lower s) = length s"
  by (simp add: to_lower_def)

lemma to_lower_append [simp]: "to_lower (s @ t) = to_lower s @ to_lower t"
  by (simp add: to_lower_def)

lemma lower_char_not_upper [simp]: "\<not> is_upper (lower_char c)"
  by (auto simp: lower_char_def is_upper_def)

lemma lower_char_id [simp]: "\<not> is_upper c \<Longrightarrow> lower_char c = c"
  by (simp add: lower_char_def)

subsection \<open>Searching in strings\<close>

text \<open>First index whose element satisfies a predicate.\<close>

fun find_index :: "('a \<Rightarrow> bool) \<Rightarrow> 'a list \<Rightarrow> nat option" where
  "find_index P [] = None"
| "find_index P (x # xs) = (if P x then Some 0 else map_option Suc (find_index P xs))"

text \<open>\<open>s.find(c, i)\<close> and \<open>s.find_first_not_of(set, i)\<close>: the first match at or after \<open>i\<close>.\<close>

definition find_from :: "('a \<Rightarrow> bool) \<Rightarrow> nat \<Rightarrow> 'a list \<Rightarrow> nat option" where
  "find_from P i s = map_option (\<lambda>k. i + k) (find_index P (drop i s))"

text \<open>\<open>s.rfind(c)\<close>: the last match.\<close>

fun find_last :: "('a \<Rightarrow> bool) \<Rightarrow> 'a list \<Rightarrow> nat option" where
  "find_last P [] = None"
| "find_last P (x # xs) =
     (case find_last P xs of Some k \<Rightarrow> Some (Suc k) | None \<Rightarrow> if P x then Some 0 else None)"

text \<open>\<open>s.find(pat)\<close> for a non-empty pattern.\<close>

fun find_sub :: "string \<Rightarrow> string \<Rightarrow> nat option" where
  "find_sub pat [] = None"
| "find_sub pat (c # s) =
     (if take (length pat) (c # s) = pat then Some 0 else map_option Suc (find_sub pat s))"

text \<open>\<open>s.substr(i, n)\<close> for \<open>i\<close> at most the length, which every caller of the sources ensures.\<close>

definition substr :: "'a list \<Rightarrow> nat \<Rightarrow> nat \<Rightarrow> 'a list" where
  "substr s i n = take n (drop i s)"

lemma find_index_None: "find_index P xs = None \<longleftrightarrow> (\<forall>x\<in>set xs. \<not> P x)"
  by (induction xs) auto

lemma find_index_Some:
  "find_index P xs = Some i \<Longrightarrow> i < length xs \<and> P (xs ! i) \<and> (\<forall>x\<in>set (take i xs). \<not> P x)"
  by (induction xs arbitrary: i) (auto split: if_splits)

lemma find_index_append:
  "\<forall>x\<in>set xs. \<not> P x \<Longrightarrow> find_index P (xs @ ys) = map_option (\<lambda>k. length xs + k) (find_index P ys)"
proof (induction xs)
  case Nil
  show ?case by (cases "find_index P ys") auto
next
  case (Cons x xs)
  then show ?case by (cases "find_index P ys") auto
qed

lemma find_index_at:
  "\<forall>x\<in>set xs. \<not> P x \<Longrightarrow> P y \<Longrightarrow> find_index P (xs @ y # ys) = Some (length xs)"
  by (simp add: find_index_append)

lemma find_index_drop: "find_index P xs = Some k \<Longrightarrow> \<exists>y r. drop k xs = y # r \<and> P y"
  by (induction xs arbitrary: k) (auto split: if_splits)

lemma find_last_None: "find_last P xs = None \<longleftrightarrow> (\<forall>x\<in>set xs. \<not> P x)"
  by (induction xs) (auto split: option.splits)

lemma find_last_Some:
  "find_last P xs = Some i \<Longrightarrow> i < length xs \<and> P (xs ! i) \<and> (\<forall>x\<in>set (drop (Suc i) xs). \<not> P x)"
  by (induction xs arbitrary: i) (auto split: option.splits if_splits simp: find_last_None)

lemma find_last_at:
  "P y \<Longrightarrow> \<forall>x\<in>set ys. \<not> P x \<Longrightarrow> find_last P (xs @ y # ys) = Some (length xs)"
  by (induction xs) (auto split: option.splits simp: find_last_None)

lemma find_sub_skip:
  "pat \<noteq> [] \<Longrightarrow> hd pat \<notin> set xs \<Longrightarrow>
   find_sub pat (xs @ ys) = map_option (\<lambda>k. length xs + k) (find_sub pat ys)"
proof (induction xs)
  case Nil
  show ?case by (cases "find_sub pat ys") auto
next
  case (Cons x xs)
  from Cons.prems have "take (length pat) (x # xs @ ys) \<noteq> pat"
    by (cases pat) auto
  with Cons show ?case by (cases "find_sub pat ys") auto
qed

subsection \<open>Trimming\<close>

text \<open>\<open>boost::trim\<close>: white space removed at both ends.\<close>

definition trim :: "string \<Rightarrow> string" where
  "trim s = rev (dropWhile is_space (rev (dropWhile is_space s)))"

definition trimmed :: "string \<Rightarrow> bool" where
  "trimmed s \<longleftrightarrow> (s \<noteq> [] \<longrightarrow> \<not> is_space (hd s) \<and> \<not> is_space (last s))"

lemma dropWhile_hd: "s = [] \<or> \<not> P (hd s) \<Longrightarrow> dropWhile P s = s"
  by (cases s) auto

lemma trim_trimmed: "trimmed s \<Longrightarrow> trim s = s"
  by (cases "s = []") (simp_all add: trim_def trimmed_def dropWhile_hd hd_rev)

lemma trim_id: "s \<noteq> [] \<Longrightarrow> \<not> is_space (hd s) \<Longrightarrow> \<not> is_space (last s) \<Longrightarrow> trim s = s"
  by (rule trim_trimmed) (simp add: trimmed_def)

lemma trim_blank_left: "is_space c \<Longrightarrow> trim (c # s) = trim s"
  by (simp add: trim_def)

lemma set_trim: "set (trim s) \<subseteq> set s"
proof
  fix x assume "x \<in> set (trim s)"
  then have "x \<in> set (dropWhile is_space (rev (dropWhile is_space s)))"
    by (simp add: trim_def)
  then have "x \<in> set (rev (dropWhile is_space s))" by (rule set_dropWhileD)
  then have "x \<in> set (dropWhile is_space s)" by simp
  then show "x \<in> set s" by (rule set_dropWhileD)
qed

subsection \<open>Packing fields into a word\<close>

lemma small_take_bit: "unat (b :: 'a::len word) < 2 ^ n \<Longrightarrow> take_bit n b = b"
  by (rule word_unat_eq_iff [THEN iffD2]) (simp add: unsigned_take_bit_eq take_bit_nat_eq_self)

lemma small_bits: "unat (b :: 'a::len word) < 2 ^ n \<Longrightarrow> n \<le> k \<Longrightarrow> \<not> bit b k"
  using small_take_bit by (metis bit_take_bit_iff not_less)

lemma or_as_plus: "unat (b :: 'a::len word) < 2 ^ n \<Longrightarrow> push_bit n a OR b = push_bit n a + b"
proof -
  assume b: "unat b < 2 ^ n"
  have "push_bit n a AND b = 0"
    by (rule bit_eqI) (use small_bits [OF b] in \<open>auto simp: bit_and_iff bit_push_bit_iff\<close>)
  then show ?thesis by (simp add: disjunctive_add_eq_or)
qed

lemma unat_push_bit_small:
  "unat (a :: 'a::len word) * 2 ^ n < 2 ^ LENGTH('a) \<Longrightarrow> unat (push_bit n a) = unat a * 2 ^ n"
  by (simp add: unsigned_push_bit_eq) (simp add: push_bit_eq_mult take_bit_nat_eq_self)

lemma unat_pack:
  assumes "unat (b :: 'a::len word) < 2 ^ n" and "unat a * 2 ^ n + unat b < 2 ^ LENGTH('a)"
  shows "unat (push_bit n a OR b) = unat a * 2 ^ n + unat b"
proof -
  from assms(2) have "unat (push_bit n a) = unat a * 2 ^ n" by (intro unat_push_bit_small) simp
  with assms(2) show ?thesis
    by (simp add: or_as_plus [OF assms(1)] unat_word_ariths)
qed

lemma unat_word_of_int: "0 \<le> i \<Longrightarrow> i < 2 ^ LENGTH('a) \<Longrightarrow> unat (word_of_int i :: 'a::len word) = nat i"
  by (simp add: unsigned_of_int take_bit_int_eq_self)

lemma unat_drop_bit_div: "unat (drop_bit n (a :: 'a::len word)) = unat a div 2 ^ n"
proof -
  have "take_bit LENGTH('a) (unat a) = unat a" by (rule take_bit_nat_eq_self) (rule unsigned_less)
  then show ?thesis by (simp add: unsigned_drop_bit_eq) (simp add: drop_bit_eq_div)
qed

lemma unat_eq_word: "unat (a :: 'a::len word) = unat b \<longleftrightarrow> a = b"
  by (rule word_unat_eq_iff [symmetric])

subsection \<open>Decimal numbers\<close>

text \<open>\<open>std::to_string\<close> and \<open>operator<<\<close> on integers.\<close>

definition digit_char :: "nat \<Rightarrow> char" where
  "digit_char d = char_of (48 + d)"

fun show_nat :: "nat \<Rightarrow> string" where
  "show_nat n = (if n < 10 then [digit_char n] else show_nat (n div 10) @ [digit_char (n mod 10)])"

declare show_nat.simps [simp del]

definition show_int :: "int \<Rightarrow> string" where
  "show_int i = (if i < 0 then CHR ''-'' # show_nat (nat (- i)) else show_nat (nat i))"

text \<open>
  \<open>std::stoi\<close> and \<open>std::stoll\<close>: leading white space and one sign are skipped, the longest run
  of digits is read and the rest of the string is ignored; no digit is \<open>invalid_argument\<close>, a
  value outside the type is \<open>out_of_range\<close>. Every caller catches both, so both are \<open>None\<close>.
\<close>

definition digits_val :: "string \<Rightarrow> nat" where
  "digits_val ds = foldl (\<lambda>v c. 10 * v + (code_of c - 48)) 0 ds"

definition parse_sign :: "string \<Rightarrow> bool \<times> string" where
  "parse_sign s = (case s of [] \<Rightarrow> (False, [])
     | c # r \<Rightarrow> if c = CHR ''-'' then (True, r) else if c = CHR ''+'' then (False, r) else (False, s))"

definition parse_int :: "int \<Rightarrow> int \<Rightarrow> string \<Rightarrow> int option" where
  "parse_int lo hi s =
     (let (neg, t) = parse_sign (dropWhile is_space s);
          ds = takeWhile is_digit t;
          v = (if neg then - int (digits_val ds) else int (digits_val ds))
      in if ds = [] \<or> v < lo \<or> hi < v then None else Some v)"

definition stoi :: "string \<Rightarrow> int option" where
  "stoi s = parse_int (- (2 ^ 31)) (2 ^ 31 - 1) s"

definition stoll :: "string \<Rightarrow> int option" where
  "stoll s = parse_int (- (2 ^ 63)) (2 ^ 63 - 1) s"

lemma code_digit_char [simp]: "d < 10 \<Longrightarrow> code_of (digit_char d) = 48 + d"
  by (simp add: digit_char_def)

lemma is_digit_digit_char [simp]: "d < 10 \<Longrightarrow> is_digit (digit_char d)"
  by (simp add: is_digit_def)

lemma show_nat_not_Nil [simp]: "show_nat n \<noteq> []"
  by (subst show_nat.simps) simp

lemma show_nat_digits: "c \<in> set (show_nat n) \<Longrightarrow> is_digit c"
proof (induction n rule: show_nat.induct)
  case (1 n)
  show ?case
  proof (cases "n < 10")
    case True
    with "1.prems" show ?thesis by (subst (asm) show_nat.simps) simp
  next
    case False
    with "1.prems" have "c \<in> set (show_nat (n div 10)) \<or> c = digit_char (n mod 10)"
      by (subst (asm) show_nat.simps) auto
    with "1.IH" False show ?thesis by auto
  qed
qed

lemma digits_val_snoc: "digits_val (ds @ [c]) = 10 * digits_val ds + (code_of c - 48)"
  by (simp add: digits_val_def)

lemma digits_val_show_nat [simp]: "digits_val (show_nat n) = n"
proof (induction n rule: show_nat.induct)
  case (1 n)
  show ?case
  proof (cases "n < 10")
    case True
    then show ?thesis by (subst show_nat.simps) (simp add: digits_val_def)
  next
    case False
    with 1 have "digits_val (show_nat (n div 10)) = n div 10" by simp
    with False show ?thesis by (subst show_nat.simps) (simp add: digits_val_snoc)
  qed
qed

lemma is_digit_not_space: "is_digit c \<Longrightarrow> \<not> is_space c"
  by (auto simp: is_digit_def is_space_def)

lemma takeWhile_show_nat:
  "rest = [] \<or> \<not> is_digit (hd rest) \<Longrightarrow> takeWhile is_digit (show_nat n @ rest) = show_nat n"
  by (cases rest) (auto simp: takeWhile_append show_nat_digits)

lemma hd_show_nat: "is_digit (hd (show_nat n))"
  by (rule show_nat_digits [where n = n]) simp

lemma not_digit_sign: "\<not> is_digit CHR ''-''" "\<not> is_digit CHR ''+''"
  by (simp_all add: is_digit_def code_of_def)

lemma parse_sign_show_nat: "parse_sign (show_nat n @ rest) = (False, show_nat n @ rest)"
proof -
  obtain c r where cr: "show_nat n = c # r" by (cases "show_nat n") simp
  with hd_show_nat [of n] have "is_digit c" by simp
  with cr show ?thesis by (auto simp: parse_sign_def not_digit_sign)
qed

lemma dropWhile_show_nat: "dropWhile is_space (show_nat n @ rest) = show_nat n @ rest"
  by (rule dropWhile_hd) (simp add: hd_show_nat is_digit_not_space)

theorem parse_show_nat:
  assumes "rest = [] \<or> \<not> is_digit (hd rest)" and "lo \<le> int n" and "int n \<le> hi"
  shows "parse_int lo hi (show_nat n @ rest) = Some (int n)"
  using assms
  by (simp add: parse_int_def dropWhile_show_nat parse_sign_show_nat takeWhile_show_nat)

lemma stoll_show_nat: "int n < 2 ^ 63 \<Longrightarrow> stoll (show_nat n) = Some (int n)"
  using parse_show_nat [of "[]" "- (2 ^ 63)" n "2 ^ 63 - 1"] by (simp add: stoll_def)

lemma stoi_show_nat: "int n < 2 ^ 31 \<Longrightarrow> stoi (show_nat n) = Some (int n)"
  using parse_show_nat [of "[]" "- (2 ^ 31)" n "2 ^ 31 - 1"] by (simp add: stoi_def)

end
