(* ===== verification/Fw_Queue.thy ===== *)
theory Fw_Queue
  imports Fw_Prelude
begin

section \<open>The bounded queue contract\<close>

text \<open>
  What a caller of a bounded queue of the framework relies on: \<open>push\<close> appends and returns true
  while there is room and otherwise leaves the content alone and returns false, \<open>pop\<close> hands out
  the front element and returns false on an empty queue. The client side is proved once in the
  locale: any sequence of pushes and pops is first-in first-out, every answer is that of a bounded list, and popping until the first
  failure empties the queue.
\<close>

datatype 'a queue_op = Push 'a | Pop

text \<open>Running a sequence of operations: the accepted pushes, the popped elements, the last state.\<close>

fun run_ops :: "('a \<Rightarrow> 'q \<Rightarrow> bool \<times> 'q) \<Rightarrow> ('q \<Rightarrow> 'a option \<times> 'q) \<Rightarrow> 'a queue_op list \<Rightarrow> 'q \<Rightarrow>
    'a list \<times> 'a list \<times> 'q" where
  "run_ops push pop [] q = ([], [], q)"
| "run_ops push pop (Push x # ops) q =
     (case run_ops push pop ops (snd (push x q)) of
        (ins, outs, q') \<Rightarrow> (if fst (push x q) then x # ins else ins, outs, q'))"
| "run_ops push pop (Pop # ops) q =
     (case run_ops push pop ops (snd (pop q)) of
        (ins, outs, q') \<Rightarrow> (ins, (case fst (pop q) of None \<Rightarrow> outs | Some y \<Rightarrow> y # outs), q'))"

text \<open>The same with the answer of every operation, and the queue that a bounded queue of \<open>n\<close> elements stands for.\<close>

datatype 'a queue_answer = Pushed bool | Popped "'a option"

fun run_answers :: "('a \<Rightarrow> 'q \<Rightarrow> bool \<times> 'q) \<Rightarrow> ('q \<Rightarrow> 'a option \<times> 'q) \<Rightarrow> 'a queue_op list \<Rightarrow> 'q \<Rightarrow>
    'a queue_answer list \<times> 'q" where
  "run_answers push pop [] q = ([], q)"
| "run_answers push pop (Push x # ops) q =
     (case push x q of (ok, q1) \<Rightarrow> case run_answers push pop ops q1 of (as, q') \<Rightarrow> (Pushed ok # as, q'))"
| "run_answers push pop (Pop # ops) q =
     (case pop q of (r, q1) \<Rightarrow> case run_answers push pop ops q1 of (as, q') \<Rightarrow> (Popped r # as, q'))"

definition list_enq :: "nat \<Rightarrow> 'a \<Rightarrow> 'a list \<Rightarrow> bool \<times> 'a list" where
  "list_enq n x xs = (if length xs < n then (True, xs @ [x]) else (False, xs))"

definition list_deq :: "'a list \<Rightarrow> 'a option \<times> 'a list" where
  "list_deq xs = (case xs of [] \<Rightarrow> (None, []) | y # ys \<Rightarrow> (Some y, ys))"

locale bounded_queue =
  fixes push :: "'a \<Rightarrow> 'q \<Rightarrow> bool \<times> 'q"
    and pop :: "'q \<Rightarrow> 'a option \<times> 'q"
    and content :: "'q \<Rightarrow> 'a list"
    and room :: "'q \<Rightarrow> nat"
    and valid :: "'q \<Rightarrow> bool"
  assumes push_room: "valid q \<Longrightarrow> length (content q) < room q \<Longrightarrow>
      fst (push x q) \<and> content (snd (push x q)) = content q @ [x]"
    and push_full: "valid q \<Longrightarrow> length (content q) = room q \<Longrightarrow>
      \<not> fst (push x q) \<and> content (snd (push x q)) = content q"
    and push_valid: "valid q \<Longrightarrow> valid (snd (push x q)) \<and> room (snd (push x q)) = room q"
    and pop_empty: "valid q \<Longrightarrow> content q = [] \<Longrightarrow> fst (pop q) = None \<and> content (snd (pop q)) = []"
    and pop_front: "valid q \<Longrightarrow> content q = y # ys \<Longrightarrow>
      fst (pop q) = Some y \<and> content (snd (pop q)) = ys"
    and pop_valid: "valid q \<Longrightarrow> valid (snd (pop q)) \<and> room (snd (pop q)) = room q"
    and content_room: "valid q \<Longrightarrow> length (content q) \<le> room q"
begin

lemma push_content:
  assumes "valid q"
  shows "content (snd (push x q)) = content q @ (if fst (push x q) then [x] else [])"
proof (cases "length (content q) < room q")
  case True
  with push_room [OF assms] show ?thesis by simp
next
  case False
  with content_room [OF assms] have "length (content q) = room q" by simp
  with push_full [OF assms] show ?thesis by simp
qed

lemma push_accepts_iff: "valid q \<Longrightarrow> fst (push x q) \<longleftrightarrow> length (content q) < room q"
  using push_room [of q x] push_full [of q x] content_room [of q]
  by (cases "length (content q) < room q") auto

lemma pop_content:
  assumes "valid q"
  shows "content q = (case fst (pop q) of None \<Rightarrow> [] | Some y \<Rightarrow> [y]) @ content (snd (pop q))"
  using pop_empty [OF assms] pop_front [OF assms] by (cases "content q") auto

lemma run_ops_valid:
  "valid q \<Longrightarrow> run_ops push pop ops q = (ins, outs, q') \<Longrightarrow> valid q' \<and> room q' = room q"
proof (induction ops arbitrary: q ins outs)
  case Nil
  then show ?case by simp
next
  case (Cons op ops)
  show ?case
  proof (cases op)
    case (Push x)
    with Cons.prems push_valid [of q x] Cons.IH [of "snd (push x q)"] show ?thesis
      by (auto split: prod.splits)
  next
    case Pop
    with Cons.prems pop_valid [of q] Cons.IH [of "snd (pop q)"] show ?thesis
      by (auto split: prod.splits)
  qed
qed

theorem fifo:
  "valid q \<Longrightarrow> run_ops push pop ops q = (ins, outs, q') \<Longrightarrow> content q @ ins = outs @ content q'"
proof (induction ops arbitrary: q ins outs)
  case Nil
  then show ?case by simp
next
  case (Cons op ops)
  show ?case
  proof (cases op)
    case (Push x)
    with Cons.prems obtain ins' where r: "run_ops push pop ops (snd (push x q)) = (ins', outs, q')"
      and ins: "ins = (if fst (push x q) then x # ins' else ins')"
      by (auto split: prod.splits)
    from Cons.IH [OF _ r] push_valid Cons.prems(1)
    have "content (snd (push x q)) @ ins' = outs @ content q'" by blast
    with push_content [OF Cons.prems(1), of x] ins show ?thesis by (auto split: if_splits)
  next
    case Pop
    with Cons.prems obtain outs' where r: "run_ops push pop ops (snd (pop q)) = (ins, outs', q')"
      and outs: "outs = (case fst (pop q) of None \<Rightarrow> outs' | Some y \<Rightarrow> y # outs')"
      by (auto split: prod.splits)
    from Cons.IH [OF _ r] pop_valid Cons.prems(1)
    have "content (snd (pop q)) @ ins = outs' @ content q'" by blast
    with pop_content [OF Cons.prems(1)] outs show ?thesis by (auto split: option.splits)
  qed
qed

text \<open>Every answer, and the content afterwards, are those of a list that takes elements up to the room.\<close>

lemma push_list: "valid q \<Longrightarrow> list_enq (room q) x (content q) = (fst (push x q), content (snd (push x q)))"
  using push_accepts_iff [of q x] push_content [of q x] by (auto simp: list_enq_def)

lemma pop_list: "valid q \<Longrightarrow> list_deq (content q) = (fst (pop q), content (snd (pop q)))"
  using pop_empty [of q] pop_front [of q] by (cases "content q") (simp_all add: list_deq_def)

lemma answers_list:
  "valid q \<Longrightarrow> run_answers push pop ops q = (as, q') \<Longrightarrow>
   run_answers (list_enq (room q)) list_deq ops (content q) = (as, content q')"
proof (induction ops arbitrary: q as)
  case (Cons op ops)
  show ?case
  proof (cases op)
    case (Push x)
    obtain ok q1 where q1: "push x q = (ok, q1)" by force
    with Push Cons.prems(2) obtain as' where "run_answers push pop ops q1 = (as', q')" "as = Pushed ok # as'"
      by (auto split: prod.splits)
    then show ?thesis using Cons.IH [of q1 as'] push_list [OF Cons.prems(1), of x] push_valid [OF Cons.prems(1), of x] q1 Push by simp
  next
    case Pop
    obtain r q1 where q1: "pop q = (r, q1)" by force
    with Pop Cons.prems(2) obtain as' where "run_answers push pop ops q1 = (as', q')" "as = Popped r # as'"
      by (auto split: prod.splits)
    then show ?thesis using Cons.IH [of q1 as'] pop_list [OF Cons.prems(1)] pop_valid [OF Cons.prems(1)] q1 Pop by simp
  qed
qed simp

text \<open>Popping as often as there are elements returns them all in order and leaves nothing.\<close>

lemma drain:
  "valid q \<Longrightarrow> length (content q) \<le> n \<Longrightarrow>
   \<exists>q'. run_ops push pop (replicate n Pop) q = ([], content q, q') \<and> content q' = []"
proof (induction n arbitrary: q)
  case 0
  then show ?case by simp
next
  case (Suc n)
  have v: "valid (snd (pop q))" using pop_valid Suc.prems(1) by blast
  have c: "length (content (snd (pop q))) \<le> n"
    using Suc.prems pop_empty [of q] pop_front [of q] by (cases "content q") auto
  from Suc.IH [OF v c] obtain q' where
    "run_ops push pop (replicate n Pop) (snd (pop q)) = ([], content (snd (pop q)), q')" "content q' = []"
    by blast
  with pop_content [OF Suc.prems(1)] show ?case by (auto split: option.splits)
qed

end

end
