(* ===== verification/Fw_SpscQueue.thy ===== *)
theory Fw_SpscQueue
  imports Fw_Queue
begin

section \<open>The single-producer single-consumer ring buffer\<close>

text \<open>
  \<open>include/fw/SPSCQueue.hpp\<close> and \<open>SPSCQueue.inl\<close>: a ring buffer of \<open>size_t\<close> positions with one
  slot kept free. \<open>size_t\<close> is a 64-bit word, so \<open>result <<= 1\<close> and \<open>pos + 1\<close> wrap as in the code.
  This theory holds the capacity computation, the operations as one caller sees them, and their
  refinement of a bounded list; \<open>Fw_SpscConcurrent\<close> splits \<open>push\<close> and \<open>pop\<close> into their atomic
  accesses and interleaves the two threads.
\<close>

subsection \<open>Capacity\<close>

definition isPowerOfTwo :: "u64 \<Rightarrow> bool" where
  "isPowerOfTwo n \<longleftrightarrow> n \<noteq> 0 \<and> n AND (n - 1) = 0"

text \<open>The loop \<open>while (result < n) result <<= 1;\<close>. \<open>None\<close> is a loop that does not end.\<close>

partial_function (option) doubling_loop :: "u64 \<Rightarrow> u64 \<Rightarrow> u64 option" where
  "doubling_loop result n = (if result < n then doubling_loop (push_bit 1 result) n else Some result)"

declare doubling_loop.simps [code]

definition nextPowerOfTwo :: "u64 \<Rightarrow> u64 option" where
  "nextPowerOfTwo n =
     (if n = 0 then Some 1 else if isPowerOfTwo n then Some n else doubling_loop 1 n)"

lemma and_pred_odd: "((2 ^ k * (2 * q + 1)) :: nat) AND (2 ^ k * (2 * q + 1) - 1) = 2 ^ k * (2 * q)"
proof (induction k)
  case 0
  show ?case by (subst and_nat_unfold) simp
next
  case (Suc k)
  define a :: nat where "a = 2 ^ k * (2 * q + 1)"
  have pos: "0 < a" by (simp add: a_def)
  have e: "2 ^ Suc k * (2 * q + 1) = 2 * a" by (simp add: a_def)
  have p: "2 * a - 1 = 2 * (a - 1) + 1" using pos by arith
  have "(2 * a) AND (2 * a - 1) = 2 * (a AND (a - 1))"
    unfolding p by (subst and_nat_unfold) (use pos in simp)
  also have "a AND (a - 1) = 2 ^ k * (2 * q)" unfolding a_def by (rule Suc.IH)
  finally show ?case by (simp only: e) simp
qed

lemma power_times_odd: "0 < (n::nat) \<Longrightarrow> \<exists>k q. n = 2 ^ k * (2 * q + 1)"
proof (induction n rule: less_induct)
  case (less n)
  show ?case
  proof (cases "even n")
    case True
    then obtain m where m: "n = 2 * m" by auto
    with less.prems less.IH [of m] obtain k q where "m = 2 ^ k * (2 * q + 1)" by auto
    with m have "n = 2 ^ Suc k * (2 * q + 1)" by simp
    then show ?thesis by blast
  next
    case False
    then obtain q where "n = 2 * q + 1" by (auto elim: oddE)
    then have "n = 2 ^ 0 * (2 * q + 1)" by simp
    then show ?thesis by blast
  qed
qed

lemma and_pred_zero_iff: "0 < (n::nat) \<Longrightarrow> n AND (n - 1) = 0 \<longleftrightarrow> (\<exists>k. n = 2 ^ k)"
proof -
  assume "0 < n"
  then obtain k q where n: "n = 2 ^ k * (2 * q + 1)" using power_times_odd by blast
  have "n AND (n - 1) = 2 ^ k * (2 * q)" unfolding n by (rule and_pred_odd)
  moreover have "(\<exists>j. n = 2 ^ j) \<longleftrightarrow> q = 0"
  proof
    assume "\<exists>j. n = 2 ^ j"
    then obtain j where "2 ^ j = 2 ^ k * (2 * q + 1)" using n by auto
    moreover have "coprime (2 ^ j) (2 * q + 1)" by simp
    ultimately have "2 * q + 1 dvd (1::nat)"
      by (metis coprime_common_divisor dvd_refl dvd_triv_right)
    then show "q = 0" by simp
  next
    assume "q = 0"
    with n show "\<exists>j. n = 2 ^ j" by auto
  qed
  ultimately show ?thesis by auto
qed

lemma unat_minus_one_pos: "(n :: 'a::len word) \<noteq> 0 \<Longrightarrow> unat (n - 1) = unat n - 1"
  by (rule unat_minus_one)

lemma isPowerOfTwo_iff: "isPowerOfTwo n \<longleftrightarrow> (\<exists>k. unat n = 2 ^ k)"
proof (cases "n = 0")
  case True
  then show ?thesis by (simp add: isPowerOfTwo_def)
next
  case False
  then have pos: "0 < unat n" by (simp add: unat_gt_0)
  have "n AND (n - 1) = 0 \<longleftrightarrow> unat n AND (unat n - 1) = 0"
    using False by (metis unat_0_iff unat_minus_one_pos unsigned_and_eq)
  with False and_pred_zero_iff [OF pos] show ?thesis by (simp add: isPowerOfTwo_def)
qed

lemma unat_double: "unat (r :: u64) < 2 ^ 63 \<Longrightarrow> unat (push_bit 1 r) = 2 * unat r"
  by (simp add: unat_word_ariths)

lemma unat_double': "unat (r :: u64) < 2 ^ 63 \<Longrightarrow> unat (r * 2) = 2 * unat r"
  by (simp add: unat_word_ariths)

lemma doubling_loop_power:
  "i \<le> 63 \<Longrightarrow> unat n \<le> 2 ^ 63 \<Longrightarrow> unat r = 2 ^ i \<Longrightarrow> i = 0 \<or> 2 ^ (i - 1) < unat n \<Longrightarrow>
   \<exists>k p. doubling_loop r n = Some p \<and> unat p = 2 ^ k \<and> unat n \<le> unat p \<and> (k = 0 \<or> 2 ^ (k - 1) < unat n)"
proof (induction "63 - i" arbitrary: i r)
  case 0
  then have "i = 63" by simp
  with 0 have "\<not> r < n" by (simp add: word_less_nat_alt)
  then have "doubling_loop r n = Some r" by (simp add: doubling_loop.simps)
  moreover have "unat n \<le> unat r" using \<open>\<not> r < n\<close> by (simp add: word_less_nat_alt)
  ultimately show ?case using 0 by blast
next
  case (Suc d)
  show ?case
  proof (cases "r < n")
    case False
    then have "doubling_loop r n = Some r" by (simp add: doubling_loop.simps)
    moreover have "unat n \<le> unat r" using False by (simp add: word_less_nat_alt)
    ultimately show ?thesis using Suc.prems by blast
  next
    case True
    have i: "i < 63" using Suc.hyps(2) by simp
    have "(2::nat) ^ i < 2 ^ 63" using i by (rule power_strict_increasing) simp
    with Suc.prems(3) have r': "unat (push_bit 1 r) = 2 ^ Suc i" by (simp add: unat_double')
    have lt: "2 ^ i < unat n" using True Suc.prems(3) by (simp add: word_less_nat_alt)
    have "\<exists>k p. doubling_loop (push_bit 1 r) n = Some p \<and> unat p = 2 ^ k \<and> unat n \<le> unat p \<and>
        (k = 0 \<or> 2 ^ (k - 1) < unat n)"
      by (rule Suc.hyps(1) [of "Suc i"]) (use Suc.hyps(2) i Suc.prems(2) r' lt in auto)
    moreover have "doubling_loop r n = doubling_loop (push_bit 1 r) n"
      using True by (subst doubling_loop.simps) simp
    ultimately show ?thesis by simp
  qed
qed

text \<open>A result of 0 can only come from a request for 0: the loop cannot leave 0 otherwise.\<close>

lemma doubling_loop_zero:
  assumes "doubling_loop r n = Some p"
  shows "\<not> (r = 0 \<and> 0 < n)"
proof (rule doubling_loop.raw_induct [where P = "\<lambda>r n p. \<not> (r = 0 \<and> 0 < n)", OF _ assms])
  fix f r n p
  assume IH: "\<And>r n p. f r n = Some p \<Longrightarrow> \<not> (r = 0 \<and> 0 < (n::u64))"
    and eq: "(if r < n then f (push_bit 1 r) n else Some r) = Some p"
  show "\<not> (r = 0 \<and> 0 < n)"
  proof
    assume z: "r = 0 \<and> 0 < n"
    with eq have "f (push_bit 1 0) n = Some p" by simp
    from IH [OF this] z show False by simp
  qed
qed

lemma doubling_loop_diverges:
  "i \<le> 63 \<Longrightarrow> 2 ^ 63 < unat n \<Longrightarrow> unat (r::u64) = 2 ^ i \<Longrightarrow> doubling_loop r n = None"
proof (induction "63 - i" arbitrary: i r)
  case 0
  then have i: "i = 63" by simp
  have "push_bit 1 r = 0"
    by (rule word_unat_eq_iff [THEN iffD2]) (use 0 i in \<open>simp add: unat_word_ariths\<close>)
  moreover have "r < n" using 0 i by (simp add: word_less_nat_alt)
  ultimately have "doubling_loop r n = doubling_loop 0 n" by (subst doubling_loop.simps) simp
  moreover have "0 < n" using 0 by (simp add: word_less_nat_alt)
  ultimately show ?case using doubling_loop_zero [of 0 n] by (cases "doubling_loop 0 n") auto
next
  case (Suc d)
  have i: "i < 63" using Suc.hyps(2) by simp
  have lt: "(2::nat) ^ i < 2 ^ 63" using i by (rule power_strict_increasing) simp
  with Suc.prems(3) have r': "unat (push_bit 1 r) = 2 ^ Suc i" by (simp add: unat_double')
  have "r < n" using lt Suc.prems by (simp add: word_less_nat_alt)
  then have "doubling_loop r n = doubling_loop (push_bit 1 r) n" by (subst doubling_loop.simps) simp
  also have "\<dots> = None" by (rule Suc.hyps(1) [of "Suc i"]) (use Suc.hyps(2) i Suc.prems(2) r' in auto)
  finally show ?case .
qed

lemma nextPowerOfTwo_None: "2 ^ 63 < unat n \<Longrightarrow> nextPowerOfTwo n = None"
proof -
  assume big: "2 ^ 63 < unat n"
  have "\<not> isPowerOfTwo n"
  proof
    assume "isPowerOfTwo n"
    then obtain k where k: "unat n = 2 ^ k" by (auto simp: isPowerOfTwo_iff)
    have "unat n < 2 ^ 64" using unsigned_less [of n] by simp
    with k have "k < 64" using power_less_imp_less_exp [of "2 :: nat" k 64] by simp
    then have "(2::nat) ^ k \<le> 2 ^ 63" by (intro power_increasing) auto
    with k big show False by simp
  qed
  moreover have "n \<noteq> 0" using big by auto
  moreover have "doubling_loop 1 n = None"
    by (rule doubling_loop_diverges [where i = 0]) (use big in auto)
  ultimately show ?thesis by (simp add: nextPowerOfTwo_def)
qed

lemma nextPowerOfTwo_Some:
  assumes "unat n \<le> 2 ^ 63"
  shows "\<exists>k p. nextPowerOfTwo n = Some p \<and> unat p = 2 ^ k \<and> unat n \<le> unat p \<and>
     (k = 0 \<or> 2 ^ (k - 1) < unat n)"
proof (cases "n = 0")
  case True
  then show ?thesis by (intro exI [of _ 0] exI [of _ 1]) (simp add: nextPowerOfTwo_def)
next
  case nz: False
  show ?thesis
  proof (cases "isPowerOfTwo n")
    case True
    then obtain k where k: "unat n = 2 ^ k" by (auto simp: isPowerOfTwo_iff)
    have "k = 0 \<or> (2::nat) ^ (k - 1) < 2 ^ k" by (cases k) auto
    with True nz k show ?thesis
      by (intro exI [of _ k] exI [of _ n]) (simp add: nextPowerOfTwo_def)
  next
    case False
    from doubling_loop_power [of 0 n 1] assms False nz show ?thesis
      by (simp add: nextPowerOfTwo_def)
  qed
qed

subsection \<open>Operations\<close>

record 'a spsc =
  m_buffer :: "'a list"
  m_capacity :: u64
  m_mask :: u64
  m_writePos :: u64
  m_readPos :: u64
  m_pushCount :: u64
  m_popCount :: u64
  m_dropCount :: u64

text \<open>The constructor; \<open>d\<close> stands for the content of a cell fresh from \<open>new T[m_capacity]\<close>.\<close>

definition spsc_new :: "'a \<Rightarrow> u64 \<Rightarrow> 'a spsc option" where
  "spsc_new d capacity =
     (case nextPowerOfTwo capacity of
        None \<Rightarrow> None
      | Some c \<Rightarrow> Some \<lparr>m_buffer = replicate (unat c) d, m_capacity = c, m_mask = c - 1,
          m_writePos = 0, m_readPos = 0, m_pushCount = 0, m_popCount = 0, m_dropCount = 0\<rparr>)"

definition spsc_push :: "'a \<Rightarrow> 'a spsc \<Rightarrow> bool \<times> 'a spsc" where
  "spsc_push item q =
     (let currentWrite = m_writePos q;
          nextWrite = (currentWrite + 1) AND m_mask q;
          currentRead = m_readPos q
      in if nextWrite = currentRead then (False, q\<lparr>m_dropCount := m_dropCount q + 1\<rparr>)
         else (True, q\<lparr>m_buffer := (m_buffer q)[unat currentWrite := item],
                       m_writePos := nextWrite, m_pushCount := m_pushCount q + 1\<rparr>))"

definition spsc_pop :: "'a spsc \<Rightarrow> 'a option \<times> 'a spsc" where
  "spsc_pop q =
     (let currentRead = m_readPos q; currentWrite = m_writePos q
      in if currentRead = currentWrite then (None, q)
         else (Some (m_buffer q ! unat currentRead),
               q\<lparr>m_readPos := (currentRead + 1) AND m_mask q, m_popCount := m_popCount q + 1\<rparr>))"

definition spsc_empty :: "'a spsc \<Rightarrow> bool" where
  "spsc_empty q \<longleftrightarrow> m_readPos q = m_writePos q"

definition spsc_size :: "'a spsc \<Rightarrow> u64" where
  "spsc_size q =
     (if m_readPos q \<le> m_writePos q then m_writePos q - m_readPos q
      else (m_capacity q - m_readPos q) + m_writePos q)"

text \<open>\<open>while (pop(item)) {}\<close>. \<open>None\<close> is a loop that does not end.\<close>

partial_function (option) spsc_clear :: "'a spsc \<Rightarrow> 'a spsc option" where
  "spsc_clear q =
     (case spsc_pop q of (None, q') \<Rightarrow> Some q' | (Some x, q') \<Rightarrow> spsc_clear q')"

declare spsc_clear.simps [code]

subsection \<open>The ring as a list\<close>

definition ring_count :: "nat \<Rightarrow> nat \<Rightarrow> nat \<Rightarrow> nat" where
  "ring_count n r w = (w + n - r) mod n"

definition ring :: "'a list \<Rightarrow> nat \<Rightarrow> nat \<Rightarrow> 'a list" where
  "ring b r w = map (\<lambda>i. b ! ((r + i) mod length b)) [0..<ring_count (length b) r w]"

lemma ring_count_less: "0 < n \<Longrightarrow> ring_count n r w < n"
  by (simp add: ring_count_def)

lemma length_ring [simp]: "length (ring b r w) = ring_count (length b) r w"
  by (simp add: ring_def)

lemma mod_near: "n \<le> k \<Longrightarrow> k < 2 * n \<Longrightarrow> k mod n = k - (n::nat)"
  by (simp add: mod_if)

lemma ring_count_cases:
  "r < n \<Longrightarrow> w < n \<Longrightarrow> ring_count n r w = (if r \<le> w then w - r else w + n - r)"
  by (auto simp: ring_count_def mod_near)

lemma ring_count_zero: "r < n \<Longrightarrow> w < n \<Longrightarrow> ring_count n r w = 0 \<longleftrightarrow> r = w"
  by (auto simp: ring_count_cases)

lemma next_cases: "w < n \<Longrightarrow> Suc w mod n = (if Suc w = n then 0 else Suc w)"
  by simp

lemma ring_count_push:
  "r < n \<Longrightarrow> w < n \<Longrightarrow> Suc w mod n \<noteq> r \<Longrightarrow> ring_count n r (Suc w mod n) = Suc (ring_count n r w)"
  by (auto simp: ring_count_cases next_cases)

lemma ring_count_full:
  "r < n \<Longrightarrow> w < n \<Longrightarrow> Suc w mod n = r \<longleftrightarrow> ring_count n r w = n - 1"
  by (auto simp: ring_count_cases next_cases)

lemma ring_count_pop:
  "r < n \<Longrightarrow> w < n \<Longrightarrow> r \<noteq> w \<Longrightarrow> Suc (ring_count n (Suc r mod n) w) = ring_count n r w"
  by (auto simp: ring_count_cases next_cases)

lemma ring_slot:
  "r < n \<Longrightarrow> w < n \<Longrightarrow> (r + ring_count n r w) mod n = w"
  by (auto simp: ring_count_cases mod_near)

lemma ring_slot_neq:
  assumes "r < n" "w < n" "i < ring_count n r w"
  shows "(r + i) mod n \<noteq> w"
proof (cases "r \<le> w")
  case True
  with assms show ?thesis by (auto simp: ring_count_cases)
next
  case False
  with assms show ?thesis by (cases "r + i < n") (auto simp: ring_count_cases mod_near)
qed

text \<open>Writing the free slot leaves the content alone; publishing it appends one element.\<close>

lemma ring_write:
  "r < length b \<Longrightarrow> w < length b \<Longrightarrow> ring (b[w := x]) r w = ring b r w"
  by (auto simp: ring_def nth_list_update dest: ring_slot_neq)

lemma ring_publish:
  assumes "r < length b" "w < length b" "Suc w mod length b \<noteq> r"
  shows "ring b r (Suc w mod length b) = ring b r w @ [b ! w]"
  using assms by (simp add: ring_def ring_count_push ring_slot)

lemma ring_pop:
  assumes "r < length b" "w < length b" "r \<noteq> w"
  shows "ring b r w = b ! r # ring b (Suc r mod length b) w"
proof -
  let ?n = "length b"
  let ?c = "ring_count ?n (Suc r mod ?n) w"
  have "ring b r w = map (\<lambda>i. b ! ((r + i) mod ?n)) [0..<Suc ?c]"
    using ring_count_pop [OF assms] by (simp add: ring_def)
  also have "\<dots> = b ! r # map (\<lambda>i. b ! ((r + Suc i) mod ?n)) [0..<?c]"
    using assms by (simp add: upt_conv_Cons del: upt_Suc flip: map_Suc_upt)
  also have "map (\<lambda>i. b ! ((r + Suc i) mod ?n)) [0..<?c] = ring b (Suc r mod ?n) w"
    by (simp add: ring_def mod_add_left_eq)
  finally show ?thesis .
qed

subsection \<open>Refinement of a bounded list\<close>

definition spsc_content :: "'a spsc \<Rightarrow> 'a list" where
  "spsc_content q = ring (m_buffer q) (unat (m_readPos q)) (unat (m_writePos q))"

definition spsc_room :: "'a spsc \<Rightarrow> nat" where
  "spsc_room q = unat (m_capacity q) - 1"

definition spsc_valid :: "'a spsc \<Rightarrow> bool" where
  "spsc_valid q \<longleftrightarrow> isPowerOfTwo (m_capacity q) \<and> m_mask q = m_capacity q - 1 \<and>
     length (m_buffer q) = unat (m_capacity q) \<and>
     m_writePos q < m_capacity q \<and> m_readPos q < m_capacity q"

lemma spsc_validD:
  assumes "spsc_valid q"
  shows "length (m_buffer q) = unat (m_capacity q)"
    and "unat (m_writePos q) < unat (m_capacity q)"
    and "unat (m_readPos q) < unat (m_capacity q)"
  using assms by (auto simp: spsc_valid_def word_less_nat_alt)

lemma mask_next:
  assumes "isPowerOfTwo c" and "p < (c :: u64)"
  shows "unat ((p + 1) AND (c - 1)) = Suc (unat p) mod unat c"
proof -
  from assms(1) obtain k where k: "unat c = 2 ^ k" by (auto simp: isPowerOfTwo_iff)
  have lt: "unat c < 2 ^ 64" using unsigned_less [of c] by simp
  have "c = word_of_nat (2 ^ k)" by (simp flip: k)
  then have "c - 1 = mask k" by (simp add: mask_eq_exp_minus_1)
  then have "unat ((p + 1) AND (c - 1)) = unat (p + 1) mod 2 ^ k"
    by (metis take_bit_eq_mask take_bit_eq_mod unsigned_take_bit_eq)
  moreover have "unat (p + 1) = Suc (unat p)"
    using assms(2) lt by (simp add: word_less_nat_alt unat_word_ariths)
  ultimately show ?thesis using k by simp
qed

lemma spsc_next:
  assumes "spsc_valid q" and "p < m_capacity q"
  shows "unat ((p + 1) AND m_mask q) = Suc (unat p) mod length (m_buffer q)"
  using assms mask_next [of "m_capacity q" p] by (simp add: spsc_valid_def)

lemma spsc_next_less:
  assumes "spsc_valid q" and "p < m_capacity q"
  shows "(p + 1) AND m_mask q < m_capacity q"
proof -
  have "0 < unat (m_capacity q)" using spsc_validD(2) [OF assms(1)] by arith
  with spsc_next [OF assms] spsc_validD(1) [OF assms(1)] show ?thesis
    by (simp add: word_less_nat_alt)
qed

lemmas spsc_lengths = spsc_content_def spsc_room_def

lemma spsc_full_iff:
  assumes "spsc_valid q"
  shows "(m_writePos q + 1) AND m_mask q = m_readPos q \<longleftrightarrow> length (spsc_content q) = spsc_room q"
proof -
  note v = spsc_validD [OF assms]
  have "m_writePos q < m_capacity q" using assms by (simp add: spsc_valid_def)
  from spsc_next [OF assms this]
  have "(m_writePos q + 1) AND m_mask q = m_readPos q \<longleftrightarrow>
      Suc (unat (m_writePos q)) mod length (m_buffer q) = unat (m_readPos q)"
    by (simp add: word_unat_eq_iff)
  with ring_count_full [of "unat (m_readPos q)" "unat (m_capacity q)" "unat (m_writePos q)"] v
  show ?thesis by (simp add: spsc_lengths)
qed

lemma spsc_push_accept:
  assumes "spsc_valid q" and "(m_writePos q + 1) AND m_mask q \<noteq> m_readPos q"
  shows "spsc_content (snd (spsc_push x q)) = spsc_content q @ [x]"
proof -
  note v = spsc_validD [OF assms(1)]
  let ?n = "length (m_buffer q)" and ?r = "unat (m_readPos q)" and ?w = "unat (m_writePos q)"
  have wc: "m_writePos q < m_capacity q" using assms(1) by (simp add: spsc_valid_def)
  have nx: "unat ((m_writePos q + 1) AND m_mask q) = Suc ?w mod ?n" by (rule spsc_next [OF assms(1) wc])
  with assms(2) have "Suc ?w mod ?n \<noteq> ?r" by (simp add: word_unat_eq_iff)
  with v have "ring ((m_buffer q)[?w := x]) ?r (Suc ?w mod ?n) = ring (m_buffer q) ?r ?w @ [x]"
    using ring_publish [of ?r "(m_buffer q)[?w := x]" ?w] by (simp add: ring_write)
  with assms(2) nx show ?thesis by (simp add: spsc_push_def spsc_content_def Let_def)
qed

lemma spsc_push_valid: "spsc_valid q \<Longrightarrow> spsc_valid (snd (spsc_push x q))"
  using spsc_next_less [of q "m_writePos q"] by (auto simp: spsc_push_def spsc_valid_def Let_def)

lemma spsc_push_room [simp]: "spsc_room (snd (spsc_push x q)) = spsc_room q"
  by (simp add: spsc_push_def spsc_room_def Let_def)

lemma spsc_pop_valid: "spsc_valid q \<Longrightarrow> spsc_valid (snd (spsc_pop q))"
  using spsc_next_less [of q "m_readPos q"] by (auto simp: spsc_pop_def spsc_valid_def Let_def)

lemma spsc_pop_room [simp]: "spsc_room (snd (spsc_pop q)) = spsc_room q"
  by (simp add: spsc_pop_def spsc_room_def Let_def)

lemma spsc_content_Nil: "spsc_valid q \<Longrightarrow> spsc_content q = [] \<longleftrightarrow> m_readPos q = m_writePos q"
  using ring_count_zero [of "unat (m_readPos q)" "unat (m_capacity q)" "unat (m_writePos q)"]
    spsc_validD [of q]
  by (simp add: spsc_content_def word_unat_eq_iff flip: length_0_conv)

lemma spsc_pop_front:
  assumes "spsc_valid q" and "m_readPos q \<noteq> m_writePos q"
  shows "spsc_content q = m_buffer q ! unat (m_readPos q) # spsc_content (snd (spsc_pop q))"
proof -
  note v = spsc_validD [OF assms(1)]
  have rc: "m_readPos q < m_capacity q" using assms(1) by (simp add: spsc_valid_def)
  have "unat (m_readPos q) \<noteq> unat (m_writePos q)" using assms(2) by (simp add: word_unat_eq_iff)
  with v have "spsc_content q = m_buffer q ! unat (m_readPos q) #
      ring (m_buffer q) (Suc (unat (m_readPos q)) mod length (m_buffer q)) (unat (m_writePos q))"
    by (simp add: spsc_content_def ring_pop)
  with assms(2) spsc_next [OF assms(1) rc] show ?thesis
    by (simp add: spsc_pop_def spsc_content_def Let_def)
qed

lemma spsc_content_room: "spsc_valid q \<Longrightarrow> length (spsc_content q) \<le> spsc_room q"
  using ring_count_less [of "unat (m_capacity q)" "unat (m_readPos q)" "unat (m_writePos q)"]
    spsc_validD [of q]
  by (simp add: spsc_lengths)

interpretation spscq: bounded_queue spsc_push spsc_pop spsc_content spsc_room spsc_valid
proof (unfold_locales, goal_cases)
  case (1 q x)
  then show ?case using spsc_full_iff [of q] spsc_push_accept [of q x]
    by (auto simp: spsc_push_def Let_def)
next
  case (2 q x)
  then show ?case using spsc_full_iff [of q] by (auto simp: spsc_push_def spsc_content_def Let_def)
next
  case (3 q x)
  then show ?case by (simp add: spsc_push_valid)
next
  case (4 q)
  then show ?case by (simp add: spsc_content_Nil spsc_pop_def Let_def)
next
  case (5 q y ys)
  then show ?case using spsc_pop_front [of q] spsc_content_Nil [of q] by (auto simp: spsc_pop_def Let_def)
next
  case (6 q)
  then show ?case by (simp add: spsc_pop_valid)
next
  case (7 q)
  then show ?case by (rule spsc_content_room)
qed

lemma spsc_new_facts:
  assumes "spsc_new d n = Some q"
  shows "spsc_valid q" and "spsc_content q = []" and "unat n \<le> unat (m_capacity q)"
proof -
  from assms obtain c where c: "nextPowerOfTwo n = Some c" by (auto simp: spsc_new_def split: option.splits)
  then have le: "unat n \<le> 2 ^ 63" using nextPowerOfTwo_None [of n] by (cases "2 ^ 63 < unat n") auto
  from nextPowerOfTwo_Some [OF le] obtain k p where "nextPowerOfTwo n = Some p"
      "unat p = 2 ^ k" "unat n \<le> unat p" by blast
  with c have k: "unat c = 2 ^ k" "unat n \<le> unat c" by simp_all
  then have "isPowerOfTwo c" by (auto simp: isPowerOfTwo_iff)
  moreover have "0 < c" using k by (simp add: word_less_nat_alt)
  ultimately show "spsc_valid q" using assms c by (auto simp: spsc_new_def spsc_valid_def)
  show "spsc_content q = []" using assms c
    by (auto simp: spsc_new_def spsc_content_def ring_def ring_count_def)
  show "unat n \<le> unat (m_capacity q)" using assms c k by (auto simp: spsc_new_def)
qed

lemma spsc_clear_valid:
  "spsc_valid q \<Longrightarrow> \<exists>q'. spsc_clear q = Some q' \<and> spsc_valid q' \<and> spsc_content q' = [] \<and> m_capacity q' = m_capacity q"
proof (induction "length (spsc_content q)" arbitrary: q)
  case 0
  then have "spsc_pop q = (None, q)" by (simp add: spsc_content_Nil spsc_pop_def Let_def)
  with 0 show ?case by (subst spsc_clear.simps) simp
next
  case (Suc n)
  then have "m_readPos q \<noteq> m_writePos q" using spsc_content_Nil [of q] by auto
  then obtain y q1 where p: "spsc_pop q = (Some y, q1)" and cap: "m_capacity q1 = m_capacity q"
    by (simp add: spsc_pop_def Let_def)
  from spsc_pop_front [OF Suc.prems \<open>m_readPos q \<noteq> m_writePos q\<close>] Suc.hyps(2) p
  have "n = length (spsc_content q1)" by simp
  moreover have "spsc_valid q1" using spsc_pop_valid [OF Suc.prems] p by simp
  ultimately show ?case using Suc.hyps(1) [of q1] cap p by (subst spsc_clear.simps) simp
qed

subsection \<open>Properties\<close>

text \<open>
  \<open>nextPowerOfTwo\<close> returns exactly for requests up to \<open>2^63\<close>, and then the least power of
  two that is at least the request; above \<open>2^63\<close> the doubling loop shifts its only bit out and
  never ends.
\<close>

theorem capacity_rounding:
  "case nextPowerOfTwo n of
     None \<Rightarrow> 2 ^ 63 < unat n
   | Some p \<Rightarrow> unat n \<le> 2 ^ 63 \<and> unat n \<le> unat p \<and>
       (\<exists>k. unat p = 2 ^ k \<and> (k = 0 \<or> 2 ^ (k - 1) < unat n))"
proof (cases "unat n \<le> 2 ^ 63")
  case True
  from nextPowerOfTwo_Some [OF this] obtain k p where "nextPowerOfTwo n = Some p"
      "unat p = 2 ^ k" "unat n \<le> unat p" "k = 0 \<or> 2 ^ (k - 1) < unat n" by blast
  then show ?thesis using True by (simp del: One_nat_def)
next
  case False
  then show ?thesis using nextPowerOfTwo_None [of n] by simp
qed

text \<open>
  C11: the ring buffer is a bounded list. For any sequence of pushes and pops on a new queue, every answer is that of a list that takes an
  element exactly while it has fewer than capacity - 1, so a push fails exactly when the queue is full and a pop exactly when it is
  empty; the popped elements are the first in, and the content is what the list holds.
\<close>

theorem spsc_fifo:
  assumes "spsc_new d n = Some q" and "run_answers spsc_push spsc_pop ops q = (as, q')"
  shows "run_answers (list_enq (unat (m_capacity q) - 1)) list_deq ops [] = (as, spsc_content q') \<and>
    unat n \<le> unat (m_capacity q)"
proof -
  note new = spsc_new_facts [OF assms(1)]
  from spscq.answers_list [OF new(1) assms(2)] new(2,3) show ?thesis by (simp add: spsc_room_def)
qed

lemma spsc_fifo_witness:
  "\<exists>q q'. spsc_new (0 :: int) 3 = Some q \<and>
     run_answers spsc_push spsc_pop [Push 1, Push 2, Pop, Push 3, Push 4, Push 5, Pop] q =
       ([Pushed True, Pushed True, Popped (Some 1), Pushed True, Pushed True, Pushed False, Popped (Some 2)], q') \<and> spsc_content q' = [3, 4]"
proof -
  let ?ops = "[Push 1, Push 2, Pop, Push 3, Push 4, Push 5, Pop]"
  have "map_option m_capacity (spsc_new (0 :: int) 3) = Some 4" by code_simp
  then obtain q where q: "spsc_new (0 :: int) 3 = Some q" "m_capacity q = 4" by auto
  obtain as q' where r: "run_answers spsc_push spsc_pop ?ops q = (as, q')" by force
  from spsc_fifo [OF q(1) r] q r show ?thesis by (auto simp: list_enq_def list_deq_def)
qed

text \<open>
  on a valid queue \<open>size()\<close> is the length of the content, \<open>empty()\<close> holds exactly for an
  empty content, and \<open>clear()\<close> ends with a valid empty queue of the same capacity.
\<close>

theorem spsc_observers:
  assumes "spsc_valid q"
  shows "unat (spsc_size q) = length (spsc_content q) \<and> (spsc_empty q \<longleftrightarrow> spsc_content q = []) \<and>
    (\<exists>q'. spsc_clear q = Some q' \<and> spsc_valid q' \<and> spsc_content q' = [] \<and> m_capacity q' = m_capacity q)"
proof -
  note v = spsc_validD [OF assms]
  have "unat (spsc_size q) = ring_count (unat (m_capacity q)) (unat (m_readPos q)) (unat (m_writePos q))"
  proof (cases "m_readPos q \<le> m_writePos q")
    case True
    with v show ?thesis by (simp add: spsc_size_def ring_count_cases unat_sub word_le_nat_alt)
  next
    case False
    have "m_readPos q \<le> m_capacity q" using v by (simp add: word_le_nat_alt)
    then have d: "unat (m_capacity q - m_readPos q) = unat (m_capacity q) - unat (m_readPos q)"
      by (rule unat_sub)
    have lt: "unat (m_capacity q) < 2 ^ 64" using unsigned_less [of "m_capacity q"] by simp
    have "unat ((m_capacity q - m_readPos q) + m_writePos q)
        = unat (m_capacity q) - unat (m_readPos q) + unat (m_writePos q)"
      using False v lt d by (simp add: unat_word_ariths word_le_nat_alt)
    with False v show ?thesis by (simp add: spsc_size_def ring_count_cases word_le_nat_alt)
  qed
  with v spsc_content_Nil [OF assms] spsc_clear_valid [OF assms] show ?thesis
    by (auto simp: spsc_content_def spsc_empty_def)
qed

lemma spsc_observers_witness:
  "\<exists>q. spsc_new (7 :: int) 2 = Some q \<and> spsc_valid (snd (spsc_push 5 q)) \<and>
     unat (spsc_size (snd (spsc_push 5 q))) = length (spsc_content (snd (spsc_push 5 q)))"
proof -
  have "spsc_new (7 :: int) 2 \<noteq> None" by code_simp
  then obtain q where q: "spsc_new (7 :: int) 2 = Some q" by auto
  then have "spsc_valid (snd (spsc_push 5 q))" by (intro spsc_push_valid spsc_new_facts(1))
  with spsc_observers [OF this] q show ?thesis by blast
qed

text \<open>
  a queue asked for one element (or none) has capacity 1 and no usable slot: every push is
  rejected and counted as a drop.
\<close>

theorem spsc_capacity_one:
  assumes "n = 0 \<or> n = 1" and "spsc_new d n = Some q"
  shows "spsc_push x q = (False, q\<lparr>m_dropCount := m_dropCount q + 1\<rparr>)"
  using assms by (auto simp: spsc_new_def nextPowerOfTwo_def isPowerOfTwo_def spsc_push_def)

lemma spsc_capacity_one_witness:
  "\<exists>q. spsc_new (0 :: int) 1 = Some q \<and> fst (spsc_push 9 q) = False"
proof -
  have "spsc_new (0 :: int) 1 \<noteq> None" by code_simp
  then obtain q where q: "spsc_new (0 :: int) 1 = Some q" by auto
  from spsc_capacity_one [OF _ q, of 9] q show ?thesis by auto
qed

end
