(* ===== verification/Fw_SpscConcurrent.thy ===== *)
theory Fw_SpscConcurrent
  imports Fw_SpscQueue
begin

section \<open>The ring buffer under two threads\<close>

text \<open>
  \<open>push\<close> and \<open>pop\<close> of \<open>SPSCQueue.inl\<close> split at their atomic accesses, one producer and one
  consumer interleaved in any order. A step is one load, one store or one \<open>fetch_add\<close>; locals of
  the C++ function live in the thread's program point. Every load reads the
  newest value; \<open>Fw_SpscRelAcq\<close> has the same accesses under the memory orders that the code names. \<open>sent\<close> and \<open>received\<close> are history variables: the elements
  whose push was published and the elements whose pop was published.
\<close>

datatype 'a producer_pc =
    P_Idle
  | P_Write 'a u64 u64          \<comment> \<open>\<open>currentWrite\<close> and \<open>nextWrite\<close> known\<close>
  | P_Read 'a u64 u64 u64       \<comment> \<open>\<open>currentRead\<close> loaded as well\<close>
  | P_Stored 'a u64             \<comment> \<open>slot written, \<open>nextWrite\<close> to be published\<close>
  | P_Count                     \<comment> \<open>published, the push counter still to be increased\<close>

datatype 'a consumer_pc =
    C_Idle
  | C_Read u64                  \<comment> \<open>\<open>currentRead\<close> loaded\<close>
  | C_Both u64 u64              \<comment> \<open>\<open>currentWrite\<close> loaded as well\<close>
  | C_Taken 'a u64              \<comment> \<open>item moved out, \<open>nextRead\<close> to be published\<close>
  | C_Count

record 'a spsc_sys =
  ring_q :: "'a spsc"
  ppc :: "'a producer_pc"
  cpc :: "'a consumer_pc"
  sent :: "'a list"
  received :: "'a list"

inductive spsc_step :: "'a spsc_sys \<Rightarrow> 'a spsc_sys \<Rightarrow> bool" where
  p_start: "ppc s = P_Idle \<Longrightarrow> w = m_writePos (ring_q s) \<Longrightarrow>
     spsc_step s (s\<lparr>ppc := P_Write x w ((w + 1) AND m_mask (ring_q s))\<rparr>)"
| p_load_read: "ppc s = P_Write x w nw \<Longrightarrow>
     spsc_step s (s\<lparr>ppc := P_Read x w nw (m_readPos (ring_q s))\<rparr>)"
| p_full: "ppc s = P_Read x w nw r \<Longrightarrow> nw = r \<Longrightarrow>
     spsc_step s (s\<lparr>ring_q := (ring_q s)\<lparr>m_dropCount := m_dropCount (ring_q s) + 1\<rparr>, ppc := P_Idle\<rparr>)"
| p_store: "ppc s = P_Read x w nw r \<Longrightarrow> nw \<noteq> r \<Longrightarrow>
     spsc_step s (s\<lparr>ring_q := (ring_q s)\<lparr>m_buffer := (m_buffer (ring_q s))[unat w := x]\<rparr>,
                    ppc := P_Stored x nw\<rparr>)"
| p_publish: "ppc s = P_Stored x nw \<Longrightarrow>
     spsc_step s (s\<lparr>ring_q := (ring_q s)\<lparr>m_writePos := nw\<rparr>, ppc := P_Count, sent := sent s @ [x]\<rparr>)"
| p_count: "ppc s = P_Count \<Longrightarrow>
     spsc_step s (s\<lparr>ring_q := (ring_q s)\<lparr>m_pushCount := m_pushCount (ring_q s) + 1\<rparr>, ppc := P_Idle\<rparr>)"
| c_start: "cpc s = C_Idle \<Longrightarrow>
     spsc_step s (s\<lparr>cpc := C_Read (m_readPos (ring_q s))\<rparr>)"
| c_load_write: "cpc s = C_Read r \<Longrightarrow>
     spsc_step s (s\<lparr>cpc := C_Both r (m_writePos (ring_q s))\<rparr>)"
| c_empty: "cpc s = C_Both r w \<Longrightarrow> r = w \<Longrightarrow> spsc_step s (s\<lparr>cpc := C_Idle\<rparr>)"
| c_take: "cpc s = C_Both r w \<Longrightarrow> r \<noteq> w \<Longrightarrow>
     spsc_step s (s\<lparr>cpc := C_Taken (m_buffer (ring_q s) ! unat r) ((r + 1) AND m_mask (ring_q s))\<rparr>)"
| c_publish: "cpc s = C_Taken x nr \<Longrightarrow>
     spsc_step s (s\<lparr>ring_q := (ring_q s)\<lparr>m_readPos := nr\<rparr>, cpc := C_Count, received := received s @ [x]\<rparr>)"
| c_count: "cpc s = C_Count \<Longrightarrow>
     spsc_step s (s\<lparr>ring_q := (ring_q s)\<lparr>m_popCount := m_popCount (ring_q s) + 1\<rparr>, cpc := C_Idle\<rparr>)"

definition spsc_init :: "'a spsc \<Rightarrow> 'a spsc_sys" where
  "spsc_init q = \<lparr>ring_q = q, ppc = P_Idle, cpc = C_Idle, sent = [], received = []\<rparr>"

inductive spsc_reachable :: "'a spsc \<Rightarrow> 'a spsc_sys \<Rightarrow> bool" for q0 where
  start: "spsc_reachable q0 (spsc_init q0)"
| step: "spsc_reachable q0 s \<Longrightarrow> spsc_step s t \<Longrightarrow> spsc_reachable q0 t"

subsection \<open>Invariant\<close>

text \<open>
  The shared part is the sequential validity and the history equation. The producer's and the
  consumer's locals may be stale, but only on the safe side: the producer's view of the free space
  can only grow and the consumer's view of the content can only grow.
\<close>

definition free_slot :: "'a spsc \<Rightarrow> bool" where
  "free_slot q \<longleftrightarrow> length (spsc_content q) < spsc_room q"

definition producer_ok :: "'a spsc \<Rightarrow> 'a producer_pc \<Rightarrow> bool" where
  "producer_ok q pc = (case pc of
      P_Idle \<Rightarrow> True
    | P_Write x w nw \<Rightarrow> w = m_writePos q \<and> nw = (w + 1) AND m_mask q
    | P_Read x w nw r \<Rightarrow> w = m_writePos q \<and> nw = (w + 1) AND m_mask q \<and> (nw = r \<or> free_slot q)
    | P_Stored x nw \<Rightarrow> nw = (m_writePos q + 1) AND m_mask q \<and> free_slot q \<and>
        m_buffer q ! unat (m_writePos q) = x
    | P_Count \<Rightarrow> True)"

definition consumer_ok :: "'a spsc \<Rightarrow> 'a consumer_pc \<Rightarrow> bool" where
  "consumer_ok q pc = (case pc of
      C_Idle \<Rightarrow> True
    | C_Read r \<Rightarrow> r = m_readPos q
    | C_Both r w \<Rightarrow> r = m_readPos q \<and> (r = w \<or> spsc_content q \<noteq> [])
    | C_Taken x nr \<Rightarrow> nr = (m_readPos q + 1) AND m_mask q \<and> spsc_content q \<noteq> [] \<and>
        hd (spsc_content q) = x
    | C_Count \<Rightarrow> True)"

definition counters_ok :: "'a spsc_sys \<Rightarrow> bool" where
  "counters_ok s \<longleftrightarrow>
     m_pushCount (ring_q s) + (if ppc s = P_Count then 1 else 0) = of_nat (length (sent s)) \<and>
     m_popCount (ring_q s) + (if cpc s = C_Count then 1 else 0) = of_nat (length (received s))"

definition spsc_inv :: "'a spsc_sys \<Rightarrow> bool" where
  "spsc_inv s \<longleftrightarrow> spsc_valid (ring_q s) \<and> sent s = received s @ spsc_content (ring_q s) \<and>
     producer_ok (ring_q s) (ppc s) \<and> consumer_ok (ring_q s) (cpc s) \<and> counters_ok s"

lemmas spsc_inv_defs = spsc_inv_def producer_ok_def consumer_ok_def counters_ok_def free_slot_def

text \<open>Storing into the slot at the write position is invisible to the content.\<close>

lemma content_store:
  "spsc_valid q \<Longrightarrow> spsc_content (q\<lparr>m_buffer := (m_buffer q)[unat (m_writePos q) := x]\<rparr>) = spsc_content q"
  by (simp add: spsc_content_def ring_write spsc_validD)

lemma valid_store: "spsc_valid q \<Longrightarrow> spsc_valid (q\<lparr>m_buffer := (m_buffer q)[i := x]\<rparr>)"
  by (simp add: spsc_valid_def)

lemma content_counters [simp]:
  "spsc_content (q\<lparr>m_dropCount := n\<rparr>) = spsc_content q"
  "spsc_content (q\<lparr>m_pushCount := n\<rparr>) = spsc_content q"
  "spsc_content (q\<lparr>m_popCount := n\<rparr>) = spsc_content q"
  "spsc_valid (q\<lparr>m_dropCount := n\<rparr>) = spsc_valid q"
  "spsc_valid (q\<lparr>m_pushCount := n\<rparr>) = spsc_valid q"
  "spsc_valid (q\<lparr>m_popCount := n\<rparr>) = spsc_valid q"
  by (simp_all add: spsc_content_def spsc_valid_def)

lemma room_updates [simp]:
  "spsc_room (q\<lparr>m_dropCount := n\<rparr>) = spsc_room q"
  "spsc_room (q\<lparr>m_pushCount := n\<rparr>) = spsc_room q"
  "spsc_room (q\<lparr>m_popCount := n\<rparr>) = spsc_room q"
  "spsc_room (q\<lparr>m_buffer := b\<rparr>) = spsc_room q"
  "spsc_room (q\<lparr>m_writePos := w\<rparr>) = spsc_room q"
  "spsc_room (q\<lparr>m_readPos := w\<rparr>) = spsc_room q"
  by (simp_all add: spsc_room_def)

lemma publish_write:
  assumes "spsc_valid q" and "free_slot q" and "nw = (m_writePos q + 1) AND m_mask q"
  shows "spsc_valid (q\<lparr>m_writePos := nw\<rparr>)"
    and "spsc_content (q\<lparr>m_writePos := nw\<rparr>) = spsc_content q @ [m_buffer q ! unat (m_writePos q)]"
proof -
  note v = spsc_validD [OF assms(1)]
  have wc: "m_writePos q < m_capacity q" using assms(1) by (simp add: spsc_valid_def)
  show "spsc_valid (q\<lparr>m_writePos := nw\<rparr>)"
    using assms spsc_next_less [OF assms(1) wc] by (simp add: spsc_valid_def)
  have "nw \<noteq> m_readPos q" using assms spsc_full_iff [of q] by (auto simp: free_slot_def)
  then have "Suc (unat (m_writePos q)) mod length (m_buffer q) \<noteq> unat (m_readPos q)"
    using spsc_next [OF assms(1) wc] assms(3) by (auto simp: word_unat_eq_iff)
  from ring_publish [OF _ _ this] v spsc_next [OF assms(1) wc] assms(3)
  show "spsc_content (q\<lparr>m_writePos := nw\<rparr>) = spsc_content q @ [m_buffer q ! unat (m_writePos q)]"
    by (simp add: spsc_content_def)
qed

lemma publish_read:
  assumes "spsc_valid q" and "spsc_content q \<noteq> []" and "nr = (m_readPos q + 1) AND m_mask q"
  shows "spsc_valid (q\<lparr>m_readPos := nr\<rparr>)"
    and "spsc_content q = m_buffer q ! unat (m_readPos q) # spsc_content (q\<lparr>m_readPos := nr\<rparr>)"
proof -
  have rw: "m_readPos q \<noteq> m_writePos q" using assms by (simp add: spsc_content_Nil)
  have rc: "m_readPos q < m_capacity q" using assms(1) by (simp add: spsc_valid_def)
  show "spsc_valid (q\<lparr>m_readPos := nr\<rparr>)"
    using assms spsc_next_less [OF assms(1) rc] by (simp add: spsc_valid_def)
  have "spsc_content (snd (spsc_pop q)) = spsc_content (q\<lparr>m_readPos := nr\<rparr>)"
    using rw assms(3) by (simp add: spsc_pop_def Let_def spsc_content_def)
  with spsc_pop_front [OF assms(1) rw]
  show "spsc_content q = m_buffer q ! unat (m_readPos q) # spsc_content (q\<lparr>m_readPos := nr\<rparr>)"
    by simp
qed

text \<open>One preservation case per kind of step.\<close>

lemma spsc_step_inv: "spsc_step s t \<Longrightarrow> spsc_inv s \<Longrightarrow> spsc_inv t"
proof (induction rule: spsc_step.induct)
  case (p_start s w x)
  then show ?case by (simp add: spsc_inv_defs)
next
  case (p_load_read s x w nw)
  then show ?case 
    using spsc_full_iff [of "ring_q s"] spsc_content_room [of "ring_q s"] by (auto simp: spsc_inv_defs)
next
  case (p_full s x w nw r)
  then show ?case by (auto simp: spsc_inv_defs split: consumer_pc.splits)
next
  case (p_store s x w nw r)
  then show ?case 
    by (auto simp: spsc_inv_defs content_store valid_store spsc_validD split: consumer_pc.splits)
next
  case (p_publish s x nw)
  then show ?case 
    using publish_write[of "ring_q s" nw] by (auto simp: spsc_inv_defs hd_append split: consumer_pc.splits)
next
  case (p_count s)
  then show ?case by (auto simp: spsc_inv_defs split: consumer_pc.splits)
next
  case (c_start s)
  then show ?case by (auto simp: spsc_inv_defs split: producer_pc.splits)
next
  case (c_load_write s r)
  then show ?case by (auto simp: spsc_inv_defs spsc_content_Nil split: producer_pc.splits)
next
  case (c_empty s r w)
  then show ?case by (auto simp: spsc_inv_defs split: producer_pc.splits)
next
  case (c_take s r w)
  then show ?case 
    using publish_read[of "ring_q s"] by (auto simp: spsc_inv_defs split: producer_pc.splits)
next
  case (c_publish s x nr)
  then show ?case 
    using publish_read[of "ring_q s" nr] by (auto simp: spsc_inv_defs split: producer_pc.splits)
next
  case (c_count s)
  then show ?case by (auto simp: spsc_inv_defs split: producer_pc.splits)
qed

lemma spsc_reachable_inv:
  assumes "spsc_new d n = Some q0"
  shows "spsc_reachable q0 s \<Longrightarrow> spsc_inv s"
proof (induction rule: spsc_reachable.induct)
  case start
  have "m_pushCount q0 = 0 \<and> m_popCount q0 = 0"
    using assms by (auto simp: spsc_new_def split: option.splits)
  with spsc_new_facts [OF assms] show ?case by (simp add: spsc_inv_defs spsc_init_def)
next
  case (step s t)
  then show ?case by (blast intro: spsc_step_inv)
qed

subsection \<open>Properties\<close>

text \<open>
  C14: in every interleaving of one producer and one consumer, the published pushes are exactly the
  published pops followed by the present content, so nothing is lost, duplicated or reordered, and
  at most capacity less one elements are queued.
\<close>

theorem spsc_concurrent_fifo:
  assumes "spsc_new d n = Some q" and "spsc_reachable q s"
  shows "sent s = received s @ spsc_content (ring_q s) \<and>
    length (spsc_content (ring_q s)) \<le> spsc_room (ring_q s)"
  using spsc_reachable_inv [OF assms] by (simp add: spsc_inv_def spsc_content_room)

text \<open>
  no data race. When the producer is about to write its slot and the consumer is about to read
  its slot, the two slots differ; and what the consumer has taken is the front of the content.
\<close>

theorem spsc_no_slot_race:
  assumes "spsc_new d n = Some q" and "spsc_reachable q s"
    and "ppc s = P_Read x w nw r" and "nw \<noteq> r"
    and "cpc s = C_Both r' w'" and "r' \<noteq> w'"
  shows "unat w \<noteq> unat r' \<and> unat w < length (m_buffer (ring_q s)) \<and> unat r' < length (m_buffer (ring_q s))"
proof -
  have inv: "spsc_inv s" using assms by (intro spsc_reachable_inv)
  then have v: "spsc_valid (ring_q s)" and ne: "spsc_content (ring_q s) \<noteq> []"
    and wr: "w = m_writePos (ring_q s)" "r' = m_readPos (ring_q s)"
    using assms(3-6) by (auto simp: spsc_inv_defs)
  from ne v have "m_readPos (ring_q s) \<noteq> m_writePos (ring_q s)" by (simp add: spsc_content_Nil)
  with wr spsc_validD [OF v] show ?thesis by (simp add: word_unat_eq_iff)
qed

text \<open>Runs of one thread alone: the sequential operations are behaviours of the system.\<close>

lemma reachable_push:
  assumes "spsc_reachable q0 s" and "ppc s = P_Idle"
  shows "spsc_reachable q0 (s\<lparr>ring_q := snd (spsc_push x (ring_q s)),
           sent := sent s @ (if fst (spsc_push x (ring_q s)) then [x] else [])\<rparr>)"
proof -
  let ?q = "ring_q s" and ?w = "m_writePos (ring_q s)" and ?r = "m_readPos (ring_q s)"
  let ?nw = "(?w + 1) AND m_mask ?q"
  have 1: "spsc_reachable q0 (s\<lparr>ppc := P_Write x ?w ?nw\<rparr>)"
    by (rule spsc_reachable.step [OF assms(1)]) (rule spsc_step.p_start [OF assms(2) refl])
  have 2: "spsc_reachable q0 (s\<lparr>ppc := P_Read x ?w ?nw ?r\<rparr>)"
    using spsc_reachable.step [OF 1 spsc_step.p_load_read [of _ x ?w ?nw]] by simp
  show ?thesis
  proof (cases "?nw = ?r")
    case True
    have "spsc_reachable q0 (s\<lparr>ring_q := ?q\<lparr>m_dropCount := m_dropCount ?q + 1\<rparr>, ppc := P_Idle\<rparr>)"
      using spsc_reachable.step [OF 2 spsc_step.p_full [of _ x ?w ?nw ?r]] True by simp
    with True assms(2) show ?thesis by (cases s) (simp add: spsc_push_def)
  next
    case False
    let ?b = "(m_buffer ?q)[unat ?w := x]"
    have 3: "spsc_reachable q0 (s\<lparr>ring_q := ?q\<lparr>m_buffer := ?b\<rparr>, ppc := P_Stored x ?nw\<rparr>)"
      using spsc_reachable.step [OF 2 spsc_step.p_store [of _ x ?w ?nw ?r]] False by simp
    have 4: "spsc_reachable q0 (s\<lparr>ring_q := ?q\<lparr>m_buffer := ?b, m_writePos := ?nw\<rparr>,
        ppc := P_Count, sent := sent s @ [x]\<rparr>)"
      using spsc_reachable.step [OF 3 spsc_step.p_publish [of _ x ?nw]] by simp
    have "spsc_reachable q0 (s\<lparr>ring_q := ?q\<lparr>m_buffer := ?b, m_writePos := ?nw,
        m_pushCount := m_pushCount ?q + 1\<rparr>, ppc := P_Idle, sent := sent s @ [x]\<rparr>)"
      using spsc_reachable.step [OF 4 spsc_step.p_count] by (cases s) simp
    with False assms(2) show ?thesis by (cases s) (simp add: spsc_push_def Let_def)
  qed
qed

lemma reachable_pop:
  assumes "spsc_reachable q0 s" and "cpc s = C_Idle"
  shows "spsc_reachable q0 (s\<lparr>ring_q := snd (spsc_pop (ring_q s)),
           received := received s @ (case fst (spsc_pop (ring_q s)) of None \<Rightarrow> [] | Some x \<Rightarrow> [x])\<rparr>)"
proof -
  let ?q = "ring_q s" and ?w = "m_writePos (ring_q s)" and ?r = "m_readPos (ring_q s)"
  have 1: "spsc_reachable q0 (s\<lparr>cpc := C_Read ?r\<rparr>)"
    by (rule spsc_reachable.step [OF assms(1)]) (rule spsc_step.c_start [OF assms(2)])
  have 2: "spsc_reachable q0 (s\<lparr>cpc := C_Both ?r ?w\<rparr>)"
    using spsc_reachable.step [OF 1 spsc_step.c_load_write [of _ ?r]] by simp
  show ?thesis
  proof (cases "?r = ?w")
    case True
    have "spsc_reachable q0 (s\<lparr>cpc := C_Idle\<rparr>)"
      using spsc_reachable.step [OF 2 spsc_step.c_empty [of _ ?r ?w]] True by simp
    with True assms(2) show ?thesis by (cases s) (simp add: spsc_pop_def)
  next
    case False
    let ?x = "m_buffer ?q ! unat ?r" and ?nr = "(?r + 1) AND m_mask ?q"
    have 3: "spsc_reachable q0 (s\<lparr>cpc := C_Taken ?x ?nr\<rparr>)"
      using spsc_reachable.step [OF 2 spsc_step.c_take [of _ ?r ?w]] False by simp
    have 4: "spsc_reachable q0 (s\<lparr>ring_q := ?q\<lparr>m_readPos := ?nr\<rparr>, cpc := C_Count,
        received := received s @ [?x]\<rparr>)"
      using spsc_reachable.step [OF 3 spsc_step.c_publish [of _ ?x ?nr]] by simp
    have "spsc_reachable q0 (s\<lparr>ring_q := ?q\<lparr>m_readPos := ?nr, m_popCount := m_popCount ?q + 1\<rparr>,
        cpc := C_Idle, received := received s @ [?x]\<rparr>)"
      using spsc_reachable.step [OF 4 spsc_step.c_count] by (cases s) simp
    with False assms(2) show ?thesis by (cases s) (simp add: spsc_pop_def Let_def)
  qed
qed

lemma spsc_concurrent_fifo_witness:
  "\<exists>q s. spsc_new (0 :: int) 4 = Some q \<and> spsc_reachable q s \<and> sent s = [8] \<and>
     sent s = received s @ spsc_content (ring_q s)"
proof -
  have "case spsc_new (0 :: int) 4 of None \<Rightarrow> False | Some q \<Rightarrow> fst (spsc_push 8 q)" by code_simp
  then obtain q where q: "spsc_new (0 :: int) 4 = Some q" and acc: "fst (spsc_push 8 q)"
    by (cases "spsc_new (0 :: int) 4") auto
  let ?s = "(spsc_init q)\<lparr>ring_q := snd (spsc_push 8 q), sent := [8]\<rparr>"
  have r: "spsc_reachable q ?s"
    using reachable_push [OF spsc_reachable.start [of q], of 8] acc by (simp add: spsc_init_def)
  show ?thesis
    by (rule exI [of _ q], rule exI [of _ ?s])
      (use q r spsc_concurrent_fifo [OF q r] in simp)
qed

text \<open>
  Both threads about to touch the buffer: after one complete push, the producer has loaded its
  indices for a second push and the consumer its indices for a pop.
\<close>

lemma spsc_no_slot_race_witness:
  "\<exists>q s x w nw r r' w'. spsc_new (0 :: int) 4 = Some q \<and> spsc_reachable q s \<and>
     ppc s = P_Read x w nw r \<and> nw \<noteq> r \<and> cpc s = C_Both r' w' \<and> r' \<noteq> w' \<and> unat w \<noteq> unat r'"
proof -
  have "case spsc_new (0 :: int) 4 of None \<Rightarrow> False | Some q \<Rightarrow>
      fst (spsc_push 8 q) \<and> (let q1 = snd (spsc_push 8 q) in
        (m_writePos q1 + 1) AND m_mask q1 \<noteq> m_readPos q1 \<and> m_readPos q1 \<noteq> m_writePos q1)"
    by code_simp
  then obtain q where q: "spsc_new (0 :: int) 4 = Some q" and acc: "fst (spsc_push 8 q)"
    and ne: "let q1 = snd (spsc_push 8 q) in
        (m_writePos q1 + 1) AND m_mask q1 \<noteq> m_readPos q1 \<and> m_readPos q1 \<noteq> m_writePos q1"
    by (cases "spsc_new (0 :: int) 4") auto
  define q1 where "q1 = snd (spsc_push 8 q)"
  let ?w = "m_writePos q1" and ?r = "m_readPos q1"
  let ?nw = "(?w + 1) AND m_mask q1"
  let ?s = "(spsc_init q)\<lparr>ring_q := q1, sent := [8]\<rparr>"
  have 0: "spsc_reachable q ?s"
    using reachable_push [OF spsc_reachable.start [of q], of 8] acc by (simp add: spsc_init_def q1_def)
  have 1: "spsc_reachable q (?s\<lparr>ppc := P_Write 9 ?w ?nw\<rparr>)"
    using spsc_reachable.step [OF 0 spsc_step.p_start [of ?s ?w 9]] by (simp add: spsc_init_def)
  have 2: "spsc_reachable q (?s\<lparr>ppc := P_Read 9 ?w ?nw ?r\<rparr>)"
    using spsc_reachable.step [OF 1 spsc_step.p_load_read [of _ 9 ?w ?nw]] by simp
  have 3: "spsc_reachable q (?s\<lparr>ppc := P_Read 9 ?w ?nw ?r, cpc := C_Read ?r\<rparr>)"
    using spsc_reachable.step [OF 2 spsc_step.c_start] by (simp add: spsc_init_def)
  let ?t = "?s\<lparr>ppc := P_Read 9 ?w ?nw ?r, cpc := C_Both ?r ?w\<rparr>"
  have 4: "spsc_reachable q ?t"
    using spsc_reachable.step [OF 3 spsc_step.c_load_write [of _ ?r]] by simp
  have d: "?nw \<noteq> ?r" "?r \<noteq> ?w" using ne by (simp_all add: q1_def Let_def)
  have "unat ?w \<noteq> unat ?r"
    using spsc_no_slot_race [OF q 4, of 9 ?w ?nw ?r ?r ?w] d by simp
  with q 4 d show ?thesis
    by (intro exI [of _ q] exI [of _ ?t] exI [of _ 9] exI [of _ ?w] exI [of _ ?nw] exI [of _ ?r])
      simp
qed

text \<open>
  the sequential \<open>push\<close> and \<open>pop\<close> are what the atomic accesses of one thread compute when the
  other thread does not interfere: from any reachable state the system reaches the state in which
  the whole operation has been applied.
\<close>

theorem spsc_atomic_simulated:
  assumes "spsc_reachable q s"
  shows "(ppc s = P_Idle \<longrightarrow> spsc_reachable q (s\<lparr>ring_q := snd (spsc_push x (ring_q s)),
            sent := sent s @ (if fst (spsc_push x (ring_q s)) then [x] else [])\<rparr>)) \<and>
         (cpc s = C_Idle \<longrightarrow> spsc_reachable q (s\<lparr>ring_q := snd (spsc_pop (ring_q s)),
            received := received s @ (case fst (spsc_pop (ring_q s)) of None \<Rightarrow> [] | Some y \<Rightarrow> [y])\<rparr>))"
  using reachable_push [OF assms] reachable_pop [OF assms] by blast

lemma spsc_atomic_simulated_witness:
  "\<exists>q. spsc_new (0 :: int) 4 = Some q \<and>
     spsc_reachable q ((spsc_init q)\<lparr>ring_q := snd (spsc_push 8 q),
        sent := (if fst (spsc_push 8 q) then [8] else [])\<rparr>)"
proof -
  have "spsc_new (0 :: int) 4 \<noteq> None" by code_simp
  then obtain q where q: "spsc_new (0 :: int) 4 = Some q" by auto
  from spsc_atomic_simulated [OF spsc_reachable.start [of q], of 8] q show ?thesis
    by (auto simp: spsc_init_def)
qed

end
