(* ===== verification/Fw_SpscRelAcq.thy ===== *)
theory Fw_SpscRelAcq
  imports Fw_SpscConcurrent
begin

section \<open>The ring buffer under release and acquire\<close>

text \<open>
  \<open>SPSCQueue.inl\<close> with the memory orders it names. A store to an index is a message in the index's history, with what its writer knew
  of the accesses to the slots; a relaxed load of the own index reads the newest message; an acquire load of the other index
  reads any message not older than the last one read, and learns what its writer knew. The slots are plain memory: an access
  races when its thread does not know the other thread's last access to the slot, and a race is undefined behaviour. Moving
  an element out of a slot counts as an access like storing one. The counters are read-modify-writes, which are
  atomic under every order.
\<close>

text \<open>How many of the producer's stores to slots are known, and how many of the consumer's accesses.\<close>

type_synonym view = "nat \<times> nat"

definition join :: "view \<Rightarrow> view \<Rightarrow> view" where
  "join v u = (max (fst v) (fst u), max (snd v) (snd u))"

record message =
  ms_pos :: u64
  ms_view :: view

record 'a ra_sys =
  ra_mask :: u64
  ra_slots :: "'a list"
  ra_stored :: "nat list"       \<comment> \<open>for each slot, which of the producer's stores was the last\<close>
  ra_loaded :: "nat list"       \<comment> \<open>for each slot, which of the consumer's accesses was the last\<close>
  ra_writePos :: "message list"
  ra_readPos :: "message list"
  ra_pseen :: nat               \<comment> \<open>the message of \<open>m_readPos\<close> the producer read last\<close>
  ra_cseen :: nat
  ra_pview :: view
  ra_cview :: view
  ra_ppc :: "'a producer_pc"
  ra_cpc :: "'a consumer_pc"
  ra_race :: bool
  ra_pushCount :: u64
  ra_popCount :: u64
  ra_dropCount :: u64
  ra_sent :: "'a list"
  ra_received :: "'a list"

definition ra_init :: "'a spsc \<Rightarrow> 'a ra_sys" where
  "ra_init q = \<lparr>ra_mask = m_mask q, ra_slots = m_buffer q,
     ra_stored = replicate (length (m_buffer q)) 0, ra_loaded = replicate (length (m_buffer q)) 0,
     ra_writePos = [\<lparr>ms_pos = m_writePos q, ms_view = (0, 0)\<rparr>], ra_readPos = [\<lparr>ms_pos = m_readPos q, ms_view = (0, 0)\<rparr>],
     ra_pseen = 0, ra_cseen = 0, ra_pview = (0, 0), ra_cview = (0, 0), ra_ppc = P_Idle, ra_cpc = C_Idle, ra_race = False,
     ra_pushCount = m_pushCount q, ra_popCount = m_popCount q, ra_dropCount = m_dropCount q, ra_sent = [], ra_received = []\<rparr>"

text \<open>The two acquire loads choose a message of the history; every other step of a thread is determined.\<close>

datatype 'a ra_act = RaPush 'a | RaLoadRead nat | RaProducer | RaPop | RaLoadWrite nat | RaConsumer

definition ra_start_push :: "'a \<Rightarrow> 'a ra_sys \<Rightarrow> 'a ra_sys option" where
  "ra_start_push x s =
     (case ra_ppc s of
        P_Idle \<Rightarrow> let w = ms_pos (last (ra_writePos s)) in Some (s\<lparr>ra_ppc := P_Write x w ((w + 1) AND ra_mask s)\<rparr>)
      | _ \<Rightarrow> None)"

definition ra_load_read :: "nat \<Rightarrow> 'a ra_sys \<Rightarrow> 'a ra_sys option" where
  "ra_load_read k s =
     (case ra_ppc s of
        P_Write x w nw \<Rightarrow>
          if ra_pseen s \<le> k \<and> k < length (ra_readPos s)
          then let m = ra_readPos s ! k
               in Some (s\<lparr>ra_pseen := k, ra_pview := join (ra_pview s) (ms_view m), ra_ppc := P_Read x w nw (ms_pos m)\<rparr>)
          else None
      | _ \<Rightarrow> None)"

definition ra_store_slot :: "'a \<Rightarrow> u64 \<Rightarrow> u64 \<Rightarrow> 'a ra_sys \<Rightarrow> 'a ra_sys" where
  "ra_store_slot x w nw s =
     (let i = unat w; n = Suc (fst (ra_pview s))
      in s\<lparr>ra_race := (ra_race s \<or> snd (ra_pview s) < ra_loaded s ! i), ra_slots := (ra_slots s)[i := x],
           ra_stored := (ra_stored s)[i := n], ra_pview := (n, snd (ra_pview s)), ra_ppc := P_Stored x nw\<rparr>)"

definition ra_producer :: "'a ra_sys \<Rightarrow> 'a ra_sys option" where
  "ra_producer s =
     (case ra_ppc s of
        P_Read x w nw r \<Rightarrow>
          if nw = r then Some (s\<lparr>ra_dropCount := ra_dropCount s + 1, ra_ppc := P_Idle\<rparr>) else Some (ra_store_slot x w nw s)
      | P_Stored x nw \<Rightarrow>
          Some (s\<lparr>ra_writePos := ra_writePos s @ [\<lparr>ms_pos = nw, ms_view = ra_pview s\<rparr>], ra_sent := ra_sent s @ [x], ra_ppc := P_Count\<rparr>)
      | P_Count \<Rightarrow> Some (s\<lparr>ra_pushCount := ra_pushCount s + 1, ra_ppc := P_Idle\<rparr>)
      | _ \<Rightarrow> None)"

definition ra_start_pop :: "'a ra_sys \<Rightarrow> 'a ra_sys option" where
  "ra_start_pop s =
     (case ra_cpc s of C_Idle \<Rightarrow> Some (s\<lparr>ra_cpc := C_Read (ms_pos (last (ra_readPos s)))\<rparr>) | _ \<Rightarrow> None)"

definition ra_load_write :: "nat \<Rightarrow> 'a ra_sys \<Rightarrow> 'a ra_sys option" where
  "ra_load_write k s =
     (case ra_cpc s of
        C_Read r \<Rightarrow>
          if ra_cseen s \<le> k \<and> k < length (ra_writePos s)
          then let m = ra_writePos s ! k
               in Some (s\<lparr>ra_cseen := k, ra_cview := join (ra_cview s) (ms_view m), ra_cpc := C_Both r (ms_pos m)\<rparr>)
          else None
      | _ \<Rightarrow> None)"

definition ra_take_slot :: "u64 \<Rightarrow> 'a ra_sys \<Rightarrow> 'a ra_sys" where
  "ra_take_slot r s =
     (let i = unat r; n = Suc (snd (ra_cview s))
      in s\<lparr>ra_race := (ra_race s \<or> fst (ra_cview s) < ra_stored s ! i), ra_loaded := (ra_loaded s)[i := n],
           ra_cview := (fst (ra_cview s), n), ra_cpc := C_Taken (ra_slots s ! i) ((r + 1) AND ra_mask s)\<rparr>)"

definition ra_consumer :: "'a ra_sys \<Rightarrow> 'a ra_sys option" where
  "ra_consumer s =
     (case ra_cpc s of
        C_Both r w \<Rightarrow> if r = w then Some (s\<lparr>ra_cpc := C_Idle\<rparr>) else Some (ra_take_slot r s)
      | C_Taken x nr \<Rightarrow>
          Some (s\<lparr>ra_readPos := ra_readPos s @ [\<lparr>ms_pos = nr, ms_view = ra_cview s\<rparr>], ra_received := ra_received s @ [x], ra_cpc := C_Count\<rparr>)
      | C_Count \<Rightarrow> Some (s\<lparr>ra_popCount := ra_popCount s + 1, ra_cpc := C_Idle\<rparr>)
      | _ \<Rightarrow> None)"

fun ra_step :: "'a ra_act \<Rightarrow> 'a ra_sys \<Rightarrow> 'a ra_sys option" where
  "ra_step (RaPush x) s = ra_start_push x s"
| "ra_step (RaLoadRead k) s = ra_load_read k s"
| "ra_step RaProducer s = ra_producer s"
| "ra_step RaPop s = ra_start_pop s"
| "ra_step (RaLoadWrite k) s = ra_load_write k s"
| "ra_step RaConsumer s = ra_consumer s"

fun ra_run :: "'a ra_act list \<Rightarrow> 'a ra_sys \<Rightarrow> 'a ra_sys option" where
  "ra_run [] s = Some s"
| "ra_run (a # as) s = (case ra_step a s of Some t \<Rightarrow> ra_run as t | None \<Rightarrow> None)"

lemmas ra_step_defs = ra_start_push_def ra_load_read_def ra_producer_def ra_start_pop_def ra_load_write_def ra_consumer_def

subsection \<open>Invariant\<close>

text \<open>
  \<open>q\<close> is the new queue, \<open>n\<close> its number of slots. The indices count modulo \<open>n\<close>: message \<open>k\<close> of an index stands for the first \<open>k\<close> pushes or
  pops. What a thread has seen of the other may be old, but only on the safe side.
\<close>

definition counts_from :: "nat \<Rightarrow> nat \<Rightarrow> (view \<Rightarrow> nat) \<Rightarrow> message list \<Rightarrow> bool" where
  "counts_from n len own ms \<longleftrightarrow> length ms = Suc len \<and> (\<forall>k\<le>len. unat (ms_pos (ms ! k)) = k mod n \<and> own (ms_view (ms ! k)) = k)"

definition stamps_ok :: "nat \<Rightarrow> nat \<Rightarrow> nat list \<Rightarrow> bool" where
  "stamps_ok n cnt st \<longleftrightarrow> length st = n \<and> (\<forall>i<n. st ! i \<le> cnt \<and> (0 < st ! i \<longrightarrow> (st ! i - 1) mod n = i))"

fun unpublished :: "'a producer_pc \<Rightarrow> 'a list" where
  "unpublished (P_Stored x nw) = [x]"
| "unpublished _ = []"

fun unreturned :: "'a consumer_pc \<Rightarrow> 'a list" where
  "unreturned (C_Taken x nr) = [x]"
| "unreturned _ = []"

definition stores :: "'a ra_sys \<Rightarrow> 'a list" where
  "stores s = ra_sent s @ unpublished (ra_ppc s)"

definition taken :: "'a ra_sys \<Rightarrow> 'a list" where
  "taken s = ra_received s @ unreturned (ra_cpc s)"

definition ra_shape :: "'a spsc \<Rightarrow> 'a ra_sys \<Rightarrow> bool" where
  "ra_shape q s \<longleftrightarrow> ra_mask s = m_mask q \<and> length (ra_slots s) = length (m_buffer q) \<and>
     stamps_ok (length (m_buffer q)) (fst (ra_pview s)) (ra_stored s) \<and> stamps_ok (length (m_buffer q)) (snd (ra_cview s)) (ra_loaded s) \<and>
     counts_from (length (m_buffer q)) (length (ra_sent s)) fst (ra_writePos s) \<and>
     counts_from (length (m_buffer q)) (length (ra_received s)) snd (ra_readPos s)"

definition ra_known :: "'a spsc \<Rightarrow> 'a ra_sys \<Rightarrow> bool" where
  "ra_known q s \<longleftrightarrow> fst (ra_pview s) = length (stores s) \<and> snd (ra_cview s) = length (taken s) \<and>
     ra_pseen s \<le> snd (ra_pview s) \<and> ra_pseen s \<le> length (ra_received s) \<and> snd (ra_pview s) \<le> length (taken s) \<and>
     ra_cseen s \<le> fst (ra_cview s) \<and> ra_cseen s \<le> length (ra_sent s) \<and> fst (ra_cview s) \<le> length (stores s) \<and>
     (\<forall>m\<in>set (ra_writePos s). snd (ms_view m) \<le> length (taken s)) \<and> (\<forall>m\<in>set (ra_readPos s). fst (ms_view m) \<le> length (stores s)) \<and>
     length (stores s) < ra_pseen s + length (m_buffer q) \<and> length (taken s) \<le> ra_cseen s"

definition ra_content :: "'a spsc \<Rightarrow> 'a ra_sys \<Rightarrow> bool" where
  "ra_content q s \<longleftrightarrow> \<not> ra_race s \<and> taken s = take (length (taken s)) (ra_sent s) \<and>
     (\<forall>k. length (ra_received s) \<le> k \<longrightarrow> k < length (stores s) \<longrightarrow> ra_slots s ! (k mod length (m_buffer q)) = stores s ! k)"

fun ra_plocal :: "nat \<Rightarrow> nat \<Rightarrow> nat \<Rightarrow> 'a producer_pc \<Rightarrow> bool" where
  "ra_plocal n len seen (P_Write x w nw) = (unat w = len mod n \<and> unat nw = Suc len mod n)"
| "ra_plocal n len seen (P_Read x w nw r) = (unat w = len mod n \<and> unat nw = Suc len mod n \<and> (nw = r \<or> Suc len < seen + n))"
| "ra_plocal n len seen (P_Stored x nw) = (unat nw = Suc len mod n)"
| "ra_plocal n len seen _ = True"

fun ra_clocal :: "nat \<Rightarrow> nat \<Rightarrow> nat \<Rightarrow> 'a consumer_pc \<Rightarrow> bool" where
  "ra_clocal n len seen (C_Read r) = (unat r = len mod n)"
| "ra_clocal n len seen (C_Both r w) = (unat r = len mod n \<and> (r = w \<or> len < seen))"
| "ra_clocal n len seen (C_Taken x nr) = (unat nr = Suc len mod n)"
| "ra_clocal n len seen _ = True"

definition ra_locals :: "'a spsc \<Rightarrow> 'a ra_sys \<Rightarrow> bool" where
  "ra_locals q s \<longleftrightarrow> ra_plocal (length (m_buffer q)) (length (ra_sent s)) (ra_pseen s) (ra_ppc s) \<and>
     ra_clocal (length (m_buffer q)) (length (ra_received s)) (ra_cseen s) (ra_cpc s)"

definition ra_counted :: "'a ra_sys \<Rightarrow> bool" where
  "ra_counted s \<longleftrightarrow> ra_pushCount s + (if ra_ppc s = P_Count then 1 else 0) = of_nat (length (ra_sent s)) \<and>
     ra_popCount s + (if ra_cpc s = C_Count then 1 else 0) = of_nat (length (ra_received s))"

definition ra_inv :: "'a spsc \<Rightarrow> 'a ra_sys \<Rightarrow> bool" where
  "ra_inv q s \<longleftrightarrow> ra_shape q s \<and> ra_known q s \<and> ra_content q s \<and> ra_locals q s \<and> ra_counted s"

lemmas ra_inv_defs = ra_inv_def ra_shape_def ra_known_def ra_content_def ra_locals_def ra_counted_def stores_def taken_def Let_def

lemma mod_eq_apart: "a mod n = b mod n \<Longrightarrow> a < b \<Longrightarrow> a + n \<le> (b::nat)"
proof -
  assume "a mod n = b mod n" "a < b"
  then have "n dvd b - a" using mod_eq_dvd_iff_nat [of a b n] by simp
  with \<open>a < b\<close> have "n \<le> b - a" by (intro dvd_imp_le) auto
  with \<open>a < b\<close> show ?thesis by simp
qed

lemma next_index:
  assumes "spsc_valid q" and "unat w = k mod length (m_buffer q)"
  shows "unat ((w + 1) AND m_mask q) = Suc k mod length (m_buffer q)"
proof -
  have "0 < length (m_buffer q)" using spsc_validD [OF assms(1)] by simp
  then have "w < m_capacity q" using assms(2) spsc_validD(1) [OF assms(1)] by (simp add: word_less_nat_alt)
  from spsc_next [OF assms(1) this] assms(2) show ?thesis by (simp add: mod_Suc_eq)
qed

lemma counts_from_last: "counts_from n len own ms \<Longrightarrow> unat (ms_pos (last ms)) = len mod n \<and> own (ms_view (last ms)) = len \<and> ms \<noteq> []"
  by (cases ms rule: rev_cases) (auto simp: counts_from_def nth_append)

lemma counts_from_add:
  "counts_from n len own ms \<Longrightarrow> unat (ms_pos m) = Suc len mod n \<Longrightarrow> own (ms_view m) = Suc len \<Longrightarrow> counts_from n (Suc len) own (ms @ [m])"
  by (auto simp: counts_from_def nth_append le_Suc_eq)

lemma counts_from_nth: "counts_from n len own ms \<Longrightarrow> k < length ms \<Longrightarrow> k \<le> len \<and> unat (ms_pos (ms ! k)) = k mod n \<and> own (ms_view (ms ! k)) = k"
  by (simp add: counts_from_def)

lemma stamps_ok_add: "stamps_ok n cnt st \<Longrightarrow> i = cnt mod n \<Longrightarrow> 0 < n \<Longrightarrow> stamps_ok n (Suc cnt) (st[i := Suc cnt])"
  by (auto simp: stamps_ok_def nth_list_update le_SucI)

text \<open>The last access to a slot is known to the thread that comes to the slot next.\<close>

lemma stamp_known:
  assumes "stamps_ok n cnt st" and "cnt \<le> k + n" and "0 < n"
  shows "st ! (k mod n) \<le> Suc k"
proof (rule ccontr)
  assume c: "\<not> ?thesis"
  let ?m = "st ! (k mod n)"
  have "?m \<le> cnt" "0 < ?m \<longrightarrow> (?m - 1) mod n = k mod n" using assms(1,3) by (auto simp: stamps_ok_def)
  moreover have "k < ?m - 1" using c by arith
  ultimately have "k + n \<le> ?m - 1" using mod_eq_apart [of k n "?m - 1"] c by simp
  with \<open>?m \<le> cnt\<close> assms(2) c show False by simp
qed

lemma stamp_known_old:
  assumes "stamps_ok n cnt st" and "cnt \<le> k" and "0 < n"
  shows "st ! (k mod n) = 0 \<or> st ! (k mod n) + n \<le> Suc k"
proof (cases "st ! (k mod n) = 0")
  case False
  let ?m = "st ! (k mod n)"
  have "?m \<le> cnt" "(?m - 1) mod n = k mod n" using assms(1,3) False by (auto simp: stamps_ok_def)
  then have "?m - 1 + n \<le> k" using mod_eq_apart [of "?m - 1" n k] False assms(2) by simp
  then show ?thesis using False by arith
qed simp

lemma ra_invD:
  assumes "ra_inv q s"
  shows "stamps_ok (length (m_buffer q)) (length (stores s)) (ra_stored s)" "stamps_ok (length (m_buffer q)) (length (taken s)) (ra_loaded s)"
    "length (taken s) \<le> length (ra_sent s)" "ra_mask s = m_mask q"
    "counts_from (length (m_buffer q)) (length (ra_sent s)) fst (ra_writePos s)"
    "counts_from (length (m_buffer q)) (length (ra_received s)) snd (ra_readPos s)"
proof -
  have sh: "ra_shape q s" and kn: "ra_known q s" using assms by (simp_all add: ra_inv_def)
  then have "fst (ra_pview s) = length (stores s)" "snd (ra_cview s) = length (taken s)" by (simp_all add: ra_known_def)
  with sh show "stamps_ok (length (m_buffer q)) (length (stores s)) (ra_stored s)" "stamps_ok (length (m_buffer q)) (length (taken s)) (ra_loaded s)"
    by (simp_all add: ra_shape_def)
  show "length (taken s) \<le> length (ra_sent s)" using kn by (simp add: ra_known_def)
qed (use assms in \<open>simp_all add: ra_inv_def ra_shape_def\<close>)

subsection \<open>Every step keeps the invariant\<close>

lemma ra_inv_start_push:
  assumes "spsc_valid q" "ra_inv q s" "ra_start_push x s = Some t"
  shows "ra_inv q t"
proof -
  let ?w = "ms_pos (last (ra_writePos s))"
  have pc: "ra_ppc s = P_Idle" and t: "t = s\<lparr>ra_ppc := P_Write x ?w ((?w + 1) AND ra_mask s)\<rparr>"
    using assms(3) by (auto simp: ra_start_push_def Let_def split: producer_pc.splits)
  have "unat ?w = length (ra_sent s) mod length (m_buffer q)" "ra_mask s = m_mask q"
    using assms(2) counts_from_last by (auto simp: ra_inv_defs)
  moreover from next_index [OF assms(1) this(1)]
  have "unat ((?w + 1) AND m_mask q) = Suc (length (ra_sent s)) mod length (m_buffer q)" .
  ultimately show ?thesis using assms(2) pc by (auto simp: t ra_inv_defs)
qed

lemma ra_inv_load_read:
  assumes "spsc_valid q" "ra_inv q s" "ra_load_read k s = Some t"
  shows "ra_inv q t"
proof -
  obtain x w nw where pc: "ra_ppc s = P_Write x w nw" and k: "ra_pseen s \<le> k" "k < length (ra_readPos s)"
    and t: "t = s\<lparr>ra_pseen := k, ra_pview := join (ra_pview s) (ms_view (ra_readPos s ! k)), ra_ppc := P_Read x w nw (ms_pos (ra_readPos s ! k))\<rparr>"
    using assms(3) by (auto simp: ra_load_read_def Let_def split: producer_pc.splits if_splits)
  let ?n = "length (m_buffer q)" and ?m = "ra_readPos s ! k"
  from assms(2) k(2) have m: "k \<le> length (ra_received s)" "unat (ms_pos ?m) = k mod ?n" "snd (ms_view ?m) = k"
    using counts_from_nth by (auto simp: ra_inv_defs)
  have f: "fst (ms_view ?m) \<le> fst (ra_pview s)" using assms(2) k(2) pc by (auto simp: ra_inv_defs)
  have "nw = ms_pos ?m \<or> Suc (length (ra_sent s)) < k + ?n"
  proof (cases "nw = ms_pos ?m")
    case False
    then have "Suc (length (ra_sent s)) mod ?n \<noteq> k mod ?n"
      using assms(2) pc m(2) by (auto simp: ra_inv_defs word_unat_eq_iff)
    then have "Suc (length (ra_sent s)) \<noteq> k + ?n" by auto
    moreover have "length (ra_sent s) < k + ?n" using assms(2) pc k(1) by (simp add: ra_inv_defs)
    ultimately show ?thesis by simp
  qed simp
  then show ?thesis using assms(2) pc m f k(1) by (auto simp: t ra_inv_defs join_def max_def)
qed

lemma ra_inv_start_pop:
  assumes "ra_inv q s" "ra_start_pop s = Some t"
  shows "ra_inv q t"
proof -
  have pc: "ra_cpc s = C_Idle" and t: "t = s\<lparr>ra_cpc := C_Read (ms_pos (last (ra_readPos s)))\<rparr>"
    using assms(2) by (auto simp: ra_start_pop_def split: consumer_pc.splits)
  have "unat (ms_pos (last (ra_readPos s))) = length (ra_received s) mod length (m_buffer q)"
    using assms(1) counts_from_last by (auto simp: ra_inv_defs)
  then show ?thesis using assms(1) pc by (auto simp: t ra_inv_defs)
qed

lemma ra_inv_load_write:
  assumes "ra_inv q s" "ra_load_write k s = Some t"
  shows "ra_inv q t"
proof -
  obtain r where pc: "ra_cpc s = C_Read r" and k: "ra_cseen s \<le> k" "k < length (ra_writePos s)"
    and t: "t = s\<lparr>ra_cseen := k, ra_cview := join (ra_cview s) (ms_view (ra_writePos s ! k)), ra_cpc := C_Both r (ms_pos (ra_writePos s ! k))\<rparr>"
    using assms(2) by (auto simp: ra_load_write_def Let_def split: consumer_pc.splits if_splits)
  let ?n = "length (m_buffer q)" and ?m = "ra_writePos s ! k"
  from assms(1) k(2) have m: "k \<le> length (ra_sent s)" "unat (ms_pos ?m) = k mod ?n" "fst (ms_view ?m) = k"
    using counts_from_nth by (auto simp: ra_inv_defs)
  have f: "snd (ms_view ?m) \<le> snd (ra_cview s)" using assms(1) k(2) pc by (auto simp: ra_inv_defs)
  have "r = ms_pos ?m \<or> length (ra_received s) < k"
  proof (cases "length (ra_received s) = k")
    case True
    then show ?thesis using assms(1) pc m(2) by (simp add: ra_inv_defs word_unat_eq_iff)
  next
    case False
    then show ?thesis using assms(1) pc k(1) by (simp add: ra_inv_defs)
  qed
  then show ?thesis using assms(1) pc m f k(1) by (auto simp: t ra_inv_defs join_def max_def)
qed

lemma ra_inv_store_slot:
  assumes "spsc_valid q" "ra_inv q s" "ra_ppc s = P_Read x w nw r" "nw \<noteq> r"
  shows "ra_inv q (ra_store_slot x w nw s)"
proof -
  let ?n = "length (m_buffer q)" and ?sent = "length (ra_sent s)"
  have n: "0 < ?n" using spsc_validD [OF assms(1)] by simp
  have w: "unat w = ?sent mod ?n" and room: "Suc ?sent < ra_pseen s + ?n" and stores: "fst (ra_pview s) = ?sent"
    using assms(2-4) by (simp_all add: ra_inv_defs)
  have seen: "ra_pseen s \<le> snd (ra_pview s)" "ra_pseen s \<le> length (ra_received s)" using assms(2) by (simp_all add: ra_inv_defs)
  from stamp_known_old [OF ra_invD(2,3) [OF assms(2)] n]
  have "ra_loaded s ! unat w \<le> snd (ra_pview s)" using room seen unfolding w by linarith
  moreover have "stamps_ok ?n (Suc ?sent) ((ra_stored s)[unat w := Suc ?sent])"
    unfolding w by (rule stamps_ok_add [OF _ refl n]) (use ra_invD(1) [OF assms(2)] assms(3) in \<open>simp add: stores_def\<close>)
  moreover have "(ra_slots s)[unat w := x] ! (k mod ?n) = (ra_sent s @ [x]) ! k"
    if "length (ra_received s) \<le> k" "k < Suc ?sent" for k
  proof (cases "k = ?sent")
    case True
    then show ?thesis using assms(2) n by (simp add: w ra_inv_defs)
  next
    case False
    then have "k mod ?n \<noteq> ?sent mod ?n" using mod_eq_apart [of k ?n ?sent] that room seen by auto
    then show ?thesis using assms(2,3) that False by (simp add: w ra_inv_defs nth_append)
  qed
  ultimately show ?thesis
    using assms(2,3) room stores by (auto simp: ra_store_slot_def ra_inv_defs le_SucI)
qed

lemma ra_inv_producer:
  assumes "spsc_valid q" "ra_inv q s" "ra_producer s = Some t"
  shows "ra_inv q t"
proof (cases "ra_ppc s")
  case (P_Read x w nw r)
  show ?thesis
  proof (cases "nw = r")
    case True
    then have "t = s\<lparr>ra_dropCount := ra_dropCount s + 1, ra_ppc := P_Idle\<rparr>" using assms(3) P_Read by (simp add: ra_producer_def)
    then show ?thesis using assms(2) P_Read by (auto simp: ra_inv_defs)
  next
    case False
    then show ?thesis using assms(3) P_Read ra_inv_store_slot [OF assms(1,2) P_Read] by (simp add: ra_producer_def)
  qed
next
  case (P_Stored x nw)
  then have t: "t = s\<lparr>ra_writePos := ra_writePos s @ [\<lparr>ms_pos = nw, ms_view = ra_pview s\<rparr>], ra_sent := ra_sent s @ [x], ra_ppc := P_Count\<rparr>"
    using assms(3) by (simp add: ra_producer_def)
  have "counts_from (length (m_buffer q)) (Suc (length (ra_sent s))) fst (ra_writePos s @ [\<lparr>ms_pos = nw, ms_view = ra_pview s\<rparr>])"
    by (rule counts_from_add) (use assms(2) P_Stored in \<open>simp_all add: ra_inv_defs\<close>)
  then have "ra_shape q t" using assms(2) P_Stored by (simp add: t ra_inv_def ra_shape_def)
  moreover have "ra_known q t" using assms(2) P_Stored by (simp add: t ra_inv_def ra_known_def stores_def taken_def)
  moreover have "ra_content q t"
  proof -
    have same: "taken t = taken s" "stores t = stores s" using P_Stored by (simp_all add: t taken_def stores_def)
    show ?thesis using assms(2) ra_invD(3) [OF assms(2)] unfolding ra_inv_def ra_content_def same by (simp add: t)
  qed
  moreover have "ra_locals q t" "ra_counted t" using assms(2) P_Stored by (simp_all add: t ra_inv_def ra_locals_def ra_counted_def)
  ultimately show ?thesis by (simp add: ra_inv_def)
next
  case P_Count
  then have "t = s\<lparr>ra_pushCount := ra_pushCount s + 1, ra_ppc := P_Idle\<rparr>" using assms(3) by (simp add: ra_producer_def)
  then show ?thesis using assms(2) P_Count by (auto simp: ra_inv_defs)
qed (use assms(3) in \<open>simp_all add: ra_producer_def\<close>)

lemma ra_inv_take_slot:
  assumes "spsc_valid q" "ra_inv q s" "ra_cpc s = C_Both r w" "r \<noteq> w"
  shows "ra_inv q (ra_take_slot r s)"
proof -
  let ?n = "length (m_buffer q)" and ?got = "length (ra_received s)"
  have n: "0 < ?n" using spsc_validD [OF assms(1)] by simp
  have r: "unat r = ?got mod ?n" and more: "?got < ra_cseen s" and loads: "snd (ra_cview s) = ?got" and mask: "ra_mask s = m_mask q"
    using assms(2-4) by (simp_all add: ra_inv_defs)
  have seen: "ra_cseen s \<le> fst (ra_cview s)" "ra_cseen s \<le> length (ra_sent s)" "ra_cseen s \<le> length (stores s)"
      "length (stores s) < ?got + ?n"
    using assms(2) by (simp_all add: ra_inv_defs)
  from stamp_known [OF ra_invD(1) [OF assms(2)] _ n, of ?got] seen more
  have "ra_stored s ! unat r \<le> fst (ra_cview s)" unfolding r by simp
  moreover have "stamps_ok ?n (Suc ?got) ((ra_loaded s)[unat r := Suc ?got])"
    unfolding r by (rule stamps_ok_add [OF _ refl n]) (use ra_invD(2) [OF assms(2)] assms(3) in \<open>simp add: taken_def\<close>)
  moreover have x: "ra_slots s ! unat r = ra_sent s ! ?got"
  proof -
    have "ra_slots s ! (?got mod ?n) = stores s ! ?got" using assms(2) more seen by (simp add: ra_inv_def ra_content_def)
    then show ?thesis using more seen by (simp add: r stores_def nth_append)
  qed
  moreover have "ra_received s @ [ra_sent s ! ?got] = take (Suc ?got) (ra_sent s)"
  proof -
    have "ra_received s = take ?got (ra_sent s)" using assms(2,3) by (simp add: ra_inv_defs)
    then show ?thesis using more seen by (metis less_le_trans take_Suc_conv_app_nth)
  qed
  moreover have "unat ((r + 1) AND m_mask q) = Suc ?got mod ?n" by (rule next_index [OF assms(1) r])
  ultimately show ?thesis
    using assms(2,3) more loads by (auto simp: ra_take_slot_def ra_inv_defs le_SucI mask)
qed

lemma ra_inv_consumer:
  assumes "spsc_valid q" "ra_inv q s" "ra_consumer s = Some t"
  shows "ra_inv q t"
proof (cases "ra_cpc s")
  case (C_Both r w)
  show ?thesis
  proof (cases "r = w")
    case True
    then have "t = s\<lparr>ra_cpc := C_Idle\<rparr>" using assms(3) C_Both by (simp add: ra_consumer_def)
    then show ?thesis using assms(2) C_Both by (auto simp: ra_inv_defs)
  next
    case False
    then show ?thesis using assms(3) C_Both ra_inv_take_slot [OF assms(1,2) C_Both] by (simp add: ra_consumer_def)
  qed
next
  case (C_Taken x nr)
  then have t: "t = s\<lparr>ra_readPos := ra_readPos s @ [\<lparr>ms_pos = nr, ms_view = ra_cview s\<rparr>], ra_received := ra_received s @ [x], ra_cpc := C_Count\<rparr>"
    using assms(3) by (simp add: ra_consumer_def)
  have "counts_from (length (m_buffer q)) (Suc (length (ra_received s))) snd (ra_readPos s @ [\<lparr>ms_pos = nr, ms_view = ra_cview s\<rparr>])"
    by (rule counts_from_add) (use assms(2) C_Taken in \<open>simp_all add: ra_inv_defs\<close>)
  then have "ra_shape q t" using assms(2) C_Taken by (simp add: t ra_inv_def ra_shape_def)
  moreover have "ra_known q t" using assms(2) C_Taken by (simp add: t ra_inv_def ra_known_def stores_def taken_def)
  moreover have "ra_content q t"
  proof -
    have same: "taken t = taken s" "stores t = stores s" using C_Taken by (simp_all add: t taken_def stores_def)
    show ?thesis using assms(2) unfolding ra_inv_def ra_content_def same by (simp add: t)
  qed
  moreover have "ra_locals q t" "ra_counted t" using assms(2) C_Taken by (simp_all add: t ra_inv_def ra_locals_def ra_counted_def)
  ultimately show ?thesis by (simp add: ra_inv_def)
next
  case C_Count
  then have "t = s\<lparr>ra_popCount := ra_popCount s + 1, ra_cpc := C_Idle\<rparr>" using assms(3) by (simp add: ra_consumer_def)
  then show ?thesis using assms(2) C_Count by (auto simp: ra_inv_defs)
qed (use assms(3) in \<open>simp_all add: ra_consumer_def\<close>)

lemma ra_inv_step: "spsc_valid q \<Longrightarrow> ra_inv q s \<Longrightarrow> ra_step a s = Some t \<Longrightarrow> ra_inv q t"
  by (cases a) (auto intro: ra_inv_start_push ra_inv_load_read ra_inv_producer ra_inv_start_pop ra_inv_load_write ra_inv_consumer)

lemma ra_inv_run: "spsc_valid q \<Longrightarrow> ra_inv q s \<Longrightarrow> ra_run as s = Some t \<Longrightarrow> ra_inv q t"
  by (induction "as" arbitrary: s) (auto split: option.splits intro: ra_inv_step)

lemma ra_inv_init:
  assumes "spsc_new d n = Some q"
  shows "ra_inv q (ra_init q)"
proof -
  have "m_writePos q = 0" "m_readPos q = 0" "m_pushCount q = 0" "m_popCount q = 0"
    using assms by (auto simp: spsc_new_def split: option.splits)
  moreover have "0 < length (m_buffer q)" using spsc_validD [OF spsc_new_facts(1) [OF assms]] by simp
  ultimately show ?thesis
    by (simp add: ra_inv_defs ra_init_def stamps_ok_def counts_from_def)
qed

subsection \<open>Properties\<close>

text \<open>
  C1: the orders that the code names suffice. However old the indices are that the two threads read, no access to a slot ever races, what the
  consumer has received are the first elements that the producer has published, in order, and at most the capacity less one of
  the published ones are still to be received.
\<close>

theorem spsc_release_acquire:
  assumes "spsc_new d n = Some q" and "ra_run as (ra_init q) = Some s"
  shows "\<not> ra_race s \<and> ra_received s = take (length (ra_received s)) (ra_sent s) \<and>
    length (ra_received s) \<le> length (ra_sent s) \<and> length (ra_sent s) - length (ra_received s) \<le> spsc_room q"
proof -
  have v: "spsc_valid q" by (rule spsc_new_facts(1) [OF assms(1)])
  have inv: "ra_inv q s" by (rule ra_inv_run [OF v ra_inv_init [OF assms(1)] assms(2)])
  then have got: "length (ra_received s) \<le> length (ra_sent s)" using ra_invD(3) [OF inv] by (simp add: taken_def)
  have "take (length (ra_received s)) (taken s) = take (length (ra_received s)) (take (length (taken s)) (ra_sent s))"
    using inv by (simp add: ra_inv_def ra_content_def)
  then have "ra_received s = take (length (ra_received s)) (ra_sent s)" by (simp add: taken_def)
  moreover have "length (stores s) < ra_pseen s + length (m_buffer q)" "ra_pseen s \<le> length (ra_received s)"
    using inv by (simp_all add: ra_inv_def ra_known_def)
  then have "length (ra_sent s) - length (ra_received s) \<le> spsc_room q"
    using spsc_validD(1) [OF v] by (simp add: spsc_room_def stores_def)
  ultimately show ?thesis using inv got by (simp add: ra_inv_def ra_content_def)
qed

text \<open>
  The producer pushes one element; the consumer takes it. The producer's next push reads the old index and is refused,
  the one after that reads the new index and is accepted.
\<close>

definition stale_run :: "int ra_act list" where
  "stale_run = [RaPush 8, RaLoadRead 0, RaProducer, RaProducer, RaProducer, RaPop, RaLoadWrite 1, RaConsumer, RaConsumer, RaConsumer,
     RaPush 9, RaLoadRead 0, RaProducer, RaPush 10, RaLoadRead 1, RaProducer, RaProducer, RaProducer]"

lemma stale_run_result:
  "(case spsc_new (0 :: int) 2 of None \<Rightarrow> None | Some q \<Rightarrow>
     map_option (\<lambda>s. (ra_sent s, ra_received s, ra_dropCount s)) (ra_run stale_run (ra_init q))) = Some ([8, 10], [8], 1)"
  by code_simp

lemma spsc_release_acquire_witness:
  "\<exists>q s. spsc_new (0 :: int) 2 = Some q \<and> ra_run stale_run (ra_init q) = Some s \<and> ra_dropCount s = 1 \<and>
     \<not> ra_race s \<and> ra_received s = take 1 (ra_sent s) \<and> ra_sent s = [8, 10]"
proof -
  obtain q s where q: "spsc_new (0 :: int) 2 = Some q" and s: "ra_run stale_run (ra_init q) = Some s"
      and r: "ra_sent s = [8, 10]" "ra_received s = [8]" "ra_dropCount s = 1"
    using stale_run_result by (auto split: option.splits)
  from spsc_release_acquire [OF q s] r show ?thesis using q s by (intro exI [of _ q] exI [of _ s]) simp
qed

subsection \<open>The interleavings are among these runs\<close>

text \<open>What the system looks like to a thread that always reads the newest message.\<close>

definition newest :: "'a spsc \<Rightarrow> 'a ra_sys \<Rightarrow> 'a spsc_sys" where
  "newest q t = \<lparr>ring_q = \<lparr>m_buffer = ra_slots t, m_capacity = m_capacity q, m_mask = ra_mask t,
       m_writePos = ms_pos (last (ra_writePos t)), m_readPos = ms_pos (last (ra_readPos t)),
       m_pushCount = ra_pushCount t, m_popCount = ra_popCount t, m_dropCount = ra_dropCount t\<rparr>,
     ppc = ra_ppc t, cpc = ra_cpc t, sent = ra_sent t, received = ra_received t\<rparr>"

lemma newest_message:
  assumes "ra_inv q t"
  shows "ra_pseen t \<le> length (ra_received t) \<and> length (ra_readPos t) = Suc (length (ra_received t)) \<and>
      ra_readPos t ! length (ra_received t) = last (ra_readPos t)"
    and "ra_cseen t \<le> length (ra_sent t) \<and> length (ra_writePos t) = Suc (length (ra_sent t)) \<and>
      ra_writePos t ! length (ra_sent t) = last (ra_writePos t)"
proof -
  have l: "length (ra_readPos t) = Suc (length (ra_received t))" "length (ra_writePos t) = Suc (length (ra_sent t))"
    using ra_invD(5,6) [OF assms] by (simp_all add: counts_from_def)
  moreover have "ms ! k = last ms" if "length ms = Suc k" for ms :: "message list" and k
    using that last_conv_nth [of ms] by (cases ms) auto
  ultimately show "ra_pseen t \<le> length (ra_received t) \<and> length (ra_readPos t) = Suc (length (ra_received t)) \<and>
      ra_readPos t ! length (ra_received t) = last (ra_readPos t)"
    and "ra_cseen t \<le> length (ra_sent t) \<and> length (ra_writePos t) = Suc (length (ra_sent t)) \<and>
      ra_writePos t ! length (ra_sent t) = last (ra_writePos t)"
    using assms by (simp_all add: ra_inv_def ra_known_def)
qed

lemma newest_step:
  assumes "ra_inv q t" and "spsc_step (newest q t) s"
  shows "\<exists>a t'. ra_step a t = Some t' \<and> newest q t' = s"
  using assms(2)
proof cases
  case (p_start w x)
  then show ?thesis
    by (intro exI [of _ "RaPush x"]) (simp add: newest_def ra_start_push_def Let_def)
next
  case (p_load_read x w nw)
  then show ?thesis using newest_message(1) [OF assms(1)]
    by (intro exI [of _ "RaLoadRead (length (ra_received t))"]) (simp add: newest_def ra_load_read_def Let_def)
next
  case (p_full x w nw r)
  then show ?thesis by (intro exI [of _ RaProducer]) (simp add: newest_def ra_producer_def)
next
  case (p_store x w nw r)
  then show ?thesis by (intro exI [of _ RaProducer]) (simp add: newest_def ra_producer_def ra_store_slot_def Let_def)
next
  case (p_publish x nw)
  then show ?thesis by (intro exI [of _ RaProducer]) (simp add: newest_def ra_producer_def)
next
  case p_count
  then show ?thesis by (intro exI [of _ RaProducer]) (simp add: newest_def ra_producer_def)
next
  case c_start
  then show ?thesis by (intro exI [of _ RaPop]) (simp add: newest_def ra_start_pop_def)
next
  case (c_load_write r)
  then show ?thesis using newest_message(2) [OF assms(1)]
    by (intro exI [of _ "RaLoadWrite (length (ra_sent t))"]) (simp add: newest_def ra_load_write_def Let_def)
next
  case (c_empty r w)
  then show ?thesis by (intro exI [of _ RaConsumer]) (simp add: newest_def ra_consumer_def)
next
  case (c_take r w)
  then show ?thesis by (intro exI [of _ RaConsumer]) (simp add: newest_def ra_consumer_def ra_take_slot_def Let_def)
next
  case (c_publish x nr)
  then show ?thesis by (intro exI [of _ RaConsumer]) (simp add: newest_def ra_consumer_def)
next
  case c_count
  then show ?thesis by (intro exI [of _ RaConsumer]) (simp add: newest_def ra_consumer_def)
qed

lemma ra_run_append: "ra_run (as @ bs) s = (case ra_run as s of Some t \<Rightarrow> ra_run bs t | None \<Rightarrow> None)"
  by (induction "as" arbitrary: s) (auto split: option.splits)

text \<open>
  the interleaved model is a part of this one. Every state that interleaved atomic accesses reach is the newest view of a run under release
  and acquire, so what holds of these runs holds of the interleavings.
\<close>

theorem interleavings_are_runs:
  assumes "spsc_new d n = Some q" and "spsc_reachable q s"
  shows "\<exists>as t. ra_run as (ra_init q) = Some t \<and> newest q t = s"
  using assms(2)
proof (induction rule: spsc_reachable.induct)
  case start
  have "ra_run [] (ra_init q) = Some (ra_init q) \<and> newest q (ra_init q) = spsc_init q"
    by (simp add: newest_def ra_init_def spsc_init_def)
  then show ?case by blast
next
  case (step s s')
  then obtain as t where t: "ra_run as (ra_init q) = Some t" "newest q t = s" by blast
  have "ra_inv q t" by (rule ra_inv_run [OF spsc_new_facts(1) [OF assms(1)] ra_inv_init [OF assms(1)] t(1)])
  from newest_step [OF this] step.hyps(2) t(2) obtain a t' where "ra_step a t = Some t'" "newest q t' = s'" by blast
  then have "ra_run (as @ [a]) (ra_init q) = Some t'" "newest q t' = s'" using t(1) by (simp_all add: ra_run_append)
  then show ?case by blast
qed

lemma interleavings_are_runs_witness:
  "\<exists>q as t. spsc_new (0 :: int) 4 = Some q \<and> ra_run as (ra_init q) = Some t \<and>
     ra_sent t = (if fst (spsc_push 8 q) then [8] else []) \<and> ra_slots t = m_buffer (snd (spsc_push 8 q))"
proof -
  have "spsc_new (0 :: int) 4 \<noteq> None" by code_simp
  then obtain q where q: "spsc_new (0 :: int) 4 = Some q" by auto
  have "spsc_reachable q ((spsc_init q)\<lparr>ring_q := snd (spsc_push 8 q), sent := (if fst (spsc_push 8 q) then [8] else [])\<rparr>)"
    using reachable_push [OF spsc_reachable.start [of q], of 8] by (simp add: spsc_init_def)
  from interleavings_are_runs [OF q this] obtain as t where run: "ra_run as (ra_init q) = Some t" and
    n: "newest q t = (spsc_init q)\<lparr>ring_q := snd (spsc_push 8 q), sent := (if fst (spsc_push 8 q) then [8] else [])\<rparr>" by blast
  have "ra_sent t = sent (newest q t)" "ra_slots t = m_buffer (ring_q (newest q t))" by (simp_all add: newest_def)
  then have "ra_sent t = (if fst (spsc_push 8 q) then [8] else [])" "ra_slots t = m_buffer (snd (spsc_push 8 q))" unfolding n by simp_all
  then show ?thesis using q run by (intro exI [of _ q] exI [of _ "as"] exI [of _ t]) simp
qed

end
