(* ===== verification/Fw_Counters.thy ===== *)
theory Fw_Counters
  imports Fw_SpscQueue "HOL-Library.Multiset"
begin

section \<open>Counters, flow control and the multi-producer queue wrapper\<close>

text \<open>
  \<open>src/AtomicCounter.cpp\<close>, \<open>src/FlowController.cpp\<close> and \<open>include/fw/LockfreeQueue.inl\<close>. Every
  operation of the first two is one atomic read-modify-write (or load or store), so an execution
  by several threads is some sequence of the operations. \<open>boost::lockfree::queue\<close> is a parameter
  of the wrapper: its constructor, \<open>push\<close>, \<open>pop\<close> and \<open>empty\<close>.
\<close>

subsection \<open>AtomicCounter\<close>

text \<open>\<open>int64_t\<close> in two's complement; \<open>fetch_add\<close> returns the old value, \<open>add\<close> the new one.\<close>

type_synonym counter = u64

definition fetch_add :: "u64 \<Rightarrow> counter \<Rightarrow> u64 \<times> counter" where
  "fetch_add delta c = (c, c + delta)"

definition fetch_sub :: "u64 \<Rightarrow> counter \<Rightarrow> u64 \<times> counter" where
  "fetch_sub delta c = (c, c - delta)"

definition counter_add :: "u64 \<Rightarrow> counter \<Rightarrow> u64 \<times> counter" where
  "counter_add delta c = (case fetch_add delta c of (old, c') \<Rightarrow> (old + delta, c'))"

definition counter_sub :: "u64 \<Rightarrow> counter \<Rightarrow> u64 \<times> counter" where
  "counter_sub delta c = (case fetch_sub delta c of (old, c') \<Rightarrow> (old - delta, c'))"

definition counter_pre_inc :: "counter \<Rightarrow> u64 \<times> counter" where
  "counter_pre_inc c = counter_add 1 c"

definition counter_post_inc :: "counter \<Rightarrow> u64 \<times> counter" where
  "counter_post_inc c = (case counter_add 1 c of (v, c') \<Rightarrow> (v - 1, c'))"

definition counter_pre_dec :: "counter \<Rightarrow> u64 \<times> counter" where
  "counter_pre_dec c = counter_sub 1 c"

definition counter_post_dec :: "counter \<Rightarrow> u64 \<times> counter" where
  "counter_post_dec c = (case counter_sub 1 c of (v, c') \<Rightarrow> (v + 1, c'))"

definition counter_get :: "counter \<Rightarrow> u64 \<times> counter" where
  "counter_get c = (c, c)"

definition counter_set :: "u64 \<Rightarrow> counter \<Rightarrow> counter" where
  "counter_set v c = v"

definition counter_reset :: "counter \<Rightarrow> counter" where
  "counter_reset c = counter_set 0 c"

text \<open>The operations that combine with concurrent ones; \<open>set\<close> and \<open>reset\<close> overwrite the value.\<close>

datatype counter_op = Add u64 | Sub u64 | PreInc | PostInc | PreDec | PostDec

fun counter_step :: "counter_op \<Rightarrow> counter \<Rightarrow> u64 \<times> counter" where
  "counter_step (Add d) c = counter_add d c"
| "counter_step (Sub d) c = counter_sub d c"
| "counter_step PreInc c = counter_pre_inc c"
| "counter_step PostInc c = counter_post_inc c"
| "counter_step PreDec c = counter_pre_dec c"
| "counter_step PostDec c = counter_post_dec c"

fun op_delta :: "counter_op \<Rightarrow> u64" where
  "op_delta (Add d) = d"
| "op_delta (Sub d) = - d"
| "op_delta PreInc = 1"
| "op_delta PostInc = 1"
| "op_delta PreDec = - 1"
| "op_delta PostDec = - 1"

fun counter_run :: "counter_op list \<Rightarrow> counter \<Rightarrow> u64 list \<times> counter" where
  "counter_run [] c = ([], c)"
| "counter_run (op # ops) c =
     (case counter_step op c of (v, c') \<Rightarrow> (case counter_run ops c' of (vs, c'') \<Rightarrow> (v # vs, c'')))"

lemmas counter_defs = counter_add_def counter_sub_def fetch_add_def fetch_sub_def counter_pre_inc_def
  counter_post_inc_def counter_pre_dec_def counter_post_dec_def

lemma counter_step_state: "snd (counter_step op c) = c + op_delta op"
  by (cases op) (simp_all add: counter_defs)

lemma counter_run_state: "snd (counter_run ops c) = c + sum_list (map op_delta ops)"
  by (induction ops arbitrary: c) (simp_all add: case_prod_beta counter_step_state algebra_simps)

text \<open>
  no update is lost, whatever the order in which threads' operations take effect: two orders of
  the same operations end in the same value, the sum of all deltas modulo \<open>2^64\<close>.
\<close>

theorem counter_order_irrelevant:
  assumes "mset ops = mset ops'"
  shows "snd (counter_run ops c) = snd (counter_run ops' c) \<and>
    snd (counter_run ops c) = c + sum_list (map op_delta ops)"
proof -
  have "sum_list (map op_delta ops) = sum_list (map op_delta ops')"
    using assms by (metis mset_map sum_mset_sum_list)
  then show ?thesis by (simp add: counter_run_state)
qed

lemma counter_order_irrelevant_witness:
  "snd (counter_run [Add 5, PostInc, Sub 2] 7) = snd (counter_run [Sub 2, Add 5, PostInc] 7)"
  using counter_order_irrelevant [of "[Add 5, PostInc, Sub 2]" "[Sub 2, Add 5, PostInc]" 7] by simp

text \<open>Post-increments hand out each ticket once, in order, as long as they do not wrap.\<close>

lemma post_inc_tickets:
  "fst (counter_run (replicate n PostInc) c) = map (\<lambda>i. c + of_nat i) [0..<n]"
proof (induction n arbitrary: c)
  case (Suc n)
  have "fst (counter_run (replicate (Suc n) PostInc) c) = c # fst (counter_run (replicate n PostInc) (c + 1))"
    by (simp add: counter_defs split: prod.splits)
  also have "\<dots> = map (\<lambda>i. c + of_nat i) (0 # map Suc [0..<n])"
    by (simp add: Suc algebra_simps)
  also have "0 # map Suc [0..<n] = [0..<Suc n]"
    by (simp add: map_Suc_upt upt_conv_Cons del: upt_Suc)
  finally show ?case .
qed simp

subsection \<open>FlowController\<close>

record flow =
  m_maxQueueSize :: u64
  m_dropOnFull :: bool
  m_dropCount_fc :: u64
  m_totalPushAttempts :: u64
  m_totalDrops :: u64

definition flow_new :: "u64 \<Rightarrow> bool \<Rightarrow> flow" where
  "flow_new maxQueueSize dropOnFull = \<lparr>m_maxQueueSize = maxQueueSize, m_dropOnFull = dropOnFull,
     m_dropCount_fc = 0, m_totalPushAttempts = 0, m_totalDrops = 0\<rparr>"

definition canPush :: "u64 \<Rightarrow> flow \<Rightarrow> bool" where
  "canPush currentSize f \<longleftrightarrow> currentSize < m_maxQueueSize f"

definition recordDrop :: "flow \<Rightarrow> flow" where
  "recordDrop f = f\<lparr>m_dropCount_fc := m_dropCount_fc f + 1, m_totalDrops := m_totalDrops f + 1\<rparr>"

definition tryPush :: "u64 \<Rightarrow> flow \<Rightarrow> bool \<times> flow" where
  "tryPush currentSize f =
     (let f1 = f\<lparr>m_totalPushAttempts := m_totalPushAttempts f + 1\<rparr>
      in if canPush currentSize f1 then (True, f1)
         else if m_dropOnFull f1 then (False, recordDrop f1)
         else (False, f1))"

definition resetDropCount :: "flow \<Rightarrow> flow" where
  "resetDropCount f = f\<lparr>m_dropCount_fc := 0\<rparr>"

definition setMaxQueueSize :: "u64 \<Rightarrow> flow \<Rightarrow> flow" where
  "setMaxQueueSize n f = f\<lparr>m_maxQueueSize := n\<rparr>"

definition setDropOnFull :: "bool \<Rightarrow> flow \<Rightarrow> flow" where
  "setDropOnFull b f = f\<lparr>m_dropOnFull := b\<rparr>"

datatype flow_op = TryPush u64 | RecordDrop | ResetDrops | SetMax u64 | SetDrop bool

fun flow_step :: "flow_op \<Rightarrow> flow \<Rightarrow> flow" where
  "flow_step (TryPush n) f = snd (tryPush n f)"
| "flow_step RecordDrop f = recordDrop f"
| "flow_step ResetDrops f = resetDropCount f"
| "flow_step (SetMax n) f = setMaxQueueSize n f"
| "flow_step (SetDrop b) f = setDropOnFull b f"

definition is_reset :: "flow_op \<Rightarrow> bool" where
  "is_reset op \<longleftrightarrow> op = ResetDrops"

definition is_try :: "flow_op \<Rightarrow> bool" where
  "is_try op \<longleftrightarrow> (case op of TryPush _ \<Rightarrow> True | _ \<Rightarrow> False)"

text \<open>The drops an operation causes in a given state, as the interface documents them.\<close>

fun op_drops :: "flow_op \<Rightarrow> flow \<Rightarrow> nat" where
  "op_drops (TryPush n) f = (if m_maxQueueSize f \<le> n \<and> m_dropOnFull f then 1 else 0)"
| "op_drops RecordDrop f = 1"
| "op_drops ResetDrops f = 0"
| "op_drops (SetMax _) f = 0"
| "op_drops (SetDrop _) f = 0"

fun drops :: "flow_op list \<Rightarrow> flow \<Rightarrow> nat" where
  "drops [] f = 0"
| "drops (op # ops) f = op_drops op f + drops ops (flow_step op f)"

lemmas flow_defs = tryPush_def canPush_def recordDrop_def resetDropCount_def setMaxQueueSize_def
  setDropOnFull_def Let_def

lemma flow_step_attempts:
  "m_totalPushAttempts (flow_step op f) = m_totalPushAttempts f + (if is_try op then 1 else 0)"
  by (cases op) (simp_all add: flow_defs is_try_def)

lemma flow_step_drops: "m_totalDrops (flow_step op f) = m_totalDrops f + of_nat (op_drops op f)"
  by (cases op) (auto simp: flow_defs not_less)

lemma flow_step_dropCount:
  "m_dropCount_fc (flow_step op f) = (if is_reset op then 0 else m_dropCount_fc f + of_nat (op_drops op f))"
  by (cases op) (auto simp: flow_defs is_reset_def not_less)

lemma flow_run_counts:
  "m_totalPushAttempts (fold flow_step ops f) = m_totalPushAttempts f + of_nat (length (filter is_try ops))"
  "m_totalDrops (fold flow_step ops f) = m_totalDrops f + of_nat (drops ops f)"
  by (induction ops arbitrary: f) (simp_all add: flow_step_attempts flow_step_drops algebra_simps)

lemma flow_run_dropCount:
  "\<forall>op\<in>set ops. \<not> is_reset op \<Longrightarrow>
   m_dropCount_fc (fold flow_step ops f) = m_dropCount_fc f + of_nat (drops ops f)"
  by (induction ops arbitrary: f) (simp_all add: flow_step_dropCount algebra_simps)

text \<open>
  accounting of the flow controller. Over any sequence of operations from a new controller the
  attempts are the \<open>tryPush\<close> calls and the total drops are the rejections in drop mode and the
  explicit \<open>recordDrop\<close> calls; a reset only clears the resettable counter, which afterwards counts
  the drops since; and \<open>tryPush\<close> answers exactly whether the size is below the current limit.
\<close>

theorem flow_accounting:
  assumes "f = fold flow_step ops (flow_new maxSize dropOnFull)"
    and "g = fold flow_step ops' (flow_step ResetDrops f)" and "\<forall>op\<in>set ops'. \<not> is_reset op"
  shows "m_totalPushAttempts f = of_nat (length (filter is_try ops)) \<and>
    m_totalDrops f = of_nat (drops ops (flow_new maxSize dropOnFull)) \<and>
    m_dropCount_fc g = of_nat (drops ops' (flow_step ResetDrops f)) \<and>
    m_totalDrops g = m_totalDrops f + of_nat (drops ops' (flow_step ResetDrops f)) \<and>
    fst (tryPush n f) = (n < m_maxQueueSize f)"
proof -
  have "m_totalDrops (flow_step ResetDrops f) = m_totalDrops f \<and> m_dropCount_fc (flow_step ResetDrops f) = 0"
    by (simp add: resetDropCount_def)
  then show ?thesis
    using flow_run_counts [of ops "flow_new maxSize dropOnFull"]
      flow_run_counts(2) [of ops' "flow_step ResetDrops f"]
      flow_run_dropCount [OF assms(3), of "flow_step ResetDrops f"] assms(1,2)
    by (simp add: flow_new_def tryPush_def canPush_def Let_def)
qed

lemma flow_accounting_witness:
  "m_totalDrops (fold flow_step [TryPush 3, TryPush 10, RecordDrop] (flow_new 10 True)) = 2 \<and>
   fst (tryPush 9 (fold flow_step [TryPush 3, TryPush 10, RecordDrop] (flow_new 10 True)))"
proof -
  let ?f = "fold flow_step [TryPush 3, TryPush 10, RecordDrop] (flow_new 10 True)"
  have d: "drops [TryPush 3, TryPush 10, RecordDrop] (flow_new 10 True) = 2"
    by (simp add: flow_defs flow_new_def)
  have m: "m_maxQueueSize ?f = 10"
    by (simp add: flow_defs flow_new_def)
  have "\<forall>op\<in>set [TryPush 1]. \<not> is_reset op" by (simp add: is_reset_def)
  note r = flow_accounting [OF refl refl this, of "[TryPush 3, TryPush 10, RecordDrop]" 10 True 9]
  from r have "m_totalDrops ?f = of_nat (drops [TryPush 3, TryPush 10, RecordDrop] (flow_new 10 True))"
    by (elim conjE)
  moreover from r have "fst (tryPush 9 ?f) = (9 < m_maxQueueSize ?f)" by (elim conjE)
  ultimately show ?thesis unfolding d m by simp
qed

subsection \<open>LockfreeQueue\<close>

record 'b lfq =
  lq_queue :: 'b
  lq_capacity :: u64
  lq_pushCount :: u64
  lq_popCount :: u64
  lq_dropCount :: u64

definition lfq_new :: "(u64 \<Rightarrow> 'b) \<Rightarrow> u64 \<Rightarrow> 'b lfq option" where
  "lfq_new boost_new capacity =
     (case doubling_loop 1 capacity of
        None \<Rightarrow> None
      | Some c \<Rightarrow> Some \<lparr>lq_queue = boost_new c, lq_capacity = c,
                       lq_pushCount = 0, lq_popCount = 0, lq_dropCount = 0\<rparr>)"

definition lfq_push :: "('a \<Rightarrow> 'b \<Rightarrow> bool \<times> 'b) \<Rightarrow> 'a \<Rightarrow> 'b lfq \<Rightarrow> bool \<times> 'b lfq" where
  "lfq_push boost_push item q =
     (case boost_push item (lq_queue q) of (success, b) \<Rightarrow>
        (success, if success then q\<lparr>lq_queue := b, lq_pushCount := lq_pushCount q + 1\<rparr>
                  else q\<lparr>lq_queue := b, lq_dropCount := lq_dropCount q + 1\<rparr>))"

definition lfq_pop :: "('b \<Rightarrow> 'a option \<times> 'b) \<Rightarrow> 'b lfq \<Rightarrow> 'a option \<times> 'b lfq" where
  "lfq_pop boost_pop q =
     (case boost_pop (lq_queue q) of (r, b) \<Rightarrow>
        (r, if r \<noteq> None then q\<lparr>lq_queue := b, lq_popCount := lq_popCount q + 1\<rparr>
            else q\<lparr>lq_queue := b\<rparr>))"

text \<open>\<open>clear\<close> pops until the queue is empty.\<close>

partial_function (option) lfq_clear :: "('b \<Rightarrow> 'a option \<times> 'b) \<Rightarrow> 'b lfq \<Rightarrow> 'b lfq option" where
  "lfq_clear boost_pop q =
     (case lfq_pop boost_pop q of (r, q') \<Rightarrow> if r = None then Some q' else lfq_clear boost_pop q')"

definition lfq_empty :: "('b \<Rightarrow> bool) \<Rightarrow> 'b lfq \<Rightarrow> bool" where
  "lfq_empty boost_empty q = boost_empty (lq_queue q)"

definition lfq_capacity :: "'b lfq \<Rightarrow> u64" where
  "lfq_capacity q = lq_capacity q"

definition lfq_size :: "'b lfq \<Rightarrow> u64" where
  "lfq_size q = (if lq_popCount q < lq_pushCount q then lq_pushCount q - lq_popCount q else 0)"

text \<open>
  What the documentation of \<open>boost::lockfree::queue\<close> promises to one caller at a time: an accepted
  element goes to the back, a rejected push changes nothing, \<open>pop\<close> takes the front and fails
  on the empty queue only.
\<close>

definition boost_queue_laws ::
  "('a \<Rightarrow> 'b \<Rightarrow> bool \<times> 'b) \<Rightarrow> ('b \<Rightarrow> 'a option \<times> 'b) \<Rightarrow> ('b \<Rightarrow> 'a list) \<Rightarrow> bool" where
  "boost_queue_laws bpush bpop cont \<longleftrightarrow>
     (\<forall>x b. cont (snd (bpush x b)) = cont b @ (if fst (bpush x b) then [x] else [])) \<and>
     (\<forall>b. cont b = (case fst (bpop b) of None \<Rightarrow> [] | Some y \<Rightarrow> [y]) @ cont (snd (bpop b))) \<and>
     (\<forall>b. fst (bpop b) = None \<longrightarrow> cont b = [])"

definition lfq_ok :: "('b \<Rightarrow> 'a list) \<Rightarrow> nat \<Rightarrow> nat \<Rightarrow> 'b lfq \<Rightarrow> bool" where
  "lfq_ok cont pushes pops q \<longleftrightarrow> pushes = pops + length (cont (lq_queue q)) \<and>
     lq_pushCount q = of_nat pushes \<and> lq_popCount q = of_nat pops"

lemma boost_push_law:
  "boost_queue_laws bpush bpop cont \<Longrightarrow>
   cont (snd (bpush x b)) = cont b @ (if fst (bpush x b) then [x] else [])"
  unfolding boost_queue_laws_def by blast

lemma boost_pop_law:
  "boost_queue_laws bpush bpop cont \<Longrightarrow>
   cont b = (case fst (bpop b) of None \<Rightarrow> [] | Some y \<Rightarrow> [y]) @ cont (snd (bpop b))"
  unfolding boost_queue_laws_def by blast

lemma lfq_push_fields:
  "fst (lfq_push bpush x q) = fst (bpush x (lq_queue q))"
  "lq_queue (snd (lfq_push bpush x q)) = snd (bpush x (lq_queue q))"
  "lq_pushCount (snd (lfq_push bpush x q)) = lq_pushCount q + (if fst (bpush x (lq_queue q)) then 1 else 0)"
  "lq_popCount (snd (lfq_push bpush x q)) = lq_popCount q"
  by (simp_all add: lfq_push_def case_prod_beta)

lemma lfq_pop_fields:
  "fst (lfq_pop bpop q) = fst (bpop (lq_queue q))"
  "lq_queue (snd (lfq_pop bpop q)) = snd (bpop (lq_queue q))"
  "lq_popCount (snd (lfq_pop bpop q)) = lq_popCount q + (if fst (bpop (lq_queue q)) = None then 0 else 1)"
  "lq_pushCount (snd (lfq_pop bpop q)) = lq_pushCount q"
  by (simp_all add: lfq_pop_def case_prod_beta)

lemma lfq_push_content:
  assumes "boost_queue_laws bpush bpop cont"
  shows "cont (lq_queue (snd (lfq_push bpush x q))) = cont (lq_queue q) @ (if fst (lfq_push bpush x q) then [x] else [])"
  unfolding lfq_push_fields by (rule boost_push_law [OF assms])

lemma lfq_pop_content:
  assumes "boost_queue_laws bpush bpop cont"
  shows "cont (lq_queue q) = (case fst (lfq_pop bpop q) of None \<Rightarrow> [] | Some y \<Rightarrow> [y])
     @ cont (lq_queue (snd (lfq_pop bpop q)))"
  unfolding lfq_pop_fields by (rule boost_pop_law [OF assms])

lemma lfq_push_ok:
  assumes "boost_queue_laws bpush bpop cont" "lfq_ok cont p n q"
  shows "lfq_ok cont (p + (if fst (lfq_push bpush x q) then 1 else 0)) n (snd (lfq_push bpush x q))"
  using assms(2) unfolding lfq_ok_def lfq_push_content [OF assms(1)] by (simp add: lfq_push_fields)

lemma lfq_pop_ok:
  assumes "boost_queue_laws bpush bpop cont" "lfq_ok cont p n q"
  shows "lfq_ok cont p (n + (if fst (lfq_pop bpop q) = None then 0 else 1)) (snd (lfq_pop bpop q))"
proof -
  have "length (cont (lq_queue q)) = (if fst (lfq_pop bpop q) = None then 0 else 1)
      + length (cont (lq_queue (snd (lfq_pop bpop q))))"
    by (subst lfq_pop_content [OF assms(1)]) (simp split: option.splits)
  with assms(2) show ?thesis by (simp add: lfq_ok_def lfq_pop_fields)
qed

lemma lfq_run:
  assumes laws: "boost_queue_laws bpush bpop cont"
  shows "run_ops (lfq_push bpush) (lfq_pop bpop) ops q = (ins, outs, q') \<Longrightarrow>
    lfq_ok cont p n q \<Longrightarrow>
    lfq_ok cont (p + length ins) (n + length outs) q' \<and>
    cont (lq_queue q) @ ins = outs @ cont (lq_queue q')"
proof (induction ops arbitrary: q ins outs p n)
  case Nil
  then show ?case by simp
next
  case (Cons op ops)
  show ?case
  proof (cases op)
    case (Push x)
    let ?q1 = "snd (lfq_push bpush x q)" and ?ok = "fst (lfq_push bpush x q)"
    from Cons.prems(1) Push obtain ins' where r: "run_ops (lfq_push bpush) (lfq_pop bpop) ops ?q1 = (ins', outs, q')"
      and ins: "ins = (if ?ok then x # ins' else ins')" by (auto split: prod.splits)
    from Cons.IH [OF r lfq_push_ok [OF laws Cons.prems(2)]] ins lfq_push_content [OF laws, of x q]
    show ?thesis by (auto split: if_splits)
  next
    case Pop
    let ?q1 = "snd (lfq_pop bpop q)" and ?y = "fst (lfq_pop bpop q)"
    from Cons.prems(1) Pop obtain outs' where r: "run_ops (lfq_push bpush) (lfq_pop bpop) ops ?q1 = (ins, outs', q')"
      and outs: "outs = (case ?y of None \<Rightarrow> outs' | Some y \<Rightarrow> y # outs')"
      by (auto split: prod.splits option.splits)
    have "cont (lq_queue q) @ ins = (case ?y of None \<Rightarrow> [] | Some y \<Rightarrow> [y]) @ cont (lq_queue ?q1) @ ins"
      by (subst lfq_pop_content [OF laws]) simp
    with Cons.IH [OF r lfq_pop_ok [OF laws Cons.prems(2)]] outs
    show ?thesis by (cases ?y) simp_all
  qed
qed

lemma lfq_clear_empties:
  assumes laws: "boost_queue_laws bpush bpop cont"
  shows "lfq_ok cont p n q \<Longrightarrow>
    \<exists>q'. lfq_clear bpop q = Some q' \<and> cont (lq_queue q') = [] \<and> lfq_ok cont p p q'"
proof (induction "length (cont (lq_queue q))" arbitrary: n q)
  case 0
  have "fst (lfq_pop bpop q) = None" and "cont (lq_queue (snd (lfq_pop bpop q))) = []"
    using lfq_pop_content [OF laws, of q] 0(1) by (auto split: option.splits)
  with lfq_pop_ok [OF laws 0(2)] 0 show ?case
    by (subst lfq_clear.simps) (auto simp: case_prod_beta lfq_ok_def)
next
  case (Suc k)
  have ne: "fst (lfq_pop bpop q) \<noteq> None"
    using Suc(2) laws unfolding boost_queue_laws_def lfq_pop_fields by (metis list.size(3) nat.distinct(1))
  then have "k = length (cont (lq_queue (snd (lfq_pop bpop q))))"
    using Suc(2) lfq_pop_content [OF laws, of q] by (auto split: option.splits)
  from Suc(1) [OF this lfq_pop_ok [OF laws Suc(3)]] ne show ?case
    by (subst lfq_clear.simps) (auto simp: case_prod_beta)
qed

text \<open>
  the wrapper's counters tell the truth. From a new queue, whatever pushes and pops follow, the
  accepted elements come out in order, and \<open>size\<close> is the number of elements still inside, as long
  as fewer than \<open>2^64\<close> pushes were accepted; \<open>clear\<close> ends and leaves it empty with size 0. (The rounded capacity only sizes Boost's free list:
  no push is refused for it, whatever the documentation of \<open>getCapacity\<close> suggests.)
\<close>

theorem lfq_size_exact:
  assumes "boost_queue_laws bpush bpop cont" and "\<And>n. cont (boost_new n) = []"
    and "lfq_new boost_new capacity = Some q"
    and "run_ops (lfq_push bpush) (lfq_pop bpop) ops q = (ins, outs, q')"
    and "length ins < 2 ^ 64"
  shows "ins = outs @ cont (lq_queue q') \<and> lfq_size q' = of_nat (length (cont (lq_queue q'))) \<and>
    (\<exists>q2. lfq_clear bpop q' = Some q2 \<and> cont (lq_queue q2) = [] \<and> lfq_size q2 = 0)"
proof -
  from assms(3) have ok0: "lfq_ok cont 0 0 q" and e: "cont (lq_queue q) = []"
    using assms(2) by (auto simp: lfq_new_def lfq_ok_def split: option.splits)
  from lfq_run [OF assms(1,4) ok0]
  have ok: "lfq_ok cont (length ins) (length outs) q'" unfolding add_0 by (rule conjunct1)
  from lfq_run [OF assms(1,4) ok0] e have fifo: "ins = outs @ cont (lq_queue q')" by simp
  from ok have l: "length ins = length outs + length (cont (lq_queue q'))"
    and c: "lq_pushCount q' = of_nat (length ins)" "lq_popCount q' = of_nat (length outs)"
    by (simp_all add: lfq_ok_def)
  have u: "unat (lq_pushCount q') = length ins" "unat (lq_popCount q') = length outs"
    unfolding c using l assms(5) by (simp_all del: of_nat_add add: unsigned_of_nat take_bit_nat_eq_self)
  have "lfq_size q' = of_nat (length (cont (lq_queue q')))"
    unfolding lfq_size_def word_less_nat_alt u using c l by simp
  moreover obtain q2 where "lfq_clear bpop q' = Some q2" "cont (lq_queue q2) = []"
    "lfq_ok cont (length ins) (length ins) q2"
    using lfq_clear_empties [OF assms(1) ok] by auto
  ultimately show ?thesis using fifo by (auto simp: lfq_size_def lfq_ok_def)
qed

definition list_push :: "'a \<Rightarrow> 'a list \<Rightarrow> bool \<times> 'a list" where
  "list_push x xs = (True, xs @ [x])"

definition list_pop :: "'a list \<Rightarrow> 'a option \<times> 'a list" where
  "list_pop xs = (case xs of [] \<Rightarrow> (None, []) | y # ys \<Rightarrow> (Some y, ys))"

lemma list_queue_laws: "boost_queue_laws list_push list_pop (\<lambda>xs. xs)"
  by (auto simp: boost_queue_laws_def list_push_def list_pop_def split: list.splits)

lemma lfq_size_exact_witness:
  "\<exists>q q'. lfq_new (\<lambda>_. []) 3 = Some q \<and>
     run_ops (lfq_push list_push) (lfq_pop list_pop) [Push (5::nat), Push 6, Pop] q = ([5, 6], [5], q') \<and>
     lfq_size q' = 1"
proof -
  have n: "lfq_new (\<lambda>_. []) 3 = Some (\<lparr>lq_queue = [], lq_capacity = 4, lq_pushCount = 0, lq_popCount = 0,
      lq_dropCount = 0\<rparr> :: nat list lfq)" (is "_ = Some ?q")
    by code_simp
  have r: "run_ops (lfq_push list_push) (lfq_pop list_pop) [Push (5::nat), Push 6, Pop] ?q =
      ([5, 6], [5], \<lparr>lq_queue = [6], lq_capacity = 4, lq_pushCount = 2, lq_popCount = 1, lq_dropCount = 0\<rparr>)"
    by (simp add: lfq_push_def lfq_pop_def list_push_def list_pop_def)
  have "length [5, 6::nat] < 2 ^ 64" by simp
  from lfq_size_exact [OF list_queue_laws refl n r this] n r show ?thesis by auto
qed

end
