(* ===== verification/Fw_Snowflake.thy ===== *)
theory Fw_Snowflake
  imports Fw_Prelude "HOL-Library.Signed_Division"
begin

section \<open>Snowflake identifiers\<close>

text \<open>
  \<open>include/fw/IdUtil.hpp\<close> and \<open>src/IdUtil.cpp\<close>: the generator with its sequence, its wait on
  overflow and its failure result 0, the thread's generator built from the configuration or from
  the host's name and MAC address, and \<open>isSafeId\<close>. The system clock is a parameter, the sequence
  of its readings. The UUID functions only call Boost and are not modelled.
\<close>

subsection \<open>The generator\<close>

definition EPOCH :: int where "EPOCH = 946684800000"

record sf =
  m_datacenterId :: u64
  m_workerId :: u64
  m_sequence :: u64
  m_lastTimestamp :: int

datatype sf_error = InvalidDatacenter | InvalidWorker

text \<open>The constructor compares \<open>int64_t\<close> values, so its arguments are signed.\<close>

definition sf_new :: "int \<Rightarrow> int \<Rightarrow> sf_error + sf" where
  "sf_new datacenterId workerId =
     (if 31 < datacenterId \<or> datacenterId < 0 then Inl InvalidDatacenter
      else if 31 < workerId \<or> workerId < 0 then Inl InvalidWorker
      else Inr \<lparr>m_datacenterId = word_of_int datacenterId, m_workerId = word_of_int workerId,
                m_sequence = 0, m_lastTimestamp = - 1\<rparr>)"

definition assemble :: "int \<Rightarrow> u64 \<Rightarrow> u64 \<Rightarrow> u64 \<Rightarrow> u64" where
  "assemble timestamp dc w seq =
     push_bit 22 (word_of_int (timestamp - EPOCH)) OR push_bit 17 dc OR push_bit 12 w OR seq"

text \<open>
  The wait for the next millisecond: at most five more readings, given up at once when a reading
  lies before the last issued one. The result is the last reading, if any, and the number of readings so far.
\<close>

function wait_loop :: "(nat \<Rightarrow> int) \<Rightarrow> int \<Rightarrow> nat \<Rightarrow> int \<Rightarrow> nat \<Rightarrow> int option \<times> nat" where
  "wait_loop clk lastT waitCount timestamp p =
     (if timestamp \<le> lastT \<and> waitCount < 5
      then if clk p < lastT then (None, p + 1)
           else wait_loop clk lastT (waitCount + 1) (clk p) (p + 1)
      else (Some timestamp, p))"
  by pat_completeness auto
termination by (relation "measure (\<lambda>(_, _, n, _). 5 - n)") auto

declare wait_loop.simps [simp del]

definition sf_issue :: "sf \<Rightarrow> int \<Rightarrow> nat \<Rightarrow> u64 \<times> sf \<times> nat" where
  "sf_issue g timestamp p =
     (assemble timestamp (m_datacenterId g) (m_workerId g) (m_sequence g), g\<lparr>m_lastTimestamp := timestamp\<rparr>, p)"

definition nextId :: "(nat \<Rightarrow> int) \<Rightarrow> nat \<Rightarrow> sf \<Rightarrow> u64 \<times> sf \<times> nat" where
  "nextId clk p g =
     (let timestamp = clk p; lastT = m_lastTimestamp g
      in if timestamp = lastT
         then let g1 = g\<lparr>m_sequence := (m_sequence g + 1) AND 4095\<rparr>
              in if m_sequence g1 = 0
                 then case wait_loop clk lastT 0 timestamp (p + 1) of
                        (None, p2) \<Rightarrow> (0, g1, p2)
                      | (Some timestamp2, p2) \<Rightarrow>
                          if timestamp2 \<le> lastT then (0, g1, p2) else sf_issue g1 timestamp2 p2
                 else sf_issue g1 timestamp (p + 1)
         else sf_issue (g\<lparr>m_sequence := 0\<rparr>) timestamp (p + 1))"

definition nextIdStr :: "(nat \<Rightarrow> int) \<Rightarrow> nat \<Rightarrow> sf \<Rightarrow> string \<times> sf \<times> nat" where
  "nextIdStr clk p g = (case nextId clk p g of (i, g', p') \<Rightarrow> (show_int (sint i), g', p'))"

text \<open>Successive calls on one generator.\<close>

fun sf_run :: "(nat \<Rightarrow> int) \<Rightarrow> nat \<Rightarrow> nat \<Rightarrow> sf \<Rightarrow> u64 list \<times> sf \<times> nat" where
  "sf_run clk 0 p g = ([], g, p)"
| "sf_run clk (Suc n) p g =
     (case nextId clk p g of (i, g', p') \<Rightarrow> (case sf_run clk n p' g' of (is, r) \<Rightarrow> (i # is, r)))"

subsection \<open>Layout of an identifier\<close>

definition sf_wf :: "sf \<Rightarrow> bool" where
  "sf_wf g \<longleftrightarrow> unat (m_datacenterId g) < 32 \<and> unat (m_workerId g) < 32 \<and> unat (m_sequence g) < 4096"

definition in_range :: "int \<Rightarrow> bool" where
  "in_range t \<longleftrightarrow> EPOCH \<le> t \<and> t < EPOCH + 2 ^ 41"

lemma unat_elapsed: "in_range t \<Longrightarrow> unat (word_of_int (t - EPOCH) :: u64) = nat (t - EPOCH)"
  by (rule unat_word_of_int) (simp_all add: in_range_def)

lemma unat_assemble:
  assumes "in_range t" "unat dc < 32" "unat w < 32" "unat sq < 4096"
  shows "unat (assemble t dc w sq) = nat (t - EPOCH) * 2 ^ 22 + unat dc * 2 ^ 17 + unat w * 2 ^ 12 + unat sq"
proof -
  let ?T = "word_of_int (t - EPOCH) :: u64"
  have T: "unat ?T < 2 ^ 41"
    unfolding unat_elapsed [OF assms(1)] using assms(1) by (simp add: in_range_def nat_less_iff)
  have 1: "unat (push_bit 12 w OR sq) = unat w * 2 ^ 12 + unat sq"
    using assms by (intro unat_pack) simp_all
  have 2: "unat (push_bit 17 dc OR (push_bit 12 w OR sq)) = unat dc * 2 ^ 17 + (unat w * 2 ^ 12 + unat sq)"
    unfolding 1 [symmetric] using assms by (intro unat_pack) (simp_all add: 1)
  have "unat (push_bit 22 ?T OR (push_bit 17 dc OR (push_bit 12 w OR sq))) =
      unat ?T * 2 ^ 22 + (unat dc * 2 ^ 17 + (unat w * 2 ^ 12 + unat sq))"
    unfolding 2 [symmetric] using assms T by (intro unat_pack) (simp_all add: 2)
  then show ?thesis unfolding assemble_def or.assoc unat_elapsed [OF assms(1)] by simp
qed

lemma assemble_fields:
  assumes "in_range t" "unat dc < 32" "unat w < 32" "unat sq < 4096"
  shows "unat (drop_bit 22 (assemble t dc w sq)) = nat (t - EPOCH)"
    "unat (drop_bit 17 (assemble t dc w sq)) mod 32 = unat dc"
    "unat (drop_bit 12 (assemble t dc w sq)) mod 32 = unat w"
    "unat (assemble t dc w sq) mod 4096 = unat sq"
proof -
  have u: "unat (assemble t dc w sq) = nat (t - EPOCH) * 4194304 + unat dc * 131072 + unat w * 4096 + unat sq"
    using unat_assemble [OF assms] by simp
  have d: "unat (drop_bit n (assemble t dc w sq)) = unat (assemble t dc w sq) div 2 ^ n" for n
    by (rule unat_drop_bit_div)
  show "unat (drop_bit 22 (assemble t dc w sq)) = nat (t - EPOCH)"
    using assms(2-4) by (simp add: d) (simp add: u)
  have q: "(a * m + r) div m = a" if "r < m" for a m r :: nat using that by simp
  have "unat (assemble t dc w sq) = (nat (t - EPOCH) * 32 + unat dc) * 2 ^ 17 + (unat w * 4096 + unat sq)"
    using u by simp
  moreover have "unat w * 4096 + unat sq < 2 ^ 17" using assms(3,4) by simp
  ultimately have "unat (drop_bit 17 (assemble t dc w sq)) = nat (t - EPOCH) * 32 + unat dc"
    by (simp only: d q)
  then show "unat (drop_bit 17 (assemble t dc w sq)) mod 32 = unat dc" using assms(2) by simp
  have "unat (assemble t dc w sq) = ((nat (t - EPOCH) * 32 + unat dc) * 32 + unat w) * 2 ^ 12 + unat sq"
    using u by simp
  moreover have "unat sq < 2 ^ 12" using assms(4) by simp
  ultimately have "unat (drop_bit 12 (assemble t dc w sq)) = (nat (t - EPOCH) * 32 + unat dc) * 32 + unat w"
    by (simp only: d q)
  moreover have "((a :: nat) * 32 + r) mod 32 = r" if "r < 32" for a r using that by simp
  ultimately show "unat (drop_bit 12 (assemble t dc w sq)) mod 32 = unat w" using assms(3) by metis
  show "unat (assemble t dc w sq) mod 4096 = unat sq"
  proof -
    have "unat (assemble t dc w sq) = (nat (t - EPOCH) * 1024 + unat dc * 32 + unat w) * 4096 + unat sq"
      using u by simp
    moreover have "((a :: nat) * 4096 + r) mod 4096 = r" if "r < 4096" for a r using that by simp
    ultimately show ?thesis using assms(4) by metis
  qed
qed

lemma assemble_less:
  assumes "in_range t" "in_range t'" "unat dc < 32" "unat w < 32" "unat s < 4096" "unat s' < 4096"
    and "t < t' \<or> t = t' \<and> s < s'"
  shows "assemble t dc w s < assemble t' dc w s'"
proof -
  from assms(1,2,7) have "nat (t - EPOCH) < nat (t' - EPOCH) \<or> t = t' \<and> unat s < unat s'"
    by (auto simp: in_range_def word_less_nat_alt)
  then show ?thesis
    unfolding word_less_nat_alt unat_assemble [OF assms(1,3,4,5)] unat_assemble [OF assms(2,3,4,6)]
    using assms(3-6) by auto
qed

lemma wait_loop_mono:
  assumes "\<And>k. p \<le> k \<Longrightarrow> l \<le> clk k"
  shows "l \<le> t \<Longrightarrow> \<exists>t' p'. wait_loop clk l n t p = (Some t', p') \<and> p \<le> p' \<and> l \<le> t' \<and>
     (t' = t \<and> p' = p \<or> p < p' \<and> t' = clk (p' - 1))"
  using assms
proof (induction clk l n t p rule: wait_loop.induct)
  case (1 clk l n t p)
  show ?case
  proof (cases "t \<le> l \<and> n < 5")
    case True
    have nl: "\<not> clk p < l" using "1.prems"(2) [of p] by simp
    with True obtain t' p' where "wait_loop clk l (n + 1) (clk p) (p + 1) = (Some t', p')" "p + 1 \<le> p'"
      "l \<le> t'" "t' = clk p \<and> p' = p + 1 \<or> p + 1 < p' \<and> t' = clk (p' - 1)"
      using "1.IH" "1.prems" by force
    with True nl show ?thesis
      by (subst wait_loop.simps) auto
  next
    case False
    with "1.prems" show ?thesis by (subst wait_loop.simps) auto
  qed
qed


lemma wait_loop_timeout:
  assumes "l \<le> clk p" "clk p \<le> clk (p + 1)" "clk (p + 1) \<le> clk (p + 2)" "clk (p + 2) \<le> clk (p + 3)"
    "clk (p + 3) \<le> clk (p + 4)"
  shows "(case wait_loop clk l 0 l p of (None, _) \<Rightarrow> False | (Some t', _) \<Rightarrow> t' \<le> l) \<longleftrightarrow> clk (p + 4) = l"
  using assms by (auto simp: wait_loop.simps numeral_eq_Suc)

lemma next_seq: "unat (s :: u64) < 4096 \<Longrightarrow> unat ((s + 1) AND 4095) = (unat s + 1) mod 4096"
proof -
  assume s: "unat s < 4096"
  have "(s + 1) AND 4095 = take_bit 12 (s + 1)"
    by (simp add: take_bit_eq_mask mask_eq_exp_minus_1)
  moreover have "unat (s + 1) = unat s + 1"
    using s by (simp add: unat_word_ariths)
  ultimately show ?thesis by (simp add: take_bit_eq_mod unat_mod_distrib)
qed

lemma next_seq_cases:
  assumes "unat (s :: u64) < 4096"
  shows "(s + 1) AND 4095 = 0 \<longleftrightarrow> s = 4095" "(s + 1) AND 4095 \<noteq> 0 \<Longrightarrow> s < (s + 1) AND 4095"
    "unat ((s + 1) AND 4095) < 4096"
proof -
  have "(s + 1) AND 4095 = 0 \<longleftrightarrow> unat ((s + 1) AND 4095) = 0" using unat_eq_word [of "(s + 1) AND 4095" 0] by (simp only: unsigned_0)
  also have "\<dots> \<longleftrightarrow> unat s = 4095" unfolding next_seq [OF assms] using assms by (cases "unat s = 4095") simp_all
  also have "\<dots> \<longleftrightarrow> s = 4095" using unat_eq_word [of s 4095] by simp
  finally show z: "(s + 1) AND 4095 = 0 \<longleftrightarrow> s = 4095" .
  show "s < (s + 1) AND 4095" if "(s + 1) AND 4095 \<noteq> 0"
  proof -
    from that z have "unat s \<noteq> 4095" using unat_eq_word [of s 4095] by simp
    with assms have "unat ((s + 1) AND 4095) = unat s + 1" unfolding next_seq [OF assms] by simp
    then show ?thesis by (simp add: word_less_nat_alt)
  qed
  show "unat ((s + 1) AND 4095) < 4096" unfolding next_seq [OF assms] by simp
qed

definition sf_after :: "sf \<Rightarrow> sf \<Rightarrow> bool" where
  "sf_after g g' \<longleftrightarrow> m_datacenterId g' = m_datacenterId g \<and> m_workerId g' = m_workerId g \<and>
     (m_lastTimestamp g < m_lastTimestamp g' \<or>
      m_lastTimestamp g = m_lastTimestamp g' \<and> m_sequence g < m_sequence g')"

definition sf_id :: "sf \<Rightarrow> u64" where
  "sf_id g = assemble (m_lastTimestamp g) (m_datacenterId g) (m_workerId g) (m_sequence g)"

lemma sf_after_trans: "sf_after g g1 \<Longrightarrow> sf_after g1 g2 \<Longrightarrow> sf_after g g2"
  by (auto simp: sf_after_def)

lemma nextId_mono:
  assumes "mono clk" and "sf_wf g" and "m_lastTimestamp g \<le> clk p" and "nextId clk p g = (i, g', p')"
  shows "i = 0 \<and> m_lastTimestamp g = clk p \<and> m_sequence g = 4095 \<and> g' = g\<lparr>m_sequence := 0\<rparr> \<or>
    i = sf_id g' \<and> sf_after g g' \<and> sf_wf g' \<and> p < p' \<and> m_lastTimestamp g' = clk (p' - 1)"
proof -
  have s: "unat (m_sequence g) < 4096" using assms(2) by (simp add: sf_wf_def)
  show ?thesis
  proof (cases "m_lastTimestamp g = clk p")
    case False
    with assms show ?thesis
      by (auto simp: nextId_def Let_def sf_issue_def sf_id_def sf_after_def sf_wf_def)
  next
    case True
    show ?thesis
    proof (cases "m_sequence g = 4095")
      case ne: False
      with next_seq_cases(1) [OF s] have nz: "(m_sequence g + 1) AND 4095 \<noteq> 0" by simp
      with assms(2,4) True next_seq_cases(2) [OF s nz] next_seq_cases(3) [OF s] show ?thesis
        by (auto simp: nextId_def Let_def sf_issue_def sf_id_def sf_after_def sf_wf_def)
    next
      case eq: True
      then have z: "(m_sequence g + 1) AND 4095 = 0" using next_seq_cases(1) [OF s] by simp
      obtain t' p2 where w: "wait_loop clk (clk p) 0 (clk p) (p + 1) = (Some t', p2)" "p + 1 \<le> p2"
        "t' = clk p \<or> p + 1 < p2 \<and> t' = clk (p2 - 1)"
        using wait_loop_mono [of "p + 1" "clk p" clk "clk p" 0] assms(1) by (auto simp: mono_def)
      show ?thesis
      proof (cases "t' \<le> clk p")
        case True
        with assms(4) w z eq \<open>m_lastTimestamp g = clk p\<close> show ?thesis by (simp add: nextId_def Let_def)
      next
        case False
        with assms(2,4) w z \<open>m_lastTimestamp g = clk p\<close> show ?thesis
          by (auto simp: nextId_def Let_def sf_issue_def sf_id_def sf_after_def sf_wf_def)
      qed
    qed
  qed
qed

lemma sf_id_less:
  assumes "sf_wf g" "sf_wf g'" "in_range (m_lastTimestamp g)" "in_range (m_lastTimestamp g')" "sf_after g g'"
  shows "sf_id g < sf_id g'"
  using assms assemble_less [of "m_lastTimestamp g" "m_lastTimestamp g'" "m_datacenterId g" "m_workerId g"
    "m_sequence g" "m_sequence g'"]
  by (auto simp: sf_id_def sf_after_def sf_wf_def)

lemma wait_loop_reads: "wait_loop clk l n t p = (r, p') \<Longrightarrow> p \<le> p'"
proof (induction clk l n t p rule: wait_loop.induct)
  case (1 clk l n t p)
  show ?case
  proof (cases "t \<le> l \<and> n < 5 \<and> \<not> clk p < l")
    case True
    with "1.prems" have "wait_loop clk l (n + 1) (clk p) (p + 1) = (r, p')" by (simp add: wait_loop.simps [of clk l n])
    then show ?thesis using "1.IH" True by fastforce
  next
    case False
    then show ?thesis using "1.prems" by (auto simp: wait_loop.simps [of clk l n] split: if_splits)
  qed
qed

lemma nextId_reads: "nextId clk p g = (i, g', p') \<Longrightarrow> p < p'"
  by (auto simp: nextId_def sf_issue_def Let_def split: if_splits prod.splits option.splits dest!: wait_loop_reads)

definition same_node :: "sf \<Rightarrow> sf \<Rightarrow> bool" where
  "same_node g h \<longleftrightarrow> m_datacenterId h = m_datacenterId g \<and> m_workerId h = m_workerId g"

text \<open>A run: up to the first failure every identifier is of a later state than the one before; all are of states of the same node.\<close>

lemma sf_run_mono:
  assumes "mono clk" "\<And>k. in_range (clk k)"
  shows "sf_run clk n p g = (ids, g', p') \<Longrightarrow> sf_wf g \<Longrightarrow> m_lastTimestamp g \<le> clk p \<Longrightarrow>
    length ids = n \<and> sorted_wrt (<) (takeWhile (\<lambda>i. i \<noteq> 0) ids) \<and>
    (\<forall>i\<in>set (takeWhile (\<lambda>i. i \<noteq> 0) ids). \<exists>h. i = sf_id h \<and> sf_wf h \<and> in_range (m_lastTimestamp h) \<and> sf_after g h) \<and>
    (\<forall>i\<in>set ids. i = 0 \<or> (\<exists>h. i = sf_id h \<and> sf_wf h \<and> in_range (m_lastTimestamp h) \<and> same_node g h))"
proof (induction n arbitrary: p g "ids")
  case 0
  then show ?case by simp
next
  case (Suc n)
  from Suc.prems(1) obtain i g1 p1 ids' where c: "nextId clk p g = (i, g1, p1)"
    and r: "sf_run clk n p1 g1 = (ids', g', p')" and ids: "ids = i # ids'" by (auto split: prod.splits)
  have p1: "clk p \<le> clk p1" "clk (p1 - 1) \<le> clk p1" using nextId_reads [OF c] assms(1) by (simp_all add: mono_def)
  from nextId_mono [OF assms(1) Suc.prems(2,3) c] show ?case
  proof
    assume f: "i = 0 \<and> m_lastTimestamp g = clk p \<and> m_sequence g = 4095 \<and> g1 = g\<lparr>m_sequence := 0\<rparr>"
    then have "sf_wf g1" "m_lastTimestamp g1 \<le> clk p1" using Suc.prems(2) p1 by (simp_all add: sf_wf_def)
    from Suc.IH [OF r this] f show ?thesis by (simp add: ids same_node_def)
  next
    assume 1: "i = sf_id g1 \<and> sf_after g g1 \<and> sf_wf g1 \<and> p < p1 \<and> m_lastTimestamp g1 = clk (p1 - 1)"
    then have "m_lastTimestamp g1 \<le> clk p1" using p1 by simp
    note ih = Suc.IH [OF r _ this]
    have rg: "in_range (m_lastTimestamp g1)" using 1 assms(2) by simp
    have less: "i < j \<and> (\<exists>h. j = sf_id h \<and> sf_wf h \<and> in_range (m_lastTimestamp h) \<and> sf_after g h)"
      if "j \<in> set (takeWhile (\<lambda>i. i \<noteq> 0) ids')" for j
    proof -
      from that ih 1 obtain h where "j = sf_id h" "sf_wf h" "in_range (m_lastTimestamp h)" "sf_after g1 h" by blast
      then show ?thesis using sf_id_less [of g1 h] 1 rg sf_after_trans by blast
    qed
    have node: "same_node g g1" "same_node g1 h \<Longrightarrow> same_node g h" for h using 1 by (auto simp: sf_after_def same_node_def)
    have new: "\<exists>h. i = sf_id h \<and> sf_wf h \<and> in_range (m_lastTimestamp h) \<and> sf_after g h \<and> same_node g h" using 1 rg node(1) by blast
    have "i \<noteq> 0 \<Longrightarrow> takeWhile (\<lambda>i. i \<noteq> 0) ids = i # takeWhile (\<lambda>i. i \<noteq> 0) ids'" by (simp add: ids)
    moreover have "i = 0 \<Longrightarrow> takeWhile (\<lambda>i. i \<noteq> 0) ids = []" by (simp add: ids)
    moreover have "j = 0 \<or> (\<exists>h. j = sf_id h \<and> sf_wf h \<and> in_range (m_lastTimestamp h) \<and> same_node g h)" if "j \<in> set ids'" for j
      using ih 1 that node(2) by blast
    ultimately show ?thesis using ih 1 less new by (cases "i = 0") (auto simp: ids)
  qed
qed

lemma sf_new_wf:
  "sf_new dc w = Inr g \<Longrightarrow> sf_wf g \<and> m_lastTimestamp g = - 1 \<and> 0 \<le> dc \<and> 0 \<le> w \<and>
     unat (m_datacenterId g) = nat dc \<and> unat (m_workerId g) = nat w \<and> m_sequence g = 0"
  by (auto simp: sf_new_def sf_wf_def unat_word_of_int nat_less_iff split: if_splits)

text \<open>
  C8: uniqueness. For a clock that never goes back, the identifiers one generator issues up to its first failure (result 0) are
  strictly increasing, so never repeated; and every identifier it issues, also after a failure, carries its datacenter and worker
  numbers, so generators with different numbers never collide. (After a failure it can repeat itself: \<open>snowflake_reissue_after_failure\<close>.)
\<close>

theorem snowflake_increasing:
  assumes "sf_new dc w = Inr g" and "mono clk" and "\<And>k. in_range (clk k)" and "sf_run clk n p g = (ids, g', p')"
  shows "length ids = n \<and> sorted_wrt (<) (takeWhile (\<lambda>i. i \<noteq> 0) ids) \<and> distinct (takeWhile (\<lambda>i. i \<noteq> 0) ids) \<and>
    (\<forall>i\<in>set ids. i = 0 \<or> (unat (drop_bit 17 i) mod 32 = nat dc \<and> unat (drop_bit 12 i) mod 32 = nat w))"
proof -
  note new = sf_new_wf [OF assms(1)]
  have "m_lastTimestamp g \<le> clk p" using new assms(3) [of p] by (simp add: in_range_def EPOCH_def)
  note r = sf_run_mono [OF assms(2,3,4) _ this]
  have "unat (drop_bit 17 (sf_id h)) mod 32 = nat dc \<and> unat (drop_bit 12 (sf_id h)) mod 32 = nat w"
    if "sf_wf h" "in_range (m_lastTimestamp h)" "same_node g h" for h
    using that assemble_fields [OF that(2)] new by (simp add: sf_id_def sf_wf_def same_node_def)
  with r new show ?thesis by (fastforce simp: strict_sorted_iff)
qed

lemma snowflake_increasing_witness:
  "fst (sf_run (\<lambda>_. 1700000000000) 2 0 \<lparr>m_datacenterId = 3, m_workerId = 7, m_sequence = 0, m_lastTimestamp = - 1\<rparr>)
    = [3159632956621221888, 3159632956621221889] \<and>
   (3159632956621221888 :: u64) < 3159632956621221889 \<and> unat (drop_bit 17 (3159632956621221888 :: u64)) mod 32 = 3"
proof -
  let ?g = "\<lparr>m_datacenterId = 3, m_workerId = 7, m_sequence = 0, m_lastTimestamp = - 1\<rparr>"
    and ?c = "\<lambda>_ :: nat. 1700000000000 :: int"
  have n: "sf_new 3 7 = Inr ?g" by (simp add: sf_new_def)
  have r: "sf_run ?c 2 0 ?g = ([3159632956621221888, 3159632956621221889],
      \<lparr>m_datacenterId = 3, m_workerId = 7, m_sequence = 1, m_lastTimestamp = 1700000000000\<rparr>, 2)"
    by code_simp
  have "mono ?c" "\<And>k. in_range (?c k)" by (simp_all add: mono_def in_range_def EPOCH_def)
  from snowflake_increasing [OF n this r] r show ?thesis by simp
qed

text \<open>
  when a call fails. For a clock that never goes back, \<open>nextId\<close> answers 0 exactly when the
  4096 numbers of the millisecond are used up and five more readings all show that millisecond.
\<close>

theorem snowflake_fails_iff:
  assumes "sf_wf g" and "mono clk" and "\<And>k. in_range (clk k) \<and> EPOCH < clk k" and "m_lastTimestamp g \<le> clk p"
  shows "fst (nextId clk p g) = 0 \<longleftrightarrow>
    m_sequence g = 4095 \<and> clk p = m_lastTimestamp g \<and> clk (p + 5) = m_lastTimestamp g"
proof -
  have nz: "assemble (clk k) (m_datacenterId g) (m_workerId g) sq \<noteq> 0" if "unat sq < 4096" for k sq
  proof
    assume "assemble (clk k) (m_datacenterId g) (m_workerId g) sq = 0"
    then have "nat (clk k - EPOCH) = 0"
      using unat_assemble [of "clk k"  "m_datacenterId g" "m_workerId g" sq] assms(1,3) that
      by (simp add: sf_wf_def)
    with assms(3) [of k] show False by simp
  qed
  obtain i g' p' where c: "nextId clk p g = (i, g', p')" by (metis prod_cases3)
  have m: "clk j \<le> clk k" if "j \<le> k" for j k using assms(2) that by (simp add: mono_def)
  have wl: "(case wait_loop clk (clk p) 0 (clk p) (p + 1) of (None, _) \<Rightarrow> False | (Some t', _) \<Rightarrow> t' \<le> clk p)
      \<longleftrightarrow> clk (p + 5) = clk p"
    using wait_loop_timeout [of "clk p" clk "p + 1"] m [of p "p + 1"] m [of "p + 1" "p + 2"]
      m [of "p + 2" "p + 3"] m [of "p + 3" "p + 4"] m [of "p + 4" "p + 5"] by (simp add: numeral_eq_Suc)
  from nextId_mono [OF assms(2,1,4) c] show ?thesis
  proof
    assume f: "i = 0 \<and> m_lastTimestamp g = clk p \<and> m_sequence g = 4095 \<and> g' = g\<lparr>m_sequence := 0\<rparr>"
    have "clk (p + 5) = clk p"
    proof (rule ccontr)
      assume "clk (p + 5) \<noteq> clk p"
      then have "\<not> (case wait_loop clk (clk p) 0 (clk p) (p + 1) of (None, _) \<Rightarrow> False | (Some t', _) \<Rightarrow> t' \<le> clk p)"
        using wl by simp
      moreover obtain t' p2 where w: "wait_loop clk (clk p) 0 (clk p) (p + 1) = (Some t', p2)"
        "t' = clk p \<or> t' = clk (p2 - 1)"
        using wait_loop_mono [of "p + 1" "clk p" clk "clk p" 0] m by auto
      ultimately have "\<exists>k. i = assemble (clk k) (m_datacenterId g) (m_workerId g) 0"
        using f c by (auto simp: nextId_def Let_def sf_issue_def)
      with nz [of 0] f show False by auto
    qed
    with f c show ?thesis by simp
  next
    assume s: "i = sf_id g' \<and> sf_after g g' \<and> sf_wf g' \<and> p < p' \<and> m_lastTimestamp g' = clk (p' - 1)"
    then have "i \<noteq> 0" using nz by (simp add: sf_id_def sf_wf_def sf_after_def)
    moreover have "clk (p + 5) \<noteq> m_lastTimestamp g" if sq: "m_sequence g = 4095" and p: "clk p = m_lastTimestamp g"
    proof
      assume "clk (p + 5) = m_lastTimestamp g"
      then have "case wait_loop clk (clk p) 0 (clk p) (p + 1) of (None, _) \<Rightarrow> False | (Some t', _) \<Rightarrow> t' \<le> clk p"
        using wl p by simp
      then have "i = 0" using c sq p by (auto simp: nextId_def Let_def split: prod.splits option.splits)
      with \<open>i \<noteq> 0\<close> show False by simp
    qed
    ultimately show ?thesis using c by auto
  qed
qed

lemma snowflake_fails_iff_witness:
  "fst (nextId (\<lambda>_. 1700000000000) 0 \<lparr>m_datacenterId = 3, m_workerId = 7, m_sequence = 4095,
     m_lastTimestamp = 1700000000000\<rparr>) = 0"
  by (subst snowflake_fails_iff) (simp_all add: sf_wf_def mono_def in_range_def EPOCH_def)

text \<open>After \<open>n + 1\<close> calls on a stopped clock the sequence is \<open>n\<close>.\<close>

lemma nextId_stopped:
  assumes "unat (m_sequence g) < 4095" and "m_lastTimestamp g = t"
  shows "nextId (\<lambda>_. t) p g = sf_issue (g\<lparr>m_sequence := m_sequence g + 1\<rparr>) t (p + 1)"
proof -
  let ?s = "m_sequence g"
  have s: "unat ?s < 4096" using assms by simp
  have "unat (?s + 1) = unat ?s + 1" using assms(1) by (simp add: unat_word_ariths)
  then have e: "(?s + 1) AND 4095 = ?s + 1"
    using unat_eq_word [of "(?s + 1) AND 4095" "?s + 1"] next_seq [OF s] assms(1) by simp
  moreover have "?s + 1 \<noteq> 0" using \<open>unat (?s + 1) = unat ?s + 1\<close> by auto
  ultimately show ?thesis using assms(2) by (simp add: nextId_def Let_def)
qed


lemma sf_run_stopped:
  "unat (m_sequence g) + n \<le> 4095 \<Longrightarrow> m_lastTimestamp g = t \<Longrightarrow>
   sf_run (\<lambda>_. t) n p g =
     (map (\<lambda>k. assemble t (m_datacenterId g) (m_workerId g) (m_sequence g + 1 + of_nat k)) [0..<n],
      g\<lparr>m_sequence := m_sequence g + of_nat n\<rparr>, p + n)"
proof (induction n arbitrary: g p)
  case 0
  show ?case by simp
next
  case (Suc n)
  let ?g1 = "g\<lparr>m_sequence := m_sequence g + 1\<rparr>"
  have s: "unat (m_sequence g) < 4095" using Suc.prems by simp
  have "unat (m_sequence ?g1) + n \<le> 4095" using Suc.prems s by (simp add: unat_word_ariths)
  from Suc.IH [OF this, of "p + 1"] Suc.prems(2)
  have "sf_run (\<lambda>_. t) n (p + 1) ?g1 =
      (map (\<lambda>k. assemble t (m_datacenterId g) (m_workerId g) (m_sequence g + 1 + 1 + of_nat k)) [0..<n],
       g\<lparr>m_sequence := m_sequence g + 1 + of_nat n\<rparr>, p + 1 + n)" by simp
  moreover have "?g1\<lparr>m_lastTimestamp := t\<rparr> = ?g1" using Suc.prems(2) by (cases g) simp
  ultimately show ?case
    using nextId_stopped [OF s Suc.prems(2), of p]
    by (simp add: sf_issue_def map_upt_Suc algebra_simps del: upt_Suc)
qed

lemma sf_run_append:
  "sf_run clk (m + n) p g = (case sf_run clk m p g of (xs, g1, p1) \<Rightarrow>
     (case sf_run clk n p1 g1 of (ys, r) \<Rightarrow> (xs @ ys, r)))"
  by (induction m arbitrary: p g) (simp_all split: prod.splits)

lemma nextId_overflow_stopped:
  assumes "m_sequence g = 4095" and "m_lastTimestamp g = t"
  shows "nextId (\<lambda>_. t) p g = (0, g\<lparr>m_sequence := 0\<rparr>, p + 6)"
  using assms by (simp add: nextId_def Let_def wait_loop.simps)

text \<open>
  the failed call does not protect the millisecond. On a clock that stands still, a new
  generator issues 4096 identifiers, the next call reports failure, and the call after it starts the
  same millisecond's sequence again: it returns the identifier the second call had returned.
\<close>

theorem snowflake_reissue_after_failure:
  assumes "sf_new dc w = Inr g" and "t \<noteq> - 1"
  shows "fst (sf_run (\<lambda>_. t) 4098 p g) ! 4096 = 0 \<and>
    fst (sf_run (\<lambda>_. t) 4098 p g) ! 4097 = fst (sf_run (\<lambda>_. t) 4098 p g) ! 1"
proof -
  let ?D = "m_datacenterId g" and ?W = "m_workerId g" and ?N = "4095 :: nat"
  from assms(1) have g: "m_sequence g = 0" "m_lastTimestamp g = - 1" using sf_new_wf by simp_all
  define h where "h = g\<lparr>m_sequence := 0, m_lastTimestamp := t\<rparr>"
  have first: "nextId (\<lambda>_. t) p g = (assemble t ?D ?W 0, h, p + 1)"
    using g assms(2) by (simp add: nextId_def sf_issue_def h_def)
  obtain xs where xs: "sf_run (\<lambda>_. t) ?N (p + 1) h = (xs, h\<lparr>m_sequence := of_nat ?N\<rparr>, p + 1 + ?N)"
    "length xs = ?N" "xs ! 0 = assemble t ?D ?W 1"
  proof (rule that)
    show "sf_run (\<lambda>_. t) ?N (p + 1) h = (map (\<lambda>k. assemble t ?D ?W (1 + of_nat k)) [0..<?N],
        h\<lparr>m_sequence := of_nat ?N\<rparr>, p + 1 + ?N)"
      using sf_run_stopped [of h ?N t "p + 1"] by (simp add: h_def del: upt_Suc upt_rec_numeral)
  qed (simp_all del: upt_rec_numeral)
  let ?h0 = "h\<lparr>m_sequence := 0\<rparr>"
  have l: "nextId (\<lambda>_. t) q (h\<lparr>m_sequence := 4095\<rparr>) = (0, ?h0, q + 6)" for q
    using nextId_overflow_stopped [of "h\<lparr>m_sequence := 4095\<rparr>" t q] by (simp add: h_def)
  have a: "nextId (\<lambda>_. t) q ?h0 = (assemble t ?D ?W 1, h\<lparr>m_sequence := 1\<rparr>, q + 1)" for q
    using nextId_stopped [of ?h0 t q] by (simp add: h_def sf_issue_def)
  have "sf_run (\<lambda>_. t) (1 + (?N + 2)) p g =
      (assemble t ?D ?W 0 # xs @ [0, assemble t ?D ?W 1], h\<lparr>m_sequence := 1\<rparr>, p + 1 + ?N + 6 + 1)"
    using xs(1) l a first unfolding sf_run_append by (simp add: numeral_2_eq_2)
  then have r: "fst (sf_run (\<lambda>_. t) 4098 p g) = assemble t ?D ?W 0 # xs @ [0, assemble t ?D ?W 1]" by simp
  show ?thesis unfolding r using xs(2,3) by (simp add: nth_append nth_Cons')
qed

lemma snowflake_reissue_after_failure_witness:
  "fst (sf_run (\<lambda>_. 1700000000000) 4098 0
      \<lparr>m_datacenterId = 3, m_workerId = 7, m_sequence = 0, m_lastTimestamp = - 1\<rparr>) ! 4096 = 0"
proof -
  have "sf_new 3 7 = Inr \<lparr>m_datacenterId = 3, m_workerId = 7, m_sequence = 0, m_lastTimestamp = - 1\<rparr>"
    by (simp add: sf_new_def)
  moreover have "(1700000000000 :: int) \<noteq> - 1" by arith
  ultimately have "fst (sf_run (\<lambda>_. 1700000000000) 4098 0
      \<lparr>m_datacenterId = 3, m_workerId = 7, m_sequence = 0, m_lastTimestamp = - 1\<rparr>) ! 4096 = 0"
    using snowflake_reissue_after_failure by blast
  then show ?thesis .
qed

text \<open>
  a clock set back is noticed only while waiting. If the clock shows \<open>t\<close>, another
  millisecond and \<open>t\<close> again, three calls succeed and the third repeats the first identifier.
\<close>

theorem snowflake_clock_back_repeats:
  assumes "sf_new dc w = Inr g" and "clk p = t" and "clk (p + 1) \<noteq> t" and "clk (p + 2) = t" and "t \<noteq> - 1"
  shows "fst (sf_run clk 3 p g) ! 2 = fst (sf_run clk 3 p g) ! 0"
proof -
  have "m_lastTimestamp g = - 1" using sf_new_wf [OF assms(1)] by simp
  with assms(2-5) show ?thesis
    by (simp add: numeral_3_eq_3 nextId_def sf_issue_def Let_def)
qed

lemma snowflake_clock_back_repeats_witness:
  "fst (sf_run (\<lambda>k. if k = 1 then 1699999999999 else 1700000000000) 3 0
      \<lparr>m_datacenterId = 3, m_workerId = 7, m_sequence = 0, m_lastTimestamp = - 1\<rparr>) ! 2 =
   fst (sf_run (\<lambda>k. if k = 1 then 1699999999999 else 1700000000000) 3 0
      \<lparr>m_datacenterId = 3, m_workerId = 7, m_sequence = 0, m_lastTimestamp = - 1\<rparr>) ! 0"
proof -
  let ?clk = "\<lambda>k :: nat. if k = 1 then 1699999999999 else 1700000000000 :: int"
  have "sf_new 3 7 = Inr \<lparr>m_datacenterId = 3, m_workerId = 7, m_sequence = 0, m_lastTimestamp = - 1\<rparr>"
    and "?clk 0 = 1700000000000" "?clk (0 + 1) \<noteq> 1700000000000" "?clk (0 + 2) = 1700000000000"
    and "(1700000000000 :: int) \<noteq> - 1" by (simp_all add: sf_new_def)
  from snowflake_clock_back_repeats [OF this] show ?thesis .
qed

subsection \<open>The thread's generator\<close>

text \<open>
  A network interface as \<open>getifaddrs\<close> reports it; \<open>if_addr\<close> is \<open>None\<close> for a null address, and the
  eight bytes and the length are those of \<open>sockaddr_ll\<close>. \<open>None\<close> for the list: the call failed.
\<close>

record iface =
  if_name :: string
  if_addr :: "(bool \<times> u8 list \<times> nat) option"

fun all_zero6 :: "u8 list \<Rightarrow> bool" where
  "all_zero6 bs = (\<forall>b\<in>set (take 6 bs). b = 0)"

fun find_mac :: "iface list \<Rightarrow> u8 list option" where
  "find_mac [] = None"
| "find_mac (i # is') =
     (case if_addr i of
        None \<Rightarrow> find_mac is'
      | Some (packet, addr, halen) \<Rightarrow>
          if \<not> packet then find_mac is'
          else if if_name i = ''lo'' then find_mac is'
          else if \<not> all_zero6 addr \<and> halen = 6 then Some (take 6 addr)
          else find_mac is')"

text \<open>\<open>static_cast<size_t>\<close> of a \<open>char\<close> extends its sign; the MAC bytes are unsigned.\<close>

definition host_hash :: "u8 list \<Rightarrow> u64" where
  "host_hash hostname = foldl (\<lambda>h c. h * 31 + word_of_int (sint c)) 0
     (takeWhile (\<lambda>c. c \<noteq> 0) (take 256 hostname))"

definition mac_hash :: "u64 \<Rightarrow> u8 list \<Rightarrow> u64" where
  "mac_hash h mac = foldl (\<lambda>h b. h * 256 + word_of_int (uint b)) h mac"

definition getHostMacHash :: "u8 list \<Rightarrow> iface list option \<Rightarrow> u64" where
  "getHostMacHash hostname ifs =
     (case Option.bind ifs find_mac of
        None \<Rightarrow> host_hash hostname
      | Some mac \<Rightarrow> mac_hash (host_hash hostname) mac)"

record sf_env =
  e_hostname :: "u8 list"
  e_ifaces :: "iface list option"
  e_threadId :: "u8 list"

record sf_config =
  s_customDatacenterId :: int
  s_customWorkerId :: int

definition sf_config0 :: sf_config where
  "sf_config0 = \<lparr>s_customDatacenterId = - 1, s_customWorkerId = - 1\<rparr>"

definition initSnowflake :: "int \<Rightarrow> int \<Rightarrow> sf_config \<Rightarrow> sf_config" where
  "initSnowflake dc w c = c\<lparr>s_customDatacenterId := dc, s_customWorkerId := w\<rparr>"

text \<open>\<open>%\<close> on \<open>int64_t\<close> rounds to zero: \<open>smod\<close>.\<close>

definition sf_numbers :: "sf_env \<Rightarrow> sf_config \<Rightarrow> int \<times> int" where
  "sf_numbers env c =
     (if s_customDatacenterId c \<ge> 0 then s_customDatacenterId c smod 32
        else sint (getHostMacHash (e_hostname env) (e_ifaces env)) smod 32,
      if s_customWorkerId c \<ge> 0 then s_customWorkerId c smod 32
        else int (unat (foldl (\<lambda>h ch. h * 31 + word_of_int (sint ch)) (0 :: u64) (e_threadId env)) mod 32))"

definition generateSnowflakeId ::
  "sf_env \<Rightarrow> sf_config \<Rightarrow> (nat \<Rightarrow> int) \<Rightarrow> nat \<Rightarrow> sf option \<Rightarrow> (sf_error + u64) \<times> sf option \<times> nat" where
  "generateSnowflakeId env c clk p gen =
     (case (case gen of Some g \<Rightarrow> Inr g | None \<Rightarrow> (case sf_numbers env c of (d, w) \<Rightarrow> sf_new d w)) of
        Inl e \<Rightarrow> (Inl e, gen, p)
      | Inr g \<Rightarrow> (case nextId clk p g of (i, g', p') \<Rightarrow> (Inr i, Some g', p')))"

lemma sf_new_ok: "0 \<le> d \<Longrightarrow> d < 32 \<Longrightarrow> 0 \<le> w \<Longrightarrow> w < 32 \<Longrightarrow> \<exists>g. sf_new d w = Inr g"
  by (auto simp: sf_new_def)

lemma smod32_range: "0 \<le> (i :: int) \<Longrightarrow> 0 \<le> i smod 32 \<and> i smod 32 < 32"
  by (cases "i = 0") (auto simp: signed_modulo_int_def)

lemma smod32_neg:
  assumes "(i :: int) < 0"
  shows "i smod 32 \<le> 0 \<and> (i smod 32 = 0 \<longleftrightarrow> i mod 32 = 0)"
proof -
  have "i smod 32 = - ((- i) mod 32)" using assms by (simp add: signed_modulo_int_def)
  moreover have "(- i) mod 32 = 0 \<longleftrightarrow> i mod 32 = 0" by presburger
  moreover have "0 \<le> (- i) mod 32" by simp
  ultimately show ?thesis by linarith
qed

lemma smod32_less: "(i :: int) smod 32 < 32" "i smod 32 < 0 \<longleftrightarrow> i < 0 \<and> i mod 32 \<noteq> 0"
  using smod32_range [of i] smod32_neg [of i] by (cases "i < 0"; force)+

text \<open>
  which configurations work. A thread with a generator never gets an exception, nor does one
  with a configured datacenter. Without one, the first call throws exactly when the host's hash is
  negative as \<open>int64_t\<close> and not a multiple of 32, because \<open>%\<close> keeps the sign: so on about half of
  all hosts, for example the host \<open>web\<close> with the MAC address 0:0:0:0:0:1.
\<close>

theorem generate_default_throws_iff:
  "isl (fst (generateSnowflakeId env c clk p gen)) \<longleftrightarrow>
     gen = None \<and> s_customDatacenterId c < 0 \<and>
     sint (getHostMacHash (e_hostname env) (e_ifaces env)) < 0 \<and>
     sint (getHostMacHash (e_hostname env) (e_ifaces env)) mod 32 \<noteq> 0"
proof -
  let ?h = "sint (getHostMacHash (e_hostname env) (e_ifaces env))"
  obtain d w where dw: "sf_numbers env c = (d, w)" by fastforce
  have w: "0 \<le> w" "w < 32"
    using dw by (auto simp: sf_numbers_def smod32_range split: if_splits)
  have d: "d < 32" "d < 0 \<longleftrightarrow> s_customDatacenterId c < 0 \<and> ?h < 0 \<and> ?h mod 32 \<noteq> 0"
    using dw smod32_less by (auto simp: sf_numbers_def split: if_splits)
  have "isl (sf_new d w) \<longleftrightarrow> d < 0" using d(1) w by (auto simp: sf_new_def)
  then show ?thesis
    unfolding d(2) by (auto simp: generateSnowflakeId_def dw split: option.splits sum.splits prod.splits)
qed

lemma default_throws_example:
  "isl (fst (generateSnowflakeId \<lparr>e_hostname = [119, 101, 98, 0],
     e_ifaces = Some [\<lparr>if_name = ''eth0'', if_addr = Some (True, [0, 0, 0, 0, 0, 1, 0, 0], 6)\<rparr>],
     e_threadId = [49]\<rparr> sf_config0 (\<lambda>_. 1700000000000) 0 None))"
  by code_simp

subsection \<open>Identifiers in paths\<close>

definition safe_char :: "char \<Rightarrow> bool" where
  "safe_char c \<longleftrightarrow> is_lower c \<or> is_upper c \<or> is_digit c \<or> c = CHR ''-''"

definition isSafeId :: "string \<Rightarrow> bool" where
  "isSafeId s \<longleftrightarrow> \<not> (s = [] \<or> 64 < length s) \<and> (\<forall>c\<in>set s. safe_char c)"

text \<open>
  a safe identifier can be a path segment: it is not empty, at most 64 bytes, and contains no
  separator, dot, quote, white space, control byte or byte above 127. The underscore that the
  module list in the documentation names is rejected too.
\<close>

theorem safe_id_harmless:
  assumes "isSafeId s"
  shows "s \<noteq> [] \<and> length s \<le> 64 \<and>
    (\<forall>c\<in>set s. c \<notin> {CHR ''/'', CHR 0x5C, CHR ''.'', CHR 0x22, CHR 0x27, CHR ''_''} \<and> \<not> is_space c \<and>
       32 < code_of c \<and> code_of c < 128)"
proof -
  have "c \<notin> {CHR ''/'', CHR 0x5C, CHR ''.'', CHR 0x22, CHR 0x27, CHR ''_''} \<and> \<not> is_space c \<and>
       32 < code_of c \<and> code_of c < 128" if "safe_char c" for c
  proof -
    from that have "code_of c \<in> {97..122} \<union> {65..90} \<union> {48..57} \<union> {45}"
      by (auto simp: safe_char_def is_lower_def is_upper_def is_digit_def) (simp_all add: code_of_def)
    then show ?thesis by (auto simp: is_space_def) (auto simp: code_of_def)
  qed
  with assms show ?thesis by (auto simp: isSafeId_def)
qed

lemma safe_id_harmless_witness: "isSafeId ''550e8400-e29b'' \<and> CHR ''/'' \<notin> set ''550e8400-e29b''"
proof -
  have s: "isSafeId ''550e8400-e29b''" by code_simp
  from safe_id_harmless [OF s] s show ?thesis by blast
qed

end
