(* ===== verification/Fw_Uuid.thy ===== *)
theory Fw_Uuid
  imports Fw_Snowflake
begin

section \<open>UUIDs and textual ids\<close>

text \<open>
  The UUID functions of \<open>src/IdUtil.cpp\<close>. Boost's generator is a parameter: \<open>fresh\<close> a new one, \<open>next\<close> the text of its next UUID
  and the generator afterwards. A generator belongs to a thread and is made by the first call; \<open>None\<close> is a thread that has none yet.
\<close>

subsection \<open>Operations\<close>

definition generateV4 :: "'g \<Rightarrow> ('g \<Rightarrow> string \<times> 'g) \<Rightarrow> 'g option \<Rightarrow> string \<times> 'g option" where
  "generateV4 fresh next generator =
     (let g = (case generator of None \<Rightarrow> fresh | Some g \<Rightarrow> g)
      in case next g of (u, g') \<Rightarrow> (u, Some g'))"

definition generateTimedV4 :: "int \<Rightarrow> 'g \<Rightarrow> ('g \<Rightarrow> string \<times> 'g) \<Rightarrow> 'g option \<Rightarrow> string \<times> 'g option" where
  "generateTimedV4 us fresh next generator =
     (case generateV4 fresh next generator of (u, g') \<Rightarrow> (show_int us @ ''-'' @ u, g'))"

definition generateSnowflakeIdStr ::
  "sf_env \<Rightarrow> sf_config \<Rightarrow> (nat \<Rightarrow> int) \<Rightarrow> nat \<Rightarrow> sf option \<Rightarrow> (sf_error + string) \<times> sf option \<times> nat" where
  "generateSnowflakeIdStr env c clk p gen =
     (case generateSnowflakeId env c clk p gen of
        (Inl e, gen', p') \<Rightarrow> (Inl e, gen', p')
      | (Inr i, gen', p') \<Rightarrow> (Inr (show_int (sint i)), gen', p'))"

subsection \<open>Ids in use\<close>

text \<open>The texts of UUIDs as Boost documents them: 36 lower-case hexadecimal digits and hyphens, these at four places.\<close>

definition uuid_text :: "string \<Rightarrow> bool" where
  "uuid_text u \<longleftrightarrow> length u = 36 \<and>
     (\<forall>i<36. if i \<in> {8, 13, 18, 23} then u ! i = CHR ''-'' else is_digit (u ! i) \<or> u ! i \<in> set ''abcdef'')"

lemma uuid_text_safe:
  assumes "uuid_text u" shows "c \<in> set u \<Longrightarrow> safe_char c"
proof -
  assume "c \<in> set u"
  then obtain i where "i < 36" "c = u ! i" using assms by (auto simp: uuid_text_def in_set_conv_nth)
  then have "c = CHR ''-'' \<or> is_digit c \<or> c \<in> set ''abcdef''" using assms by (auto simp: uuid_text_def split: if_splits)
  then show ?thesis by (auto simp: safe_char_def is_lower_def code_of_def)
qed

lemma show_nat_length: "n < 10 ^ Suc k \<Longrightarrow> length (show_nat n) \<le> Suc k"
proof (induction k arbitrary: n)
  case (Suc k)
  then have "n div 10 < 10 ^ Suc k" by (simp add: less_mult_imp_div_less)
  from Suc.IH [OF this] show ?case by (subst show_nat.simps) simp
qed (subst show_nat.simps, simp)

lemma show_nat_safe: "c \<in> set (show_nat n) \<Longrightarrow> safe_char c"
  using show_nat_digits by (simp add: safe_char_def)

text \<open>
  timed ids. An id of \<open>generateTimedV4\<close> is accepted by \<open>isSafeId\<close>, for every microsecond up to the end of the 64-bit clock; its part before the
  first hyphen is the time it was made at and the rest is its UUID, so ids made at different times differ; a thread makes its generator once.
\<close>

theorem timed_id:
  assumes "generateTimedV4 us fresh next generator = (i, generator')" "0 \<le> us" "us < 2 ^ 63" "\<And>g. uuid_text (fst (next g))"
  shows "isSafeId i \<and> digits_val (takeWhile is_digit i) = nat us \<and>
    (\<exists>g. uuid_text (fst (next g)) \<and> i = takeWhile is_digit i @ ''-'' @ fst (next g) \<and> generator' = Some (snd (next g)) \<and>
       (case generator of None \<Rightarrow> g = fresh | Some g0 \<Rightarrow> g = g0))"
proof -
  define g where "g = (case generator of None \<Rightarrow> fresh | Some g \<Rightarrow> g)"
  have i: "i = show_nat (nat us) @ ''-'' @ fst (next g)" "generator' = Some (snd (next g))"
    using assms(1,2) by (auto simp: generateTimedV4_def generateV4_def g_def Let_def show_int_def split: prod.splits)
  have "\<not> is_digit (CHR ''-'')" by (simp add: is_digit_def code_of_def)
  then have t: "takeWhile is_digit i = show_nat (nat us)" unfolding i(1) by (intro takeWhile_show_nat) simp
  have "nat us < 10 ^ Suc 18" using assms(2,3) by simp
  from show_nat_length [OF this] have l: "length i \<le> 64" using assms(4) [of g] by (simp add: i(1) uuid_text_def)
  have "\<forall>c\<in>set i. safe_char c"
    using uuid_text_safe [OF assms(4) [of g]] show_nat_safe by (auto simp: i(1) safe_char_def)
  with l have "isSafeId i" by (auto simp: isSafeId_def i(1))
  moreover have "case generator of None \<Rightarrow> g = fresh | Some g0 \<Rightarrow> g = g0" by (simp add: g_def split: option.split)
  ultimately show ?thesis using t i assms(4) by auto
qed

definition uuid_source :: "nat \<Rightarrow> string \<times> nat" where
  "uuid_source n = (''550e8400-e29b-41d4-a716-446655440000'', n + 1)"

lemma timed_id_witness:
  "isSafeId (fst (generateTimedV4 1700000000123456 0 uuid_source None)) \<and> snd (generateTimedV4 1700000000123456 0 uuid_source None) = Some 1"
proof -
  have u: "uuid_text (fst (uuid_source g))" for g
  proof -
    have "uuid_text ''550e8400-e29b-41d4-a716-446655440000''" by code_simp
    then show ?thesis by (simp add: uuid_source_def)
  qed
  obtain i g' where r: "generateTimedV4 1700000000123456 0 uuid_source None = (i, g')" by fastforce
  from timed_id [OF r _ _ u] have "isSafeId i" by simp
  moreover have "g' = Some 1" using r by (auto simp: generateTimedV4_def generateV4_def uuid_source_def)
  ultimately show ?thesis using r by simp
qed

end
