(* ===== verification/Fw_Base64.thy ===== *)
theory Fw_Base64
  imports Fw_Prelude
begin

section \<open>Base64\<close>

text \<open>
  The two private codecs: \<open>JwtUtil::base64UrlEncode\<close>/\<open>base64UrlDecode\<close> and
  \<open>PasswordUtil::base64Encode\<close>/\<open>base64Decode\<close> (the same tables and loops, with and without the
  URL alphabet), and the wrapper \<open>src/Base64.cpp\<close>, which guards libhv's codec (a parameter).
  The accumulator is 32 bits wide, the decoded values 8 bits, as in the sources.
\<close>

subsection \<open>Tables\<close>

definition b64_table :: string where
  "b64_table = ''ABCDEFGHIJKLMNOPQRSTUVWXYZabcdefghijklmnopqrstuvwxyz0123456789+/''"

definition decode_table :: "nat list" where
  "decode_table =
     replicate 32 255 @
     [255,255,255,255,255,255,255,255,255,255,255, 62,255,255,255, 63,
       52, 53, 54, 55, 56, 57, 58, 59, 60, 61,255,255,255,  0,255,255,
      255,  0,  1,  2,  3,  4,  5,  6,  7,  8,  9, 10, 11, 12, 13, 14,
       15, 16, 17, 18, 19, 20, 21, 22, 23, 24, 25,255,255,255,255,255,
      255, 26, 27, 28, 29, 30, 31, 32, 33, 34, 35, 36, 37, 38, 39, 40,
       41, 42, 43, 44, 45, 46, 47, 48, 49, 50, 51,255,255,255,255,255] @
     replicate 128 255"

definition b64_char :: "u32 \<Rightarrow> char" where
  "b64_char n = b64_table ! unat (n AND 63)"

definition b64_value :: "char \<Rightarrow> u8" where
  "b64_value c = of_nat (decode_table ! code_of c)"

subsection \<open>PasswordUtil: the standard alphabet\<close>

definition byte32 :: "char \<Rightarrow> u32" where
  "byte32 c = of_nat (code_of c)"

text \<open>One round of the loop per recursive call: \<open>x\<close> is the byte at \<open>i\<close>, \<open>r\<close> the bytes after it.\<close>

function base64Encode :: "string \<Rightarrow> string" where
  "base64Encode [] = []"
| "base64Encode (x # r) =
     (let n0 = push_bit 16 (byte32 x);
          n1 = (if 0 < length r then n0 OR push_bit 8 (byte32 (r ! 0)) else n0);
          n = (if 1 < length r then n1 OR byte32 (r ! 1) else n1)
      in [b64_char (drop_bit 18 n), b64_char (drop_bit 12 n),
          if 0 < length r then b64_char (drop_bit 6 n) else CHR ''='',
          if 1 < length r then b64_char n else CHR ''=''] @ base64Encode (drop 2 r))"
  by pat_completeness auto
termination by (relation "measure length") auto

definition to_byte :: "u8 \<Rightarrow> char" where
  "to_byte w = char_of (unat w)"

fun base64Decode :: "string \<Rightarrow> string" where
  "base64Decode (e0 # e1 # e2 # e3 # r) =
     (let a = b64_value e0; b = b64_value e1; c = b64_value e2; d = b64_value e3
      in if a = 255 \<or> b = 255 then []
         else to_byte (push_bit 2 a OR drop_bit 4 b) #
              (if e2 \<noteq> CHR ''='' \<and> c \<noteq> 255
               then to_byte (push_bit 4 (b AND 15) OR drop_bit 2 c) #
                    (if e3 \<noteq> CHR ''='' \<and> d \<noteq> 255 then [to_byte (push_bit 6 (c AND 3) OR d)] else [])
               else []) @ base64Decode r)"
| "base64Decode _ = []"

subsection \<open>JwtUtil: the URL alphabet\<close>

definition url_char :: "char \<Rightarrow> char" where
  "url_char c = (if c = CHR ''+'' then CHR ''-'' else if c = CHR ''/'' then CHR ''_'' else c)"

definition std_char :: "char \<Rightarrow> char" where
  "std_char c = (if c = CHR ''-'' then CHR ''+'' else if c = CHR ''_'' then CHR ''/'' else c)"

definition base64UrlEncode :: "string \<Rightarrow> string" where
  "base64UrlEncode s = rev (dropWhile (\<lambda>c. c = CHR ''='') (rev (map url_char (base64Encode s))))"

function pad4 :: "string \<Rightarrow> string" where
  "pad4 s = (if length s mod 4 \<noteq> 0 then pad4 (s @ ''='') else s)"
  by pat_completeness auto
termination
proof (relation "measure (\<lambda>s. (4 - length s mod 4) mod 4)")
  fix s :: string
  assume "length s mod 4 \<noteq> 0"
  then have "length s mod 4 = 1 \<or> length s mod 4 = 2 \<or> length s mod 4 = 3" by linarith
  then show "(s @ ''='', s) \<in> measure (\<lambda>s. (4 - length s mod 4) mod 4)"
    by (elim disjE) (simp_all add: mod_Suc)
qed simp

declare pad4.simps [simp del]

definition base64UrlDecode :: "string \<Rightarrow> string" where
  "base64UrlDecode s = base64Decode (pad4 (map std_char s))"

subsection \<open>The wrapper of libhv's codec\<close>

text \<open>A null pointer is \<open>None\<close>; the length is cast to 32 bits before the call.\<close>

definition Base64_encode :: "(string \<Rightarrow> u32 \<Rightarrow> string) \<Rightarrow> string option \<Rightarrow> u64 \<Rightarrow> string" where
  "Base64_encode hv_encode p len =
     (case p of None \<Rightarrow> [] | Some s \<Rightarrow> if len = 0 then [] else hv_encode s (word_of_int (uint len)))"

definition Base64_decode :: "(string \<Rightarrow> u32 \<Rightarrow> string) \<Rightarrow> string option \<Rightarrow> u64 \<Rightarrow> string" where
  "Base64_decode hv_decode p len =
     (case p of None \<Rightarrow> [] | Some s \<Rightarrow> if len = 0 then [] else hv_decode s (word_of_int (uint len)))"

definition Base64_encode_str :: "(string \<Rightarrow> u32 \<Rightarrow> string) \<Rightarrow> string \<Rightarrow> string" where
  "Base64_encode_str hv_encode s = (if s = [] then [] else Base64_encode hv_encode (Some s) (of_nat (length s)))"

definition Base64_decode_str :: "(string \<Rightarrow> u32 \<Rightarrow> string) \<Rightarrow> string \<Rightarrow> string" where
  "Base64_decode_str hv_decode s = (if s = [] then [] else Base64_decode hv_decode (Some s) (of_nat (length s)))"

subsection \<open>The round trips\<close>


definition pack3 :: "u32 \<Rightarrow> u32 \<Rightarrow> u32 \<Rightarrow> u32" where
  "pack3 x y z = (push_bit 16 x OR push_bit 8 y) OR z"

lemma base64Encode_small:
  "base64Encode [x] = (let n = pack3 (byte32 x) 0 0 in
     [b64_char (drop_bit 18 n), b64_char (drop_bit 12 n), CHR ''='', CHR ''=''])"
  "base64Encode [x, y] = (let n = pack3 (byte32 x) (byte32 y) 0 in
     [b64_char (drop_bit 18 n), b64_char (drop_bit 12 n), b64_char (drop_bit 6 n), CHR ''=''])"
  "base64Encode (x # y # z # r) = (let n = pack3 (byte32 x) (byte32 y) (byte32 z) in
     [b64_char (drop_bit 18 n), b64_char (drop_bit 12 n), b64_char (drop_bit 6 n), b64_char n] @ base64Encode r)"
  by (simp_all add: Let_def pack3_def)

lemma decode_table_of_table: "map (\<lambda>c. decode_table ! code_of c) b64_table = [0..<64]"
  by (simp add: b64_table_def code_of_def) (simp add: decode_table_def nth_append upt_rec)

lemma length_b64_table: "length b64_table = 64"
  by (simp add: b64_table_def)

lemma table_special: "set b64_table \<inter> {CHR ''='', CHR ''-'', CHR ''_'', CHR ''.''} = {}"
  by (simp add: b64_table_def)

lemma table_inverse:
  assumes "k < 64"
  shows "b64_value (b64_table ! k) = of_nat k"
proof -
  have "map (\<lambda>c. decode_table ! code_of c) b64_table ! k = k"
    unfolding decode_table_of_table using assms by simp
  with assms show ?thesis by (simp add: b64_value_def length_b64_table)
qed

lemma unat_and63: "unat (n AND 63 :: u32) < 64"
proof -
  have "n AND 63 = take_bit 6 n" by (simp add: take_bit_eq_mask mask_eq_exp_minus_1)
  then have "unat (n AND 63) = take_bit 6 (unat n)" by (simp add: unsigned_take_bit_eq)
  then show ?thesis by (simp add: take_bit_nat_less_exp [of 6, simplified])
qed

lemma value_char: "b64_value (b64_char n) = ucast (n AND 63)"
  using table_inverse [OF unat_and63 [of n]] by (simp add: b64_char_def of_nat_unat)

lemma b64_char_in_table: "b64_char n \<in> set b64_table"
  unfolding b64_char_def by (rule nth_mem) (simp only: length_b64_table unat_and63)

lemma char_not_special: "b64_char n \<noteq> CHR ''=''"
  using b64_char_in_table [of n] table_special by blast

lemma value_char_255: "b64_value (b64_char n) \<noteq> 255"
proof -
  have "unat (ucast (n AND 63) :: u8) < 64"
    using unat_and63 [of n] by (simp add: unsigned_ucast_eq take_bit_nat_eq_self)
  then show ?thesis unfolding value_char by auto
qed

lemma bit_byte32: "bit (byte32 c) i \<longleftrightarrow> i < 8 \<and> bit (code_of c) i"
proof -
  have "take_bit 8 (code_of c) = code_of c"
    using code_of_less [of c] by (simp add: take_bit_nat_eq_self)
  then have "bit (code_of c) i \<Longrightarrow> i < 8" by (metis bit_take_bit_iff)
  then show ?thesis by (auto simp: byte32_def bit_of_nat_iff)
qed

lemma to_byte_eqI: "(\<And>i. i < 8 \<Longrightarrow> bit w i = bit (byte32 c) i) \<Longrightarrow> to_byte w = c"
proof -
  assume b: "\<And>i. i < 8 \<Longrightarrow> bit w i = bit (byte32 c) i"
  have "w = of_nat (code_of c)"
    by (rule bit_word_eqI) (use b in \<open>simp add: bit_byte32 bit_of_nat_iff\<close>)
  then have "unat w = code_of c"
    using code_of_less [of c] by (simp add: unsigned_of_nat take_bit_nat_eq_self)
  then show ?thesis by (simp add: to_byte_def code_of_def)
qed

lemma bit_63: "bit (63 :: u32) i \<longleftrightarrow> i < 6"
  using bit_mask_iff [of 6 i, where 'a = u32] by (auto simp: mask_eq_exp_minus_1)
lemma bit_15: "bit (15 :: u8) i \<longleftrightarrow> i < 4"
  using bit_mask_iff [of 4 i, where 'a = u8] by (auto simp: mask_eq_exp_minus_1)
lemma bit_3: "bit (3 :: u8) i \<longleftrightarrow> i < 2"
  using bit_mask_iff [of 2 i, where 'a = u8] by (auto simp: mask_eq_exp_minus_1)


lemma bit_sextet: "bit (ucast (drop_bit k n AND (63 :: u32)) :: u8) i \<longleftrightarrow> i < 6 \<and> bit n (k + i)"
  by (simp only: bit_unsigned_iff bit_and_iff bit_drop_bit_eq bit_63 o_def) auto

lemma bit_sextet0: "bit (ucast (n AND (63 :: u32)) :: u8) i \<longleftrightarrow> i < 6 \<and> bit n i"
  using bit_sextet [of 0 n i] by simp

definition byte_wide :: "u32 \<Rightarrow> bool" where
  "byte_wide w \<longleftrightarrow> (\<forall>i. bit w i \<longrightarrow> i < 8)"

lemma byte_wide_simps: "byte_wide (byte32 c)" "byte_wide 0"
  by (simp_all add: byte_wide_def bit_byte32)

lemma bit_pack3:
  assumes "byte_wide y" and "byte_wide z"
  shows "bit (pack3 (byte32 x) y z) i \<longleftrightarrow>
    (if i < 8 then bit z i else if i < 16 then bit y (i - 8) else i < 24 \<and> bit (code_of x) (i - 16))"
  unfolding pack3_def bit_or_iff bit_push_bit_iff
  using assms by (auto simp: bit_byte32 byte_wide_def)

lemma lt8_cases: "(i :: nat) < 8 \<Longrightarrow> i = 0 \<or> i = 1 \<or> i = 2 \<or> i = 3 \<or> i = 4 \<or> i = 5 \<or> i = 6 \<or> i = 7"
  by linarith

lemma group_byte1:
  assumes "byte_wide y" and "byte_wide z"
    and n: "n = pack3 (byte32 x) y z"
  shows "to_byte (push_bit 2 (ucast (drop_bit 18 n AND 63)) OR drop_bit 4 (ucast (drop_bit 12 n AND 63))) = x"
proof (rule to_byte_eqI)
  fix i :: nat assume "i < 8"
  show "bit (push_bit 2 (ucast (drop_bit 18 n AND 63) :: u8) OR drop_bit 4 (ucast (drop_bit 12 n AND 63))) i =
      bit (byte32 x) i"
    unfolding bit_or_iff bit_push_bit_iff bit_drop_bit_eq o_def bit_sextet n bit_pack3 [OF assms(1,2)] bit_byte32
    using lt8_cases [OF \<open>i < 8\<close>] by (elim disjE) simp_all
qed

lemma group_byte2:
  assumes "byte_wide z"
    and n: "n = pack3 (byte32 x) (byte32 y) z"
  shows "to_byte (push_bit 4 (ucast (drop_bit 12 n AND 63) AND 15) OR drop_bit 2 (ucast (drop_bit 6 n AND 63))) = y"
proof (rule to_byte_eqI)
  fix i :: nat assume "i < 8"
  show "bit (push_bit 4 (ucast (drop_bit 12 n AND 63) AND 15 :: u8) OR drop_bit 2 (ucast (drop_bit 6 n AND 63))) i =
      bit (byte32 y) i"
    unfolding bit_or_iff bit_and_iff bit_push_bit_iff bit_drop_bit_eq o_def bit_sextet bit_15 n
      bit_pack3 [OF byte_wide_simps(1) assms(1)] bit_byte32
    using lt8_cases [OF \<open>i < 8\<close>] by (elim disjE) simp_all
qed

lemma group_byte3:
  assumes n: "n = pack3 (byte32 x) (byte32 y) (byte32 z)"
  shows "to_byte (push_bit 6 (ucast (drop_bit 6 n AND 63) AND 3) OR ucast (n AND 63)) = z"
proof (rule to_byte_eqI)
  fix i :: nat assume "i < 8"
  show "bit (push_bit 6 (ucast (drop_bit 6 n AND 63) AND 3 :: u8) OR ucast (n AND 63)) i =
      bit (byte32 z) i"
    unfolding bit_or_iff bit_and_iff bit_push_bit_iff bit_drop_bit_eq o_def bit_sextet bit_sextet0 bit_3 n
      bit_pack3 [OF byte_wide_simps(1) byte_wide_simps(1)] bit_byte32
    using lt8_cases [OF \<open>i < 8\<close>] by (elim disjE) simp_all
qed

lemma decode_encode: "base64Decode (base64Encode s) = s"
proof (induction s rule: base64Encode.induct)
  case 1
  show ?case by simp
next
  case (2 x r)
  note y = byte_wide_simps(1) and z = byte_wide_simps(2)
  show ?case
  proof (cases r)
    case Nil
    show ?thesis
      unfolding Nil base64Encode_small Let_def base64Decode.simps value_char
      using value_char_255 [unfolded value_char] group_byte1 [OF z z refl] by simp
  next
    case (Cons y1 r1)
    show ?thesis
    proof (cases r1)
      case Nil
      show ?thesis
        unfolding Cons Nil base64Encode_small Let_def base64Decode.simps value_char
        using value_char_255 [unfolded value_char] char_not_special group_byte1 [OF y z refl]
          group_byte2 [OF z refl] by simp
    next
      case (Cons z1 r2)
      have "base64Decode (base64Encode r2) = r2"
        using "2.IH" \<open>r = y1 # r1\<close> Cons by simp
      then show ?thesis
        unfolding \<open>r = y1 # r1\<close> Cons base64Encode_small Let_def append_Cons append_Nil base64Decode.simps value_char
        using value_char_255 [unfolded value_char] char_not_special group_byte1 [OF y y refl]
          group_byte2 [OF y refl] group_byte3 [OF refl] by simp
    qed
  qed
qed

lemma length_base64Encode: "length (base64Encode s) = (length s + 2) div 3 * 4"
proof (induction s rule: base64Encode.induct)
  case (2 x r)
  show ?case
  proof (cases "length r < 2")
    case True
    then have "r = [] \<or> (\<exists>y. r = [y])" by (cases r) auto
    then show ?thesis by (auto simp: base64Encode_small Let_def)
  next
    case False
    then have "(Suc (length r) + 2) div 3 = Suc ((length (drop 2 r) + 2) div 3)" by simp
    with 2 show ?thesis by (simp add: Let_def)
  qed
qed simp

lemma base64Encode_shape:
  "\<exists>body k. base64Encode s = body @ replicate k CHR ''='' \<and> k < 4 \<and> set body \<subseteq> set b64_table"
proof (induction s rule: base64Encode.induct)
  case 1
  show ?case by (intro exI [of _ "[]"] exI [of _ 0]) simp
next
  case (2 x r)
  note t = b64_char_in_table
  consider "r = []" | y where "r = [y]" | y z q where "r = y # z # q"
    by (metis list.exhaust)
  then show ?case
  proof cases
    case 1
    let ?n = "pack3 (byte32 x) 0 0"
    show ?thesis unfolding 1 base64Encode_small Let_def
      by (intro exI [of _ "[b64_char (drop_bit 18 ?n), b64_char (drop_bit 12 ?n)]"] exI [of _ 2])
        (simp add: t numeral_2_eq_2)
  next
    case (2 y)
    let ?n = "pack3 (byte32 x) (byte32 y) 0"
    show ?thesis unfolding 2 base64Encode_small Let_def
      by (intro exI [of _ "[b64_char (drop_bit 18 ?n), b64_char (drop_bit 12 ?n), b64_char (drop_bit 6 ?n)]"]
          exI [of _ 1]) (simp add: t)
  next
    case (3 y z q)
    from "2.IH" [OF refl refl refl] obtain body k where "base64Encode q = body @ replicate k CHR ''=''" "k < 4"
      "set body \<subseteq> set b64_table" unfolding 3 by auto
    moreover define h where "h = take 4 (base64Encode (x # y # z # q))"
    moreover have "base64Encode (x # y # z # q) = h @ base64Encode q" "set h \<subseteq> set b64_table"
      by (simp_all add: h_def base64Encode_small Let_def t del: base64Encode.simps)
    ultimately show ?thesis unfolding 3
      by (intro exI [of _ "h @ body"] exI [of _ k]) simp
  qed
qed

lemma strip_padding:
  "CHR ''='' \<notin> set b \<Longrightarrow> rev (dropWhile (\<lambda>c. c = CHR ''='') (rev (b @ replicate k CHR ''=''))) = b"
proof -
  assume b: "CHR ''='' \<notin> set b"
  have "dropWhile (\<lambda>c. c = CHR ''='') (replicate k CHR ''='' @ rev b) = dropWhile (\<lambda>c. c = CHR ''='') (rev b)"
    by (induction k) simp_all
  also have "\<dots> = rev b"
    using b by (intro dropWhile_hd) (metis hd_in_set set_rev)
  finally show ?thesis by simp
qed

lemma pad4_replicate: "k < 4 \<Longrightarrow> (length b + k) mod 4 = 0 \<Longrightarrow> pad4 b = b @ replicate k CHR ''=''"
proof (induction k arbitrary: b)
  case 0
  then show ?case by (subst pad4.simps) simp
next
  case (Suc k)
  have "length b mod 4 \<noteq> 0"
  proof
    assume "length b mod 4 = 0"
    with Suc.prems(2) have "Suc k mod 4 = 0" by (metis add_0 mod_add_left_eq)
    with Suc.prems(1) show False by simp
  qed
  then have "pad4 b = pad4 (b @ ''='')" by (subst pad4.simps) simp
  with Suc show ?case by simp
qed

lemma std_url_char: "c \<in> set b64_table \<Longrightarrow> std_char (url_char c) = c" "c \<in> set b64_table \<Longrightarrow> url_char c \<noteq> CHR ''=''"
  using table_special by (auto simp: std_char_def url_char_def)

definition url_alphabet :: string where
  "url_alphabet = ''ABCDEFGHIJKLMNOPQRSTUVWXYZabcdefghijklmnopqrstuvwxyz0123456789-_''"

lemma url_alphabet: "url_char ` set b64_table \<subseteq> set url_alphabet"
  by (simp add: b64_table_def url_alphabet_def url_char_def)

lemma base64UrlEncode_body:
  "\<exists>body k. base64UrlEncode s = map url_char body \<and> base64Encode s = body @ replicate k CHR ''='' \<and> k < 4 \<and>
     set body \<subseteq> set b64_table"
proof -
  obtain body k where b: "base64Encode s = body @ replicate k CHR ''=''" "k < 4" "set body \<subseteq> set b64_table"
    using base64Encode_shape by blast
  have "CHR ''='' \<notin> set (map url_char body)" using b(3) std_url_char(2) by fastforce
  from strip_padding [OF this, of k] b have "base64UrlEncode s = map url_char body"
    by (simp add: base64UrlEncode_def url_char_def)
  with b show ?thesis by blast
qed

lemma url_alphabet_encode: "set (base64UrlEncode s) \<subseteq> set url_alphabet"
  using base64UrlEncode_body [of s] url_alphabet by fastforce

lemma url_decode_encode: "base64UrlDecode (base64UrlEncode s) = s"
proof -
  obtain body k where b: "base64UrlEncode s = map url_char body" "base64Encode s = body @ replicate k CHR ''=''"
    "k < 4" "set body \<subseteq> set b64_table"
    using base64UrlEncode_body by blast
  have "map std_char (map url_char body) = body"
    using b(4) std_url_char(1) by (simp add: map_idI subset_iff)
  moreover have "length (base64Encode s) mod 4 = 0" by (simp add: length_base64Encode)
  then have "pad4 body = base64Encode s" using pad4_replicate [OF b(3)] b(2) by simp
  ultimately show ?thesis unfolding base64UrlDecode_def b(1) by (simp add: decode_encode)
qed

subsection \<open>Properties\<close>

text \<open>
  every byte string survives \<open>PasswordUtil\<close>'s codec, and its code has four characters for every
  started group of three bytes, the size the code reserves.
\<close>

theorem base64_roundtrip:
  "base64Decode (base64Encode s) = s \<and> length (base64Encode s) = (length s + 2) div 3 * 4"
  by (simp add: decode_encode length_base64Encode del: base64Encode.simps)

text \<open>
  C33: every byte string survives the URL codec of \<open>JwtUtil\<close>, although the padding is dropped on the
  way out and put back on the way in, and the code uses the URL alphabet only: no dot, no padding.
\<close>

theorem base64url_roundtrip:
  "base64UrlDecode (base64UrlEncode s) = s \<and> set (base64UrlEncode s) \<subseteq> set url_alphabet"
  by (simp add: url_decode_encode url_alphabet_encode)

end
