(* ===== verification/Fw_Jwt.thy ===== *)
theory Fw_Jwt
  imports Fw_Base64
begin

section \<open>JSON web tokens and the revocation list\<close>

text \<open>
  \<open>src/JwtUtil.cpp\<close>. \<open>hmac\<close>, a parameter, is OpenSSL's HMAC-SHA256 of a key and a message; the
  readings of the clock are the arguments \<open>now\<close>. The static members are the record \<open>jwt\<close>; every
  operation that touches them holds the mutex, so it is one step. \<open>std::set<RevokedEntry>\<close> is
  ordered by the token alone: a list of pairs, strictly sorted by token.
\<close>

subsection \<open>State\<close>

type_synonym revoked = "string \<times> int"

record jwt =
  s_blacklist :: "revoked list"
  s_persistCallback :: bool
  s_maxEntries :: int
  s_startTimeSeconds :: int

definition jwt0 :: jwt where
  "jwt0 = \<lparr>s_blacklist = [], s_persistCallback = False, s_maxEntries = 1000, s_startTimeSeconds = 0\<rparr>"

subsection \<open>Tokens\<close>

definition is_dot :: "char \<Rightarrow> bool" where "is_dot c \<longleftrightarrow> c = CHR ''.''"

definition jwt_header :: string where
  "jwt_header = [CHR ''{'', CHR 0x22] @ ''alg'' @ [CHR 0x22, CHR '':'', CHR 0x22] @ ''HS256'' @
     [CHR 0x22, CHR '','', CHR 0x22] @ ''typ'' @ [CHR 0x22, CHR '':'', CHR 0x22] @ ''JWT'' @
     [CHR 0x22, CHR ''}'']"

definition quoted :: "string \<Rightarrow> string" where
  "quoted s = [CHR 0x22] @ s @ [CHR 0x22]"

definition jwt_payload :: "int \<Rightarrow> int \<Rightarrow> string" where
  "jwt_payload now expiry = ''{'' @ quoted ''sub'' @ '':'' @ quoted ''admin'' @ '','' @ quoted ''iat'' @ '':'' @
     show_int now @ '','' @ quoted ''exp'' @ '':'' @ show_int expiry @ ''}''"

definition jwt_sign :: "(string \<Rightarrow> string \<Rightarrow> string) \<Rightarrow> int \<Rightarrow> string \<Rightarrow> int \<Rightarrow> string" where
  "jwt_sign hmac now secret expireSeconds =
     (let expiry = now + expireSeconds;
          headerEnc = base64UrlEncode jwt_header;
          payloadEnc = base64UrlEncode (jwt_payload now expiry);
          sigInput = headerEnc @ ''.'' @ payloadEnc;
          sig = hmac secret sigInput
      in sigInput @ ''.'' @ base64UrlEncode sig)"

text \<open>\<open>getExp\<close> and \<open>getIat\<close> are the same code with another member name.\<close>

definition json_number :: "string \<Rightarrow> string \<Rightarrow> int" where
  "json_number name json =
     (case find_sub (quoted name) json of
        None \<Rightarrow> 0
      | Some namePos \<Rightarrow>
          case find_from (\<lambda>c. c = CHR '':'') namePos json of
            None \<Rightarrow> 0
          | Some colon \<Rightarrow>
              let pos = colon + 1 + length (takeWhile (\<lambda>c. c = CHR '' '' \<or> c = CHR 0x09) (drop (colon + 1) json));
                  endPos = (case find_from (\<lambda>c. \<not> is_digit c) pos json of None \<Rightarrow> length json | Some e \<Rightarrow> e)
              in case stoll (substr json pos (endPos - pos)) of None \<Rightarrow> 0 | Some v \<Rightarrow> v)"

definition token_number :: "string \<Rightarrow> string \<Rightarrow> int" where
  "token_number name token =
     (case find_from is_dot 0 token of
        None \<Rightarrow> 0
      | Some dot1 \<Rightarrow>
          case find_from is_dot (dot1 + 1) token of
            None \<Rightarrow> 0
          | Some dot2 \<Rightarrow> json_number name (base64UrlDecode (substr token (dot1 + 1) (dot2 - dot1 - 1))))"

definition getExp :: "string \<Rightarrow> int" where
  "getExp token = token_number ''exp'' token"

definition getIat :: "string \<Rightarrow> int" where
  "getIat token = token_number ''iat'' token"

definition extractBearer :: "string \<Rightarrow> string" where
  "extractBearer authHeader =
     (if 7 < length authHeader \<and> take 7 authHeader = ''Bearer '' then drop 7 authHeader else [])"

subsection \<open>The revocation list\<close>

definition isRevoked :: "jwt \<Rightarrow> string \<Rightarrow> bool" where
  "isRevoked st token \<longleftrightarrow> token \<in> set (map fst (s_blacklist st))"

text \<open>\<open>std::set::insert\<close>: an entry with an equivalent key stays as it is.\<close>

fun set_insert :: "revoked \<Rightarrow> revoked list \<Rightarrow> revoked list" where
  "set_insert e [] = [e]"
| "set_insert e (x # xs) =
     (if fst e < fst x then e # x # xs else if fst e = fst x then x # xs else x # set_insert e xs)"

definition purge_expired :: "int \<Rightarrow> revoked list \<Rightarrow> revoked list" where
  "purge_expired now bl = filter (\<lambda>e. \<not> snd e \<le> now) bl"

text \<open>The first entry, in the order of the tokens, with the least expiry.\<close>

fun find_oldest :: "revoked \<Rightarrow> revoked list \<Rightarrow> revoked" where
  "find_oldest oldest [] = oldest"
| "find_oldest oldest (x # xs) = find_oldest (if snd x < snd oldest then x else oldest) xs"

function evict :: "int \<Rightarrow> revoked list \<Rightarrow> revoked list" where
  "evict maxEntries [] = []"
| "evict maxEntries (x # xs) =
     (if 0 < maxEntries \<and> maxEntries \<le> int (length (x # xs))
      then evict maxEntries (remove1 (find_oldest x (x # xs)) (x # xs))
      else x # xs)"
  by pat_completeness auto

lemma find_oldest_in: "find_oldest o' xs = o' \<or> find_oldest o' xs \<in> set xs"
  by (induction xs arbitrary: o') auto

lemma find_oldest_mem: "find_oldest x (x # xs) \<in> set (x # xs)"
  using find_oldest_in [of x xs] by simp

termination evict
proof (relation "measure (\<lambda>(_, xs). length xs)")
  fix m :: int and x :: revoked and xs
  have "length (remove1 (find_oldest x (x # xs)) (x # xs)) = length xs"
    using find_oldest_mem [of x xs] by (simp add: length_remove1 del: remove1.simps find_oldest.simps)
  then show "((m, remove1 (find_oldest x (x # xs)) (x # xs)), m, x # xs) \<in> measure (\<lambda>(_, xs). length xs)"
    by (simp del: remove1.simps find_oldest.simps)
qed simp

declare evict.simps(2) [simp del]

text \<open>The second result is the call of the persistence callback, if one is set.\<close>

definition revoke :: "int \<Rightarrow> string \<Rightarrow> jwt \<Rightarrow> jwt \<times> revoked option" where
  "revoke now token st =
     (let expiry = getExp token
      in if expiry = 0 then (st, None)
         else (st\<lparr>s_blacklist := set_insert (token, expiry)
                     (evict (s_maxEntries st) (purge_expired now (s_blacklist st)))\<rparr>,
               if s_persistCallback st then Some (token, expiry) else None))"

definition cleanup :: "int \<Rightarrow> jwt \<Rightarrow> jwt" where
  "cleanup now st = st\<lparr>s_blacklist := purge_expired now (s_blacklist st)\<rparr>"

definition loadEntries :: "revoked list \<Rightarrow> jwt \<Rightarrow> jwt" where
  "loadEntries entries st = st\<lparr>s_blacklist := fold set_insert entries (s_blacklist st)\<rparr>"

definition setMaxEntries :: "int \<Rightarrow> jwt \<Rightarrow> jwt" where
  "setMaxEntries n st = st\<lparr>s_maxEntries := n\<rparr>"

definition setStartTimeSeconds :: "int \<Rightarrow> jwt \<Rightarrow> jwt" where
  "setStartTimeSeconds n st = st\<lparr>s_startTimeSeconds := n\<rparr>"

definition setPersistCallback :: "bool \<Rightarrow> jwt \<Rightarrow> jwt" where
  "setPersistCallback b st = st\<lparr>s_persistCallback := b\<rparr>"

definition getMaxEntries :: "jwt \<Rightarrow> int" where
  "getMaxEntries st = s_maxEntries st"

definition getBlacklistSize :: "jwt \<Rightarrow> nat" where
  "getBlacklistSize st = length (s_blacklist st)"

subsection \<open>Verification\<close>

definition jwt_verify :: "(string \<Rightarrow> string \<Rightarrow> string) \<Rightarrow> int \<Rightarrow> jwt \<Rightarrow> string \<Rightarrow> string \<Rightarrow> bool" where
  "jwt_verify hmac now st token secret =
     (case find_from is_dot 0 token of
        None \<Rightarrow> False
      | Some dot1 \<Rightarrow>
          case find_from is_dot (dot1 + 1) token of
            None \<Rightarrow> False
          | Some dot2 \<Rightarrow>
              if find_from is_dot (dot2 + 1) token \<noteq> None then False
              else let sigInput = substr token 0 dot2;
                       sigEncoded = drop (dot2 + 1) token;
                       expectedSig = base64UrlEncode (hmac secret sigInput);
                       expiry = getExp token
                   in if length expectedSig \<noteq> length sigEncoded \<or> expectedSig \<noteq> sigEncoded then False
                      else if expiry = 0 \<or> expiry \<le> now then False
                      else if 0 < s_startTimeSeconds st \<and> 0 < getIat token \<and> getIat token < s_startTimeSeconds st
                           then False
                      else \<not> isRevoked st token)"

subsection \<open>Reading a signed token\<close>

lemma find_from_0: "find_from P 0 s = find_index P s"
  by (simp add: find_from_def option.map_ident)

lemma find_from_append: "find_from P (length a) (a @ s) = map_option (\<lambda>k. length a + k) (find_index P s)"
  by (simp add: find_from_def)

lemma quoted_no_colon: "CHR '':'' \<notin> set name \<Longrightarrow> CHR '':'' \<notin> set (quoted name)"
  by (simp add: quoted_def)

lemma json_number_at:
  assumes "json = pre @ quoted name @ CHR '':'' # show_nat v @ CHR '','' # post \<or>
     json = pre @ quoted name @ CHR '':'' # show_nat v @ [CHR ''}'']"
    and "find_sub (quoted name) json = Some (length pre)" and "CHR '':'' \<notin> set name" and "v < 2 ^ 63"
  shows "json_number name json = int v"
proof -
  obtain c post' where json: "json = pre @ quoted name @ CHR '':'' # show_nat v @ c # post'" and c: "\<not> is_digit c"
  proof -
    have nd: "\<not> is_digit CHR '',''" "\<not> is_digit CHR ''}''" by (simp_all add: is_digit_def code_of_def)
    from assms(1) show ?thesis
    proof
      assume "json = pre @ quoted name @ CHR '':'' # show_nat v @ CHR '','' # post"
      from that [OF this nd(1)] show ?thesis .
    next
      assume "json = pre @ quoted name @ CHR '':'' # show_nat v @ [CHR ''}'']"
      from that [OF this nd(2)] show ?thesis .
    qed
  qed
  let ?q = "pre @ quoted name"
  have colon: "find_from (\<lambda>c. c = CHR '':'') (length pre) json = Some (length ?q)"
    unfolding json find_from_append
    using find_index_at [of "quoted name" "\<lambda>c. c = CHR '':''" "CHR '':''"] quoted_no_colon [OF assms(3)]
    by auto
  have d: "drop (length ?q + 1) json = show_nat v @ c # post'" unfolding json by simp
  have "takeWhile (\<lambda>c. c = CHR '' '' \<or> c = CHR 0x09) (show_nat v @ c # post') = []"
  proof -
    obtain d ds where "show_nat v = d # ds" by (cases "show_nat v") simp
    with hd_show_nat [of v] show ?thesis by (auto simp: is_digit_def code_of_def)
  qed
  moreover have "find_from (\<lambda>c. \<not> is_digit c) (length ?q + 1) json = Some (length ?q + 1 + length (show_nat v))"
    unfolding find_from_def d using find_index_at [of "show_nat v" "\<lambda>c. \<not> is_digit c" c post'] c show_nat_digits
    by auto
  ultimately have "json_number name json = (case stoll (substr json (length ?q + 1) (length (show_nat v))) of None \<Rightarrow> 0 | Some v \<Rightarrow> v)"
    unfolding json_number_def assms(2) option.case colon d Let_def by simp
  also have "substr json (length ?q + 1) (length (show_nat v)) = show_nat v"
    unfolding substr_def d by simp
  finally show ?thesis using stoll_show_nat [of v] assms(4) by simp
qed

lemma payload_numbers:
  assumes "0 \<le> now" "now < 2 ^ 63" "0 \<le> e" "e < 2 ^ 63"
  shows "json_number ''iat'' (jwt_payload now e) = now" "json_number ''exp'' (jwt_payload now e) = e"
proof -
  obtain n m where nm: "now = int n" "e = int m" "n < 2 ^ 63" "m < 2 ^ 63"
    using assms by (metis nonneg_int_cases of_nat_less_numeral_power_cancel_iff)
  have q: "CHR 0x22 \<notin> set (show_nat n)" using show_nat_digits [of "CHR 0x22" n] by (auto simp: is_digit_def code_of_def)
  let ?p1 = "''{'' @ quoted ''sub'' @ '':'' @ quoted ''admin'' @ '',''"
  have j: "jwt_payload now e = ?p1 @ quoted ''iat'' @ CHR '':'' # show_nat n @ CHR '','' # quoted ''exp'' @ '':'' @ show_nat m @ ''}''"
    by (simp add: jwt_payload_def nm show_int_def)
  show "json_number ''iat'' (jwt_payload now e) = now"
  proof -
    have "find_sub (quoted ''iat'') (jwt_payload now e) = Some (length ?p1)"
      unfolding j by (simp add: quoted_def)
    from json_number_at [OF disjI1 [OF j] this] nm show ?thesis by simp
  qed
  let ?p2 = "?p1 @ quoted ''iat'' @ '':'' @ show_nat n @ '',''"
  have j2: "jwt_payload now e = ?p2 @ quoted ''exp'' @ CHR '':'' # show_nat m @ [CHR ''}'']"
    by (simp add: jwt_payload_def nm show_int_def)
  have "find_sub (quoted ''exp'') (show_nat n @ CHR '','' # quoted ''exp'' @ '':'' @ show_nat m @ ''}'') = Some (length (show_nat n) + 1)"
    using find_sub_skip [of "quoted ''exp''" "show_nat n"] q by (simp add: quoted_def)
  then have "find_sub (quoted ''exp'') (jwt_payload now e) = Some (length ?p2)"
    unfolding j by (simp add: quoted_def)
  with json_number_at [OF disjI2 [OF j2]] nm show "json_number ''exp'' (jwt_payload now e) = e" by simp
qed

definition no_dot :: "string \<Rightarrow> bool" where
  "no_dot s \<longleftrightarrow> (\<forall>c\<in>set s. \<not> is_dot c)"

definition token3 :: "string \<Rightarrow> string \<Rightarrow> string \<Rightarrow> string" where
  "token3 h p s = (h @ ''.'' @ p) @ ''.'' @ s"

lemma is_dot_dot [simp]: "is_dot CHR ''.''"
  by (simp add: is_dot_def)

lemma dots_of_token3:
  assumes "no_dot h" "no_dot p"
  shows "find_from is_dot 0 (token3 h p s) = Some (length h)"
    "find_from is_dot (length h + 1) (token3 h p s) = Some (length h + 1 + length p)"
    "find_from is_dot (length h + 1 + length p + 1) (token3 h p s) \<noteq> None \<longleftrightarrow> \<not> no_dot s"
proof -
  have 1: "find_index is_dot (h @ CHR ''.'' # p @ CHR ''.'' # s) = Some (length h)"
    using assms(1) by (intro find_index_at) (simp_all add: no_dot_def)
  then show "find_from is_dot 0 (token3 h p s) = Some (length h)"
    by (simp add: find_from_0 token3_def)
  have "find_index is_dot (p @ CHR ''.'' # s) = Some (length p)"
    using assms(2) by (intro find_index_at) (simp_all add: no_dot_def)
  then show "find_from is_dot (length h + 1) (token3 h p s) = Some (length h + 1 + length p)"
    by (simp add: find_from_def token3_def)
  show "find_from is_dot (length h + 1 + length p + 1) (token3 h p s) \<noteq> None \<longleftrightarrow> \<not> no_dot s"
    by (simp add: find_from_def token3_def find_index_None no_dot_def)
qed

lemma number_of_token3:
  assumes "no_dot h" "no_dot p"
  shows "token_number name (token3 h p s) = json_number name (base64UrlDecode p)"
proof -
  have "substr (token3 h p s) (length h + 1) (length h + 1 + length p - length h - 1) = p"
    by (simp add: token3_def substr_def)
  then show ?thesis
    unfolding token_number_def dots_of_token3(1,2) [OF assms] option.case by simp
qed

lemma jwt_verify_token3:
  assumes "no_dot h" "no_dot p" "no_dot s"
  shows "jwt_verify hmac now st (token3 h p s) secret \<longleftrightarrow>
    s = base64UrlEncode (hmac secret (h @ ''.'' @ p)) \<and> now < getExp (token3 h p s) \<and> getExp (token3 h p s) \<noteq> 0 \<and>
    \<not> (0 < s_startTimeSeconds st \<and> 0 < getIat (token3 h p s) \<and> getIat (token3 h p s) < s_startTimeSeconds st) \<and>
    \<not> isRevoked st (token3 h p s)"
proof -
  have "substr (token3 h p s) 0 (length h + 1 + length p) = h @ ''.'' @ p"
    "drop (length h + 1 + length p + 1) (token3 h p s) = s" by (simp_all add: token3_def substr_def)
  then show ?thesis
    using assms(3) dots_of_token3(3) [OF assms(1,2), of s]
    unfolding jwt_verify_def dots_of_token3(1,2) [OF assms(1,2)] option.case Let_def by auto
qed

lemma token_split:
  assumes "find_from is_dot 0 t = Some d1" "find_from is_dot (d1 + 1) t = Some d2" "find_from is_dot (d2 + 1) t = None"
  shows "\<exists>h p s. t = token3 h p s \<and> no_dot h \<and> no_dot p \<and> no_dot s \<and> d2 = length h + 1 + length p"
proof -
  from assms(1) have i1: "find_index is_dot t = Some d1" by (simp add: find_from_0)
  note f1 = find_index_Some [OF i1]
  from assms(2) obtain k where k: "find_index is_dot (drop (d1 + 1) t) = Some k" "d2 = d1 + 1 + k"
    by (auto simp: find_from_def)
  note f2 = find_index_Some [OF k(1)]
  define h where "h = take d1 t"
  define r where "r = drop (d1 + 1) t"
  define p where "p = take k r"
  define s where "s = drop (k + 1) r"
  have "t = h @ t ! d1 # r" using f1 by (simp add: h_def r_def id_take_nth_drop)
  moreover have "t ! d1 = CHR ''.''" using f1 by (simp add: is_dot_def)
  moreover have "r = p @ r ! k # s"
    using f2 id_take_nth_drop [of k r] by (simp only: p_def s_def r_def Suc_eq_plus1)
  moreover have "r ! k = CHR ''.''" using f2 by (simp add: is_dot_def r_def)
  ultimately have "t = token3 h p s" by (simp add: token3_def)
  moreover have "no_dot h" "no_dot p" using f1 f2 by (simp_all add: h_def p_def no_dot_def r_def)
  moreover have "s = drop (d2 + 1) t" by (simp add: s_def r_def k(2) add.commute)
  then have "no_dot s" using assms(3) by (simp add: find_from_def find_index_None no_dot_def)
  moreover have "d2 = length h + 1 + length p" using f1 f2 k(2) by (simp add: h_def p_def r_def)
  ultimately show ?thesis by blast
qed

lemma url_no_dot: "no_dot (base64UrlEncode s)"
proof -
  have "CHR ''.'' \<notin> set url_alphabet" by (simp add: url_alphabet_def)
  then show ?thesis using url_alphabet_encode [of s] by (auto simp: no_dot_def is_dot_def)
qed

lemma jwt_sign_token3:
  "jwt_sign hmac now secret ttl = token3 (base64UrlEncode jwt_header) (base64UrlEncode (jwt_payload now (now + ttl)))
     (base64UrlEncode (hmac secret (base64UrlEncode jwt_header @ ''.'' @ base64UrlEncode (jwt_payload now (now + ttl)))))"
  by (simp add: jwt_sign_def token3_def Let_def)

lemma jwt_sign_numbers:
  assumes "0 \<le> now" "now < 2 ^ 63" "0 \<le> now + ttl" "now + ttl < 2 ^ 63"
  shows "getIat (jwt_sign hmac now secret ttl) = now" "getExp (jwt_sign hmac now secret ttl) = now + ttl"
  unfolding getIat_def getExp_def jwt_sign_token3 number_of_token3 [OF url_no_dot url_no_dot] url_decode_encode
  using payload_numbers [OF assms] by simp_all

text \<open>
  C7: a signed token is good for its time and no longer. A verification at any later time \<open>t\<close>, with
  the same secret, succeeds exactly when \<open>t\<close> is before the expiry, the token was not issued before
  the configured start time and it is not on the revocation list; and the token's own fields are
  the time of signing and the time of expiry, whatever HMAC computes.
\<close>

theorem jwt_sign_verify:
  assumes "0 < now" and "now < 2 ^ 63" and "0 < now + ttl" and "now + ttl < 2 ^ 63"
    and token_def: "token = jwt_sign hmac now secret ttl"
  shows "getIat token = now \<and> getExp token = now + ttl \<and>
    (jwt_verify hmac t st token secret \<longleftrightarrow> t < now + ttl \<and> s_startTimeSeconds st \<le> now \<and> \<not> isRevoked st token)"
proof -
  have n: "getIat token = now" "getExp token = now + ttl"
    unfolding token_def using jwt_sign_numbers [of now ttl] assms by simp_all
  have "jwt_verify hmac t st token secret \<longleftrightarrow> t < getExp token \<and> getExp token \<noteq> 0 \<and>
    \<not> (0 < s_startTimeSeconds st \<and> 0 < getIat token \<and> getIat token < s_startTimeSeconds st) \<and> \<not> isRevoked st token"
    unfolding token_def jwt_sign_token3 jwt_verify_token3 [OF url_no_dot url_no_dot url_no_dot] by simp
  with n assms(1,3) show ?thesis by auto
qed

lemma jwt_sign_verify_witness:
  "jwt_verify (\<lambda>k m. k @ m) 1500 jwt0 (jwt_sign (\<lambda>k m. k @ m) 1000 ''secret'' 7200) ''secret''"
proof -
  have "(0 :: int) < 1000" "(1000 :: int) < 2 ^ 63" "(0 :: int) < 1000 + 7200" "(1000 + 7200 :: int) < 2 ^ 63"
    by simp_all
  from jwt_sign_verify [OF this refl, of "\<lambda>k m. k @ m" "''secret''" 1500 jwt0]
  show ?thesis by (simp add: jwt0_def isRevoked_def)
qed

lemma jwt_verify_sound_aux:
  assumes "jwt_verify hmac now st token secret"
  shows "\<exists>h p. no_dot h \<and> no_dot p \<and>
    token = (h @ ''.'' @ p) @ ''.'' @ base64UrlEncode (hmac secret (h @ ''.'' @ p)) \<and>
    now < getExp token \<and> getExp token = json_number ''exp'' (base64UrlDecode p) \<and> \<not> isRevoked st token"
proof -
  from assms obtain d1 d2 where "find_from is_dot 0 token = Some d1" "find_from is_dot (d1 + 1) token = Some d2"
    "find_from is_dot (d2 + 1) token = None"
    by (auto simp: jwt_verify_def split: option.splits if_splits)
  from token_split [OF this] obtain h p s where t: "token = token3 h p s" "no_dot h" "no_dot p" "no_dot s" by blast
  from assms have "s = base64UrlEncode (hmac secret (h @ ''.'' @ p))" "now < getExp token" "\<not> isRevoked st token"
    unfolding t(1) jwt_verify_token3 [OF t(2-4)] by blast+
  moreover have "getExp token = json_number ''exp'' (base64UrlDecode p)"
    unfolding t(1) getExp_def by (rule number_of_token3 [OF t(2,3)])
  ultimately show ?thesis using t by (auto simp: token3_def)
qed

text \<open>
  C20: what a successful verification guarantees, for any token: it has exactly three parts, the last
  is the encoded HMAC of the first two under the secret, the time is before its expiry, and it is not
  revoked.
\<close>

theorem jwt_verify_sound:
  assumes "jwt_verify hmac now st token secret"
  shows "\<exists>h p. no_dot h \<and> no_dot p \<and>
    token = (h @ ''.'' @ p) @ ''.'' @ base64UrlEncode (hmac secret (h @ ''.'' @ p)) \<and>
    now < getExp token \<and> getExp token = json_number ''exp'' (base64UrlDecode p) \<and> \<not> isRevoked st token"
  by (rule jwt_verify_sound_aux [OF assms])

lemma jwt_verify_sound_witness:
  "\<exists>h p. jwt_sign (\<lambda>k m. k @ m) 1000 ''secret'' 7200 =
     (h @ ''.'' @ p) @ ''.'' @ base64UrlEncode (''secret'' @ h @ ''.'' @ p)"
proof -
  let ?t = "jwt_sign (\<lambda>k m. k @ m) 1000 ''secret'' 7200"
  have "getExp ?t = 8200" using jwt_sign_numbers(2) [of 1000 7200] by simp
  then have "jwt_verify (\<lambda>k m. k @ m) 1500 jwt0 ?t ''secret''"
    unfolding jwt_sign_token3 jwt_verify_token3 [OF url_no_dot url_no_dot url_no_dot]
    by (simp add: jwt0_def isRevoked_def)
  from jwt_verify_sound [OF this] show ?thesis by blast
qed

subsection \<open>The list under revocation and eviction\<close>

definition bl_wf :: "revoked list \<Rightarrow> bool" where
  "bl_wf bl \<longleftrightarrow> sorted_wrt (<) (map fst bl)"

lemma bl_wf_Cons: "bl_wf (x # xs) \<longleftrightarrow> (\<forall>y\<in>set xs. fst x < fst y) \<and> bl_wf xs"
  by (simp add: bl_wf_def)

lemma set_insert_set: "bl_wf bl \<Longrightarrow>
  set (set_insert e bl) = (if fst e \<in> fst ` set bl then set bl else insert e (set bl))"
  by (induction bl) (auto simp: bl_wf_Cons dest: less_not_sym)

lemma set_insert_wf: "bl_wf bl \<Longrightarrow> bl_wf (set_insert e bl)"
proof (induction bl)
  case Nil
  show ?case by (simp add: bl_wf_def)
next
  case (Cons x xs)
  then have "bl_wf xs" by (simp add: bl_wf_Cons)
  with Cons show ?case
    by (auto simp: bl_wf_Cons set_insert_set)
qed

lemma set_insert_length: "length (set_insert e bl) \<le> Suc (length bl)"
  by (induction bl) auto

lemma purge_wf: "bl_wf bl \<Longrightarrow> bl_wf (purge_expired now bl)"
  unfolding bl_wf_def purge_expired_def by (induction bl) auto

lemma bl_wf_remove1: "bl_wf bl \<Longrightarrow> bl_wf (remove1 e bl)"
  by (induction bl) (auto simp: bl_wf_Cons dest: notin_set_remove1)

lemma bl_wf_distinct: "bl_wf bl \<Longrightarrow> distinct bl"
  by (induction bl) (auto simp: bl_wf_Cons)

lemma evict_go: "0 < m \<and> m \<le> int (length (x # xs)) \<Longrightarrow>
    evict m (x # xs) = evict m (remove1 (find_oldest x (x # xs)) (x # xs))"
  by (subst evict.simps) (simp only: if_True simp_thms)

lemma evict_stop: "\<not> (0 < m \<and> m \<le> int (length (x # xs))) \<Longrightarrow> evict m (x # xs) = x # xs"
  by (subst evict.simps) (simp only: if_False)

lemma evict_wf: "bl_wf bl \<Longrightarrow> bl_wf (evict m bl)"
proof (induction m bl rule: evict.induct)
  case (2 m x xs)
  then show ?case
    by (subst evict.simps) (simp add: bl_wf_remove1 del: remove1.simps find_oldest.simps)
qed (simp add: bl_wf_def)

lemma evict_subset: "set (evict m bl) \<subseteq> set bl"
proof (induction m bl rule: evict.induct)
  case (2 m x xs)
  show ?case
  proof (cases "0 < m \<and> m \<le> int (length (x # xs))")
    case True
    show ?thesis unfolding evict_go [OF True] using "2.IH" [OF True] set_remove1_subset by (rule order_trans)
  next
    case False
    show ?thesis unfolding evict_stop [OF False] by (rule subset_refl)
  qed
qed simp

lemma evict_unbounded: "m \<le> 0 \<Longrightarrow> evict m bl = bl"
  by (cases bl) (simp_all add: evict.simps)

lemma evict_length: "0 < m \<Longrightarrow> int (length (evict m bl)) < m"
proof (induction m bl rule: evict.induct)
  case (2 m x xs)
  then show ?case
    by (subst evict.simps) (simp del: remove1.simps find_oldest.simps)
qed simp

lemma evict_keeps_room: "int (length bl) < m \<Longrightarrow> evict m bl = bl"
  by (cases bl) (simp_all add: evict.simps)

lemma find_oldest_le: "snd (find_oldest o' xs) \<le> snd o' \<and> (\<forall>x\<in>set xs. snd (find_oldest o' xs) \<le> snd x)"
proof (induction xs arbitrary: o')
  case (Cons x xs)
  from Cons [of "if snd x < snd o' then x else o'"] show ?case by (auto split: if_splits)
qed simp

text \<open>What eviction removes expires no later than anything it keeps.\<close>

lemma evict_earliest: "bl_wf bl \<Longrightarrow> e \<in> set bl \<Longrightarrow> e \<notin> set (evict m bl) \<Longrightarrow> k \<in> set (evict m bl) \<Longrightarrow> snd e \<le> snd k"
proof (induction m bl rule: evict.induct)
  case (2 m x xs)
  let ?o = "find_oldest x (x # xs)" and ?r = "remove1 (find_oldest x (x # xs)) (x # xs)"
  show ?case
  proof (cases "0 < m \<and> m \<le> int (length (x # xs))")
    case True
    note ev = evict_go [OF True]
    show ?thesis
    proof (cases "e = ?o")
      case True
      have "k \<in> set (x # xs)" using "2.prems"(4) evict_subset by blast
      with True show ?thesis using find_oldest_le [of x "x # xs"] by (metis find_oldest_le)
    next
      case False
      with "2.prems" have "e \<in> set ?r" by (metis in_set_remove1)
      from "2.IH" [OF True bl_wf_remove1 [OF "2.prems"(1)] this] "2.prems"(3,4) show ?thesis
        unfolding ev by blast
    qed
  next
    case False
    from "2.prems"(2,3) show ?thesis unfolding evict_stop [OF False] by contradiction
  qed
qed simp

lemma isRevoked_iff: "isRevoked st t \<longleftrightarrow> t \<in> fst ` set (s_blacklist st)"
  by (simp add: isRevoked_def)

lemma purge_set: "set (purge_expired now bl) = {e \<in> set bl. now < snd e}"
  by (auto simp: purge_expired_def)

text \<open>
  C19: the revocation list. Revoking a token with a readable expiry puts it on the list, keeps the
  list ordered and without duplicates and, when a limit is set, within the limit. It drops expired
  entries and, if the limit forces it, others, but never one that expires later than one it keeps;
  and the persistence callback is called with the token and its expiry exactly when it is set.
\<close>

theorem revoke_bounded:
  assumes "bl_wf (s_blacklist st)" and "getExp token \<noteq> 0" and "revoke now token st = (st', persisted)"
  shows "isRevoked st' token \<and> bl_wf (s_blacklist st') \<and>
    (0 < s_maxEntries st \<longrightarrow> int (getBlacklistSize st') \<le> s_maxEntries st) \<and>
    set (s_blacklist st') \<subseteq> insert (token, getExp token) (set (s_blacklist st)) \<and>
    (\<forall>e\<in>set (s_blacklist st) - set (s_blacklist st'). snd e \<le> now \<or>
       0 < s_maxEntries st \<and> (\<forall>k\<in>set (s_blacklist st') - {(token, getExp token)}. snd e \<le> snd k)) \<and>
    persisted = (if s_persistCallback st then Some (token, getExp token) else None)"
proof -
  let ?P = "purge_expired now (s_blacklist st)" and ?m = "s_maxEntries st"
  let ?E = "evict ?m ?P"
  have wP: "bl_wf ?P" by (rule purge_wf [OF assms(1)])
  have st': "s_blacklist st' = set_insert (token, getExp token) ?E"
    and pc: "persisted = (if s_persistCallback st then Some (token, getExp token) else None)"
    using assms(2,3) by (auto simp: revoke_def Let_def)
  have set': "set (s_blacklist st') = (if token \<in> fst ` set ?E then set ?E else insert (token, getExp token) (set ?E))"
    unfolding st' using set_insert_set [OF evict_wf [OF wP], of "(token, getExp token)" ?m] by simp
  have r1: "isRevoked st' token" unfolding isRevoked_iff set' by auto
  have r2: "bl_wf (s_blacklist st')" unfolding st' by (rule set_insert_wf [OF evict_wf [OF wP]])
  have r3: "int (getBlacklistSize st') \<le> ?m" if "0 < ?m"
    using evict_length [OF that, of ?P] set_insert_length [of "(token, getExp token)" ?E]
    unfolding getBlacklistSize_def st' by linarith
  have r4: "set (s_blacklist st') \<subseteq> insert (token, getExp token) (set (s_blacklist st))"
    unfolding set' using evict_subset [of ?m ?P] by (auto simp: purge_set)
  have r5: "snd e \<le> now \<or> 0 < ?m \<and> (\<forall>k\<in>set (s_blacklist st') - {(token, getExp token)}. snd e \<le> snd k)"
    if e: "e \<in> set (s_blacklist st) - set (s_blacklist st')" for e
  proof (cases "snd e \<le> now")
    case False
    with e have eP: "e \<in> set ?P" "e \<notin> set ?E" unfolding set' by (auto simp: purge_set split: if_splits)
    then have "0 < ?m" using evict_unbounded [of ?m ?P] by force
    moreover have "set (s_blacklist st') - {(token, getExp token)} \<subseteq> set ?E" unfolding set' by auto
    ultimately show ?thesis using evict_earliest [OF wP eP] by blast
  qed simp
  show ?thesis by (intro conjI impI ballI) (rule r1 r2 r4 pc | rule r3, assumption | rule r5, assumption)+
qed

lemma revoke_bounded_witness:
  "isRevoked (fst (revoke 2000 (jwt_sign (\<lambda>k m. k @ m) 1000 ''secret'' 7200) jwt0))
     (jwt_sign (\<lambda>k m. k @ m) 1000 ''secret'' 7200)"
proof -
  let ?t = "jwt_sign (\<lambda>k m. k @ m) 1000 ''secret'' 7200"
  have "bl_wf (s_blacklist jwt0)" by (simp add: jwt0_def bl_wf_def)
  moreover have "getExp ?t \<noteq> 0" using jwt_sign_numbers(2) [of 1000 7200] by simp
  ultimately show ?thesis using revoke_bounded [of jwt0 ?t 2000] by (metis prod.collapse)
qed

subsection \<open>What verification relies on\<close>

text \<open>
  The contract between verification and the revocation list: an allowed operation keeps the store
  well formed and keeps every listed token that has not expired when the operation runs.
\<close>

locale revocation_store =
  fixes step :: "int \<Rightarrow> 'op \<Rightarrow> 's \<Rightarrow> 's"
    and allowed :: "'op \<Rightarrow> bool"
    and wf :: "'s \<Rightarrow> bool"
    and listed :: "'s \<Rightarrow> string \<Rightarrow> bool"
    and expiry :: "string \<Rightarrow> int"
  assumes step_wf: "wf s \<Longrightarrow> allowed op \<Longrightarrow> wf (step now op s)"
    and step_keeps: "wf s \<Longrightarrow> allowed op \<Longrightarrow> listed s t \<Longrightarrow> now < expiry t \<Longrightarrow> listed (step now op s) t"
begin

lemma run_keeps:
  "wf s \<Longrightarrow> \<forall>(now, op)\<in>set ops. allowed op \<and> now < expiry t \<Longrightarrow> listed s t \<Longrightarrow>
   wf (fold (\<lambda>(now, op). step now op) ops s) \<and> listed (fold (\<lambda>(now, op). step now op) ops s) t"
  by (induction ops arbitrary: s) (auto simp: step_wf step_keeps)

text \<open>Expired or listed: once so, always so, as time goes on.\<close>

lemma rejected_for_good:
  assumes "wf s" and "listed s t" and "\<forall>(now, op)\<in>set ops. allowed op \<and> now \<le> later"
  shows "expiry t \<le> later \<or> listed (fold (\<lambda>(now, op). step now op) ops s) t"
proof (cases "expiry t \<le> later")
  case False
  with assms(3) have "\<forall>(now, op)\<in>set ops. allowed op \<and> now < expiry t" by auto
  from run_keeps [OF assms(1) this assms(2)] show ?thesis by simp
qed simp

end

datatype jwt_op = Revoke string | Cleanup | LoadEntries "revoked list" | SetStart int | SetPersist bool

fun jwt_step :: "int \<Rightarrow> jwt_op \<Rightarrow> jwt \<Rightarrow> jwt" where
  "jwt_step now (Revoke token) st = fst (revoke now token st)"
| "jwt_step now Cleanup st = cleanup now st"
| "jwt_step now (LoadEntries es) st = loadEntries es st"
| "jwt_step now (SetStart n) st = setStartTimeSeconds n st"
| "jwt_step now (SetPersist b) st = setPersistCallback b st"

text \<open>Entries loaded from outside carry the expiry that the token itself states.\<close>

definition true_expiry :: "revoked list \<Rightarrow> bool" where
  "true_expiry es \<longleftrightarrow> (\<forall>e\<in>set es. snd e = getExp (fst e))"

fun op_allowed :: "jwt_op \<Rightarrow> bool" where
  "op_allowed (LoadEntries es) = true_expiry es"
| "op_allowed _ = True"

definition jwt_wf :: "jwt \<Rightarrow> bool" where
  "jwt_wf st \<longleftrightarrow> bl_wf (s_blacklist st) \<and> true_expiry (s_blacklist st) \<and> s_maxEntries st \<le> 0"

lemma set_insert_fst: "bl_wf bl \<Longrightarrow> fst ` set (set_insert e bl) = insert (fst e) (fst ` set bl)"
  by (auto simp: set_insert_set)

lemma load_wf:
  "bl_wf bl \<Longrightarrow> true_expiry bl \<Longrightarrow> true_expiry es \<Longrightarrow>
   bl_wf (fold set_insert es bl) \<and> true_expiry (fold set_insert es bl) \<and>
   fst ` set (fold set_insert es bl) = fst ` set bl \<union> fst ` set es"
proof (induction es arbitrary: bl)
  case (Cons e es)
  have "true_expiry (set_insert e bl)"
    using Cons.prems by (auto simp: true_expiry_def set_insert_set)
  with Cons.IH [OF set_insert_wf [OF Cons.prems(1)] this] Cons.prems show ?case
    by (simp add: set_insert_fst true_expiry_def)
qed simp

lemma jwt_step_wf: "jwt_wf st \<Longrightarrow> op_allowed op \<Longrightarrow> jwt_wf (jwt_step now op st)"
  by (cases op)
    (auto simp: jwt_wf_def revoke_def Let_def cleanup_def loadEntries_def setStartTimeSeconds_def
      setPersistCallback_def evict_unbounded set_insert_wf purge_wf load_wf, 
     auto simp: true_expiry_def set_insert_set purge_wf purge_set)

lemma purge_keeps: "true_expiry bl \<Longrightarrow> t \<in> fst ` set bl \<Longrightarrow> now < getExp t \<Longrightarrow> t \<in> fst ` set (purge_expired now bl)"
  by (force simp: true_expiry_def purge_set)

lemma jwt_step_keeps:
  "jwt_wf st \<Longrightarrow> op_allowed op \<Longrightarrow> isRevoked st t \<Longrightarrow> now < getExp t \<Longrightarrow> isRevoked (jwt_step now op st) t"
  unfolding isRevoked_iff
  by (cases op)
    (simp_all add: jwt_wf_def revoke_def Let_def cleanup_def loadEntries_def setStartTimeSeconds_def
      setPersistCallback_def evict_unbounded set_insert_fst purge_wf load_wf purge_keeps)

interpretation jwt_store: revocation_store jwt_step op_allowed jwt_wf isRevoked getExp
  by unfold_locales (auto intro: jwt_step_wf jwt_step_keeps)

lemma verify_False_if_rejected:
  "getExp token \<le> now \<or> isRevoked st token \<Longrightarrow> \<not> jwt_verify hmac now st token secret"
  using jwt_verify_sound_aux [of hmac now st token secret] by auto

text \<open>
  C6: logging out is final. With no limit on the list and loaded entries that state their tokens'
  true expiry, a token that was revoked never verifies again: not after any revocations, cleanups,
  loads and settings in any order, for no secret, at no time from the last of them on.
\<close>

theorem revoked_never_verifies:
  assumes "jwt_wf st" and "getExp token \<noteq> 0"
    and "\<forall>(now, op)\<in>set ops. op_allowed op \<and> now \<le> later"
  shows "\<not> jwt_verify hmac later (fold (\<lambda>(now, op). jwt_step now op) ops (fst (revoke now0 token st))) token secret"
proof -
  have wf: "jwt_wf (fst (revoke now0 token st))" using jwt_step_wf [OF assms(1), of "Revoke token"] by simp
  have "isRevoked (fst (revoke now0 token st)) token"
    using assms(1,2) by (auto simp: revoke_def Let_def isRevoked_iff set_insert_fst evict_wf purge_wf jwt_wf_def)
  from jwt_store.rejected_for_good [OF wf this assms(3)] show ?thesis
    by (rule verify_False_if_rejected)
qed

lemma revoked_never_verifies_witness:
  "\<not> jwt_verify (\<lambda>k m. k @ m) 3000 (fold (\<lambda>(now, op). jwt_step now op) [(2500, Cleanup)]
      (fst (revoke 2000 (jwt_sign (\<lambda>k m. k @ m) 1000 ''secret'' 7200) (setMaxEntries 0 jwt0))))
     (jwt_sign (\<lambda>k m. k @ m) 1000 ''secret'' 7200) ''secret''"
proof -
  let ?t = "jwt_sign (\<lambda>k m. k @ m) 1000 ''secret'' 7200"
  have "jwt_wf (setMaxEntries 0 jwt0)" by (simp add: jwt_wf_def setMaxEntries_def jwt0_def bl_wf_def true_expiry_def)
  moreover have "getExp ?t \<noteq> 0" using jwt_sign_numbers(2) [of 1000 7200] by simp
  ultimately show ?thesis by (rule revoked_never_verifies) simp
qed

end
