(* ===== verification/Fw_Password.thy ===== *)
theory Fw_Password
  imports Fw_Base64
begin

section \<open>Password hashing\<close>

text \<open>
  \<open>src/PasswordUtil.cpp\<close>, built with OpenSSL. Parameters: \<open>salt\<close>, what \<open>RAND_bytes\<close> delivers
  (\<open>None\<close> for a failure), and \<open>pbkdf2 password salt iterations length\<close>, the result of
  \<open>PKCS5_PBKDF2_HMAC\<close> with SHA-256 (\<open>None\<close> for a result other than 1).
\<close>

type_synonym pbkdf2 = "string \<Rightarrow> string \<Rightarrow> int \<Rightarrow> nat \<Rightarrow> string option"

definition kDefaultIterations :: int where "kDefaultIterations = 310000"
definition kHashBytes :: nat where "kHashBytes = 32"

definition hash_prefix :: string where "hash_prefix = ''$pbkdf2-sha256$''"

definition isHashed :: "string \<Rightarrow> bool" where
  "isHashed s \<longleftrightarrow> 15 < length s \<and> take 15 s = hash_prefix"

definition password_hash :: "pbkdf2 \<Rightarrow> string option \<Rightarrow> string \<Rightarrow> string" where
  "password_hash pbkdf2 rand password =
     (case rand of None \<Rightarrow> []
      | Some salt \<Rightarrow>
          case pbkdf2 password salt kDefaultIterations kHashBytes of None \<Rightarrow> []
          | Some derived \<Rightarrow> hash_prefix @ show_int kDefaultIterations @ ''$'' @ base64Encode salt @ ''$'' @
              base64Encode derived)"

text \<open>The constant-time comparison collects the differences of all bytes.\<close>

definition byte_diff :: "string \<Rightarrow> string \<Rightarrow> u8" where
  "byte_diff xs ys = fold (\<lambda>(x, y) d. d OR (of_nat (code_of x) XOR of_nat (code_of y))) (zip xs ys) 0"

definition password_verify :: "pbkdf2 \<Rightarrow> string \<Rightarrow> string \<Rightarrow> bool" where
  "password_verify pbkdf2 password encoded =
     (if \<not> isHashed encoded then False
      else let rest = drop (length hash_prefix) encoded
      in case find_from (\<lambda>c. c = CHR ''$'') 0 rest of None \<Rightarrow> False
      | Some d1 \<Rightarrow>
      case find_from (\<lambda>c. c = CHR ''$'') (d1 + 1) rest of None \<Rightarrow> False
      | Some d2 \<Rightarrow>
      case stoi (substr rest 0 d1) of None \<Rightarrow> False
      | Some iterations \<Rightarrow>
      if iterations \<le> 0 then False
      else let saltRaw = base64Decode (substr rest (d1 + 1) (d2 - d1 - 1));
               hashExpected = base64Decode (drop (d2 + 1) rest)
      in if saltRaw = [] \<or> hashExpected = [] then False
      else let hashLen = length hashExpected
      in case pbkdf2 password saltRaw iterations hashLen of None \<Rightarrow> False
      | Some derived \<Rightarrow> byte_diff derived hashExpected = 0)"

subsection \<open>Lemmas\<close>

lemma unat_code8: "unat (of_nat (code_of c) :: u8) = code_of c"
  using code_of_less [of c] by (simp add: unsigned_of_nat take_bit_nat_eq_self)

lemma byte_eq: "(of_nat (code_of x) :: u8) = of_nat (code_of y) \<longleftrightarrow> x = y"
  by (metis unat_code8 code_of_inject)

lemma xor_zero: "(a :: u8) XOR b = 0 \<longleftrightarrow> a = b"
proof
  assume "a XOR b = 0"
  then have "a XOR (a XOR b) = a" by simp
  then show "a = b" by (simp flip: xor.assoc)
qed simp

lemma diff_step: "(d :: u8) OR (of_nat (code_of x) XOR of_nat (code_of y)) = 0 \<longleftrightarrow> d = 0 \<and> x = y"
  unfolding or_eq_0_iff xor_zero byte_eq ..

lemma byte_fold_zero: "length xs = length ys \<Longrightarrow>
  fold (\<lambda>(x, y) d. d OR (of_nat (code_of x) XOR of_nat (code_of y))) (zip xs ys) (d :: u8) = 0 \<longleftrightarrow> d = 0 \<and> xs = ys"
proof (induction xs ys arbitrary: d rule: list_induct2)
  case (Cons x xs y ys)
  show ?case
    unfolding zip_Cons_Cons fold_simps prod.case Cons.IH diff_step by auto
qed simp

lemma byte_diff_zero: "length xs = length ys \<Longrightarrow> byte_diff xs ys = 0 \<longleftrightarrow> xs = ys"
  unfolding byte_diff_def by (simp only: byte_fold_zero simp_thms)

lemma table_no_dollar: "CHR ''$'' \<notin> set b64_table"
  by (simp add: b64_table_def)

lemma encode_no_dollar: "CHR ''$'' \<notin> set (base64Encode s)"
  using base64Encode_shape [of s] table_no_dollar by auto

lemma stored_form:
  assumes "0 < n" "int n < 2 ^ 31"
  shows "password_verify pbkdf2 pw (hash_prefix @ show_nat n @ ''$'' @ base64Encode salt @ ''$'' @ base64Encode h)
    \<longleftrightarrow> salt \<noteq> [] \<and> h \<noteq> [] \<and>
      (case pbkdf2 pw salt (int n) (length h) of None \<Rightarrow> False | Some d \<Rightarrow> byte_diff d h = 0)"
proof -
  let ?D = "\<lambda>c. c = CHR ''$''"
  let ?a = "show_nat n" and ?b = "base64Encode salt" and ?c = "base64Encode h"
  let ?rest = "?a @ CHR ''$'' # ?b @ CHR ''$'' # ?c"
  have a: "CHR ''$'' \<notin> set ?a" using show_nat_digits [of "CHR ''$''" n] by (auto simp: is_digit_def code_of_def)
  have "isHashed (hash_prefix @ ?rest)"
    by (simp add: isHashed_def hash_prefix_def)
  moreover have "drop (length hash_prefix) (hash_prefix @ ?rest) = ?rest" by simp
  moreover have "find_from ?D 0 ?rest = Some (length ?a)"
    using find_index_at [of ?a ?D "CHR ''$''"] a by (auto simp: find_from_def)
  moreover have "find_from ?D (length ?a + 1) ?rest = Some (length ?a + 1 + length ?b)"
    using find_index_at [of ?b ?D "CHR ''$''" ?c] encode_no_dollar [of salt]
    by (auto simp: find_from_def simp del: base64Encode.simps)
  moreover have "substr ?rest 0 (length ?a) = ?a" "substr ?rest (length ?a + 1) (length ?a + 1 + length ?b - length ?a - 1) = ?b"
    "drop (length ?a + 1 + length ?b + 1) ?rest = ?c" by (simp_all add: substr_def del: base64Encode.simps)
  moreover have "stoi ?a = Some (int n)" using assms(2) by (rule stoi_show_nat)
  ultimately show ?thesis
    using assms(1) unfolding password_verify_def Let_def
    by (auto simp: decode_encode simp del: base64Encode.simps split: option.splits)
qed

text \<open>
  C38: a stored hash accepts its password and nothing that derives another key. When hashing
  succeeds the result is recognised as a hash, and a later verification of any password succeeds
  exactly when that password derives the same 32 bytes under the stored salt.
\<close>

theorem password_hash_verify:
  assumes "password_hash pbkdf2 (Some salt) pw = encoded" and "encoded \<noteq> []" and "salt \<noteq> []"
    and "\<And>p s i n d. pbkdf2 p s i n = Some d \<Longrightarrow> length d = n"
  shows "isHashed encoded \<and>
    (password_verify pbkdf2 pw' encoded \<longleftrightarrow>
       pbkdf2 pw' salt kDefaultIterations kHashBytes = pbkdf2 pw salt kDefaultIterations kHashBytes)"
proof -
  from assms(1,2) obtain d where d: "pbkdf2 pw salt kDefaultIterations kHashBytes = Some d"
    and e: "encoded = hash_prefix @ show_int kDefaultIterations @ ''$'' @ base64Encode salt @ ''$'' @ base64Encode d"
    by (auto simp: password_hash_def split: option.splits)
  have l: "length d = kHashBytes" using assms(4) [OF d] .
  have s: "show_int kDefaultIterations = show_nat 310000" by (simp add: show_int_def kDefaultIterations_def)
  have "isHashed encoded" unfolding e by (simp add: isHashed_def hash_prefix_def)
  moreover have "d \<noteq> []" using l by (auto simp: kHashBytes_def)
  moreover have "byte_diff d' d = 0 \<longleftrightarrow> d' = d" if "pbkdf2 pw' salt kDefaultIterations kHashBytes = Some d'" for d'
    using assms(4) [OF that] l by (intro byte_diff_zero) simp
  ultimately show ?thesis
    using stored_form [of 310000 pbkdf2 pw' salt d] assms(3) l d unfolding e s
    by (auto simp: kDefaultIterations_def split: option.splits)
qed

lemma password_hash_verify_witness:
  "let kdf = (\<lambda>p s i n. Some (take n (p @ s @ replicate n CHR ''x''))); e = password_hash kdf (Some ''salt'') ''pw''
   in password_verify kdf ''pw'' e \<and> \<not> password_verify kdf ''pv'' e"
proof -
  let ?kdf = "\<lambda>p s i n. Some (take n (p @ s @ replicate n CHR ''x''))"
  have "password_hash ?kdf (Some ''salt'') ''pw'' \<noteq> []"
    by (simp add: password_hash_def hash_prefix_def)
  moreover have "\<And>p s i n d. ?kdf p s i n = Some d \<Longrightarrow> length d = n" by auto
  ultimately have "\<And>q. password_verify ?kdf q (password_hash ?kdf (Some ''salt'') ''pw'') \<longleftrightarrow>
      ?kdf q ''salt'' kDefaultIterations kHashBytes = ?kdf ''pw'' ''salt'' kDefaultIterations kHashBytes"
    using password_hash_verify [OF refl, of ?kdf "''salt''" "''pw''"] by blast
  then show ?thesis by (simp add: kHashBytes_def Let_def)
qed

text \<open>
  no hash, no login: an empty stored value (what a failed \<open>hash\<close> leaves), a plain-text value or
  any value without the prefix verifies for no password.
\<close>

theorem password_verify_needs_hash:
  assumes "password_verify pbkdf2 pw encoded"
  shows "encoded \<noteq> [] \<and> take 15 encoded = ''$pbkdf2-sha256$'' \<and> password_hash pbkdf2 None pw \<noteq> encoded"
  using assms by (auto simp: password_verify_def isHashed_def hash_prefix_def password_hash_def split: if_splits)

lemma password_verify_needs_hash_witness:
  "let kdf = (\<lambda>p s i n. Some (take n (p @ s @ replicate n CHR ''x'')))
   in take 15 (password_hash kdf (Some ''salt'') ''pw'') = ''$pbkdf2-sha256$''"
proof -
  let ?kdf = "\<lambda>p s i n. Some (take n (p @ s @ replicate n CHR ''x''))"
  have "password_verify ?kdf ''pw'' (password_hash ?kdf (Some ''salt'') ''pw'')"
    unfolding password_hash_def option.case show_int_def
    using stored_form [of 310000 ?kdf "''pw''" "''salt''" "take 32 (''pw'' @ ''salt'' @ replicate 32 CHR ''x'')"]
    by (simp add: kHashBytes_def kDefaultIterations_def byte_diff_zero del: base64Encode.simps)
  from password_verify_needs_hash [OF this] show ?thesis by (simp add: Let_def)
qed

end
