(* ===== verification/Fw_Url.thy ===== *)
theory Fw_Url
  imports Fw_Prelude
begin

section \<open>URLs and header blocks of the client transports\<close>

text \<open>
  \<open>parseUrl\<close> of the four client transports (\<open>src/HttpTransport.cpp\<close>, \<open>src/HttpsTransport.cpp\<close>,
  \<open>src/WebSocketTransport.cpp\<close>, \<open>src/TcpTransport.cpp\<close>), which are one algorithm with other
  defaults, and \<open>parseHeaders\<close>/\<open>buildHeadersString\<close>. The out-parameters are the result; a failed
  \<open>parseUrl\<close> is \<open>None\<close>. \<open>std::map\<close> is a list of pairs sorted by key.
\<close>

subsection \<open>parseUrl\<close>

record url =
  u_scheme :: string
  u_host :: string
  u_port :: int
  u_path :: string

definition is_slash :: "char \<Rightarrow> bool" where "is_slash c \<longleftrightarrow> c = CHR ''/''"
definition is_colon :: "char \<Rightarrow> bool" where "is_colon c \<longleftrightarrow> c = CHR '':''"

text \<open>
  From the start of the host on: \<open>portStart\<close> and \<open>pathStart\<close> are searched from there. The result is
  the trimmed host, the port (0 when absent) and the path if there is one.
\<close>

definition split_host :: "string \<Rightarrow> nat \<Rightarrow> (string \<times> int \<times> string option) option" where
  "split_host urlStr hostStart =
     (let pathStart = find_from is_slash hostStart urlStr;
          portStart = find_from is_colon hostStart urlStr;
          pathOrEnd = (case pathStart of Some p \<Rightarrow> p | None \<Rightarrow> length urlStr);
          hostEndPort =
            (case portStart of
               Some q \<Rightarrow>
                 if pathStart = None \<or> q < pathOrEnd
                 then map_option (\<lambda>port. (q, port)) (stoi (substr urlStr (q + 1) (pathOrEnd - q - 1)))
                 else Some (pathOrEnd, 0)
             | None \<Rightarrow> Some (pathOrEnd, 0))
      in case hostEndPort of
           None \<Rightarrow> None
         | Some (hostEnd, port) \<Rightarrow>
             let host = trim (substr urlStr hostStart (hostEnd - hostStart))
             in if host = [] then None
                else Some (host, port, map_option (\<lambda>p. drop p urlStr) pathStart))"

definition scheme_end :: "string \<Rightarrow> nat option" where
  "scheme_end urlStr = find_sub ''://'' urlStr"

definition parse_url :: "string \<Rightarrow> string list \<Rightarrow> string \<Rightarrow> url option" where
  "parse_url defaultScheme secure url =
     (let urlStr = trim url
      in if urlStr = [] then None
         else let scheme = (case scheme_end urlStr of None \<Rightarrow> defaultScheme | Some e \<Rightarrow> to_lower (take e urlStr));
                  hostStart = (case scheme_end urlStr of None \<Rightarrow> 0 | Some e \<Rightarrow> e + 3)
              in case split_host urlStr hostStart of
                   None \<Rightarrow> None
                 | Some (host, port, path) \<Rightarrow>
                     Some \<lparr>u_scheme = scheme, u_host = host,
                           u_port = (if port = 0 then (if scheme \<in> set secure then 443 else 80) else port),
                           u_path = (case path of None \<Rightarrow> ''/'' | Some p \<Rightarrow> p)\<rparr>)"

definition http_parseUrl :: "string \<Rightarrow> url option" where
  "http_parseUrl url = parse_url ''http'' [''https''] url"

definition https_parseUrl :: "string \<Rightarrow> url option" where
  "https_parseUrl url = parse_url ''https'' [''https''] url"

definition ws_parseUrl :: "string \<Rightarrow> url option" where
  "ws_parseUrl url = parse_url ''ws'' [''wss'', ''https''] url"

definition tcp_parseUrl :: "string \<Rightarrow> (string \<times> int) option" where
  "tcp_parseUrl url =
     (let urlStr = trim url
      in if urlStr = [] then None
         else let hostStart = (case scheme_end urlStr of None \<Rightarrow> 0 | Some e \<Rightarrow> e + 3)
              in case split_host urlStr hostStart of
                   None \<Rightarrow> None
                 | Some (host, port, _) \<Rightarrow> Some (host, if port = 0 then 80 else port))"

subsection \<open>Header blocks\<close>

text \<open>\<open>m[k] = v\<close> on a \<open>std::map\<close>.\<close>

fun map_put :: "string \<Rightarrow> string \<Rightarrow> (string \<times> string) list \<Rightarrow> (string \<times> string) list" where
  "map_put k v [] = [(k, v)]"
| "map_put k v (p # ps) =
     (if k < fst p then (k, v) # p # ps else if k = fst p then (k, v) # ps else p # map_put k v ps)"

definition is_eol :: "char \<Rightarrow> bool" where
  "is_eol c \<longleftrightarrow> c = CHR 0x0D \<or> c = CHR 0x0A"

text \<open>\<open>boost::split\<close> at line-end characters, adjacent ones taken together.\<close>

function split_lines :: "string \<Rightarrow> string list" where
  "split_lines s =
     (case dropWhile (\<lambda>c. \<not> is_eol c) s of
        [] \<Rightarrow> [takeWhile (\<lambda>c. \<not> is_eol c) s]
      | c # r \<Rightarrow> takeWhile (\<lambda>c. \<not> is_eol c) s # split_lines (dropWhile is_eol r))"
  by pat_completeness auto
termination
proof (relation "measure length")
  fix s r :: string and c
  assume "dropWhile (\<lambda>c. \<not> is_eol c) s = c # r"
  then have "length (c # r) \<le> length s" by (metis length_dropWhile_le)
  moreover have "length (dropWhile is_eol r) \<le> length r" by (rule length_dropWhile_le)
  ultimately show "(dropWhile is_eol r, s) \<in> measure length" by simp
qed simp

declare split_lines.simps [simp del]

definition header_line :: "string \<Rightarrow> (string \<times> string) list \<Rightarrow> (string \<times> string) list" where
  "header_line line headers =
     (if line = [] then headers
      else case find_index is_colon line of
             None \<Rightarrow> headers
           | Some colonPos \<Rightarrow>
               let key = trim (take colonPos line); value = trim (drop (colonPos + 1) line)
               in if key \<noteq> [] \<and> value \<noteq> [] then map_put (to_lower key) value headers else headers)"

definition parseHeaders :: "string \<Rightarrow> (string \<times> string) list" where
  "parseHeaders s = (if s = [] then [] else fold header_line (split_lines s) [])"

definition crlf :: string where "crlf = [CHR 0x0D, CHR 0x0A]"

definition buildHeadersString :: "(string \<times> string) list \<Rightarrow> string" where
  "buildHeadersString headers = concat (map (\<lambda>(k, v). k @ '': '' @ v @ crlf) headers)"

subsection \<open>Facts about parseUrl\<close>

lemma split_host_parts:
  assumes "split_host s i = Some (host, port, path)"
  shows "host \<noteq> []" "trim (take (length host) host) = trim host" "\<forall>p. path = Some p \<longrightarrow> (\<exists>r. p = CHR ''/'' # r)"
proof -
  show "host \<noteq> []" using assms by (auto simp: split_host_def Let_def split: option.splits if_splits)
  show "trim (take (length host) host) = trim host" by simp
  have "\<exists>r. drop p s = CHR ''/'' # r" if "find_from is_slash i s = Some p" for p
  proof -
    from that obtain k where k: "find_index is_slash (drop i s) = Some k" "p = i + k" by (auto simp: find_from_def)
    have "drop p s = drop k (drop i s)" by (simp add: k(2) add.commute)
    with find_index_drop [OF k(1)] show ?thesis by (simp add: is_slash_def)
  qed
  moreover have "path = map_option (\<lambda>p. drop p s) (find_from is_slash i s)"
    using assms by (auto simp: split_host_def Let_def split: option.splits if_splits)
  ultimately show "\<forall>p. path = Some p \<longrightarrow> (\<exists>r. p = CHR ''/'' # r)" by auto
qed

text \<open>What a URL written out in full parses to.\<close>

definition host_char :: "char \<Rightarrow> bool" where
  "host_char c \<longleftrightarrow> c \<noteq> CHR '':'' \<and> c \<noteq> CHR ''/''"

lemma split_host_port:
  assumes "\<forall>c\<in>set host. host_char c" "host \<noteq> []" "trimmed host" "n < 2 ^ 31"
    and "path = [] \<or> (\<exists>r. path = CHR ''/'' # r)"
  shows "split_host (pre @ host @ CHR '':'' # show_nat n @ path) (length pre) =
    Some (host, int n, if path = [] then None else Some path)"
proof -
  let ?s = "pre @ host @ CHR '':'' # show_nat n @ path"
  have colon: "find_from is_colon (length pre) ?s = Some (length pre + length host)"
    using find_index_at [of host is_colon "CHR '':''"] assms(1) by (auto simp: find_from_def is_colon_def host_char_def)
  have nd: "\<not> is_digit CHR ''/''" by (simp add: is_digit_def code_of_def)
  have slash: "find_from is_slash (length pre) ?s =
      (if path = [] then None else Some (length pre + length host + 1 + length (show_nat n)))"
  proof -
    have "\<forall>c\<in>set (host @ CHR '':'' # show_nat n). \<not> is_slash c"
      using assms(1) nd by (auto simp: is_slash_def host_char_def dest: show_nat_digits)
    note a = find_index_append [OF this, of path]
    have d: "drop (length pre) ?s = (host @ CHR '':'' # show_nat n) @ path" by simp
    show ?thesis
    proof (cases "path = []")
      case True
      then show ?thesis unfolding find_from_def d a by simp
    next
      case False
      with assms(5) obtain r where "path = CHR ''/'' # r" by blast
      then show ?thesis unfolding find_from_def d a by (simp add: is_slash_def)
    qed
  qed
  have e: "(case find_from is_slash (length pre) ?s of Some p \<Rightarrow> p | None \<Rightarrow> length ?s) =
      length pre + length host + 1 + length (show_nat n)"
    unfolding slash by simp
  have p: "substr ?s (length pre + length host + 1) (length pre + length host + 1 + length (show_nat n) - (length pre + length host) - 1)
      = show_nat n"
    by (simp add: substr_def)
  have h: "substr ?s (length pre) (length pre + length host - length pre) = host"
    by (simp add: substr_def)
  show ?thesis
    unfolding split_host_def Let_def e colon option.case p h stoi_show_nat [OF assms(4)[folded of_nat_less_iff [where 'a=int], simplified of_nat_power of_nat_numeral]]
    using assms(2) trim_trimmed [OF assms(3)] slash by (simp add: substr_def)
qed

lemma scheme_end_at: "CHR '':'' \<notin> set s \<Longrightarrow> scheme_end (s @ ''://'' @ r) = Some (length s)"
  using find_sub_skip [of "''://''" s] by (simp add: scheme_end_def)



lemma stoi_range: "stoi s = Some v \<Longrightarrow> - (2 ^ 31) \<le> v \<and> v < 2 ^ 31"
  by (auto simp: stoi_def parse_int_def Let_def split: prod.splits if_splits)

lemma split_host_range: "split_host s i = Some (host, port, path) \<Longrightarrow> - (2 ^ 31) \<le> port \<and> port < 2 ^ 31"
  by (auto simp: split_host_def Let_def split: option.splits if_splits dest: stoi_range)

text \<open>
  what a parsed URL is good for. Whatever the input, the host is not empty, the path starts
  with a slash, the port is not zero and fits an \<open>int\<close>. Nothing more is checked of the port:
  \<open>http://h:99999\<close> and \<open>http://h:-5\<close> are accepted with the ports 99999 and -5.
\<close>

theorem parse_url_sound:
  assumes "parse_url d secure url = Some u"
  shows "u_host u \<noteq> [] \<and> (\<exists>r. u_path u = CHR ''/'' # r) \<and> u_port u \<noteq> 0 \<and> - (2 ^ 31) \<le> u_port u \<and> u_port u < 2 ^ 31"
proof -
  from assms obtain i host port path where
    sh: "split_host (trim url) i = Some (host, port, path)" and
    u: "u_host u = host" "u_port u = (if port = 0 then (if u_scheme u \<in> set secure then 443 else 80) else port)"
      "u_path u = (case path of None \<Rightarrow> ''/'' | Some p \<Rightarrow> p)"
    by (auto simp: parse_url_def Let_def split: option.splits if_splits)
  from split_host_parts [OF sh] split_host_range [OF sh] u show ?thesis
    by (auto split: option.splits)
qed

lemma parse_url_sound_witness:
  "http_parseUrl ''http://h:-5'' = Some \<lparr>u_scheme = ''http'', u_host = ''h'', u_port = - 5, u_path = ''/''\<rparr> \<and> (- 5 :: int) \<noteq> 0"
proof -
  have b: "parse_url ''http'' [''https''] ''http://h:-5'' =
      Some \<lparr>u_scheme = ''http'', u_host = ''h'', u_port = - 5, u_path = ''/''\<rparr>" by code_simp
  from parse_url_sound [OF b] b show ?thesis by (simp add: http_parseUrl_def)
qed

subsection \<open>Facts about header blocks\<close>

definition keys_sorted :: "(string \<times> string) list \<Rightarrow> bool" where
  "keys_sorted m \<longleftrightarrow> sorted_wrt (<) (map fst m)"

lemma keys_sorted_Cons: "keys_sorted (p # m) \<longleftrightarrow> (\<forall>q\<in>set m. fst p < fst q) \<and> keys_sorted m"
  by (simp add: keys_sorted_def)

lemma map_put_set: "set (map_put k v m) \<subseteq> insert (k, v) (set m)"
  by (induction m) auto

lemma map_put_sorted: "keys_sorted m \<Longrightarrow> keys_sorted (map_put k v m)"
proof (induction m)
  case Nil
  show ?case by (simp add: keys_sorted_def)
next
  case (Cons p m)
  then have m: "keys_sorted m" "\<forall>q\<in>set m. fst p < fst q" by (simp_all add: keys_sorted_Cons)
  consider "k < fst p" | "k = fst p" | "fst p < k" by fastforce
  then show ?case
  proof cases
    case 3
    have "\<forall>q\<in>set (map_put k v m). fst p < fst q" using map_put_set [of k v m] m(2) 3 by auto
    with Cons.IH [OF m(1)] 3 show ?thesis by (auto simp: keys_sorted_Cons)
  qed (use m in \<open>auto simp: keys_sorted_Cons\<close>)
qed

lemma map_put_last: "\<forall>p\<in>set m. fst p < k \<Longrightarrow> map_put k v m = m @ [(k, v)]"
  by (induction m) (auto dest: less_not_sym)

definition good_header :: "string \<times> string \<Rightarrow> bool" where
  "good_header p \<longleftrightarrow> fst p \<noteq> [] \<and> snd p \<noteq> [] \<and> trimmed (fst p) \<and> trimmed (snd p) \<and>
     to_lower (fst p) = fst p \<and> CHR '':'' \<notin> set (fst p) \<and>
     (\<forall>c\<in>set (fst p) \<union> set (snd p). \<not> is_eol c)"

lemma trim_is_trimmed: "trimmed (trim s)"
proof -
  let ?a = "dropWhile is_space s"
  have 1: "\<not> is_space (last (trim s))" if "trim s \<noteq> []"
    using that hd_dropWhile [of is_space "rev ?a"] by (simp add: trim_def last_rev)
  have 2: "\<not> is_space (hd (trim s))" if ne: "trim s \<noteq> []"
  proof -
    have d: "trim s = take (length (trim s)) ?a"
      unfolding trim_def
      by (metis append_eq_conv_conj rev_append rev_rev_ident takeWhile_dropWhile_id)
    then have "?a \<noteq> []" using ne by (metis take_Nil)
    moreover have "hd (trim s) = hd ?a" using d ne by (metis hd_take length_greater_0_conv)
    ultimately show ?thesis using hd_dropWhile [of is_space s] by simp
  qed
  show ?thesis using 1 2 by (simp add: trimmed_def)
qed

lemma space_lower: "is_space (lower_char c) \<longleftrightarrow> is_space c"
  by (auto simp: lower_char_def is_upper_def is_space_def)

lemma trimmed_lower: "trimmed s \<Longrightarrow> trimmed (to_lower s)"
  by (cases "s = []") (simp_all add: trimmed_def to_lower_def hd_map last_map space_lower)

lemma eol_lower: "is_eol (lower_char c) \<longleftrightarrow> is_eol c"
proof -
  have n: "\<not> is_upper CHR 0x0D" "\<not> is_upper CHR 0x0A" by (simp_all add: is_upper_def code_of_def)
  show ?thesis
  proof (cases "is_upper c")
    case True
    then have "97 \<le> code_of (lower_char c)" by (simp add: lower_char_def is_upper_def)
    then have "\<not> is_eol (lower_char c)" by (auto simp: is_eol_def code_of_def)
    with True n show ?thesis by (auto simp: is_eol_def)
  qed simp
qed

lemma colon_lower: "lower_char c = CHR '':'' \<longleftrightarrow> c = CHR '':''"
proof (cases "is_upper c")
  case True
  then have "97 \<le> code_of (lower_char c)" by (simp add: lower_char_def is_upper_def)
  then have "lower_char c \<noteq> CHR '':''" by (auto simp: code_of_def)
  moreover have "c \<noteq> CHR '':''" using True by (auto simp: is_upper_def code_of_def)
  ultimately show ?thesis by simp
qed simp

lemma colon_to_lower: "CHR '':'' \<notin> set s \<Longrightarrow> CHR '':'' \<notin> set (to_lower s)"
  unfolding to_lower_def set_map using colon_lower by (metis imageE)

lemma eol_to_lower: "\<forall>c\<in>set s. \<not> is_eol c \<Longrightarrow> \<forall>c\<in>set (to_lower s). \<not> is_eol c"
  by (simp add: to_lower_def eol_lower)

lemma header_line_good:
  assumes "\<forall>c\<in>set line. \<not> is_eol c" "keys_sorted m" "\<forall>p\<in>set m. good_header p"
  shows "keys_sorted (header_line line m) \<and> (\<forall>p\<in>set (header_line line m). good_header p)"
proof (cases "find_index is_colon line")
  case (Some i)
  let ?k = "trim (take i line)" and ?v = "trim (drop (i + 1) line)"
  have k: "set ?k \<subseteq> set (take i line)" and v: "set ?v \<subseteq> set line"
    using set_trim set_drop_subset by (fastforce)+
  have "CHR '':'' \<notin> set ?k" using k find_index_Some [OF Some] by (auto simp: is_colon_def)
  moreover have "\<forall>c\<in>set ?k \<union> set ?v. \<not> is_eol c" using k v assms(1) set_take_subset by fastforce
  ultimately have "good_header (to_lower ?k, ?v)" if "?k \<noteq> []" "?v \<noteq> []"
    using that trim_is_trimmed trimmed_lower colon_to_lower eol_to_lower [of ?k]
    by (simp add: good_header_def ball_Un) (simp add: to_lower_def)
  then have "good_header (to_lower ?k, ?v)" if "?k \<noteq> [] \<and> ?v \<noteq> []" using that by blast
  with assms(2,3) map_put_sorted map_put_set [of "to_lower ?k" ?v m] Some show ?thesis
    by (auto simp: header_line_def Let_def)
qed (use assms in \<open>simp add: header_line_def\<close>)

lemma split_lines_no_eol: "line \<in> set (split_lines s) \<Longrightarrow> \<forall>c\<in>set line. \<not> is_eol c"
proof (induction s rule: split_lines.induct)
  case (1 s)
  have tw: "\<forall>c\<in>set (takeWhile (\<lambda>c. \<not> is_eol c) s). \<not> is_eol c" by (auto dest: set_takeWhileD)
  show ?case
  proof (cases "dropWhile (\<lambda>c. \<not> is_eol c) s")
    case Nil
    with "1.prems" tw show ?thesis by (subst (asm) split_lines.simps) simp
  next
    case (Cons c r)
    with "1.prems" have "line = takeWhile (\<lambda>c. \<not> is_eol c) s \<or> line \<in> set (split_lines (dropWhile is_eol r))"
      by (subst (asm) split_lines.simps) simp
    with "1.IH" [OF Cons] tw show ?thesis by blast
  qed
qed

lemma fold_header_lines:
  "\<forall>l\<in>set ls. \<forall>c\<in>set l. \<not> is_eol c \<Longrightarrow> keys_sorted m \<Longrightarrow> \<forall>p\<in>set m. good_header p \<Longrightarrow>
   keys_sorted (fold header_line ls m) \<and> (\<forall>p\<in>set (fold header_line ls m). good_header p)"
proof (induction ls arbitrary: m)
  case (Cons l ls)
  from header_line_good [of l m] Cons.prems
  have "keys_sorted (header_line l m)" "\<forall>p\<in>set (header_line l m). good_header p" by simp_all
  from Cons.IH [OF _ this] Cons.prems(1) show ?case by simp
qed simp

lemma split_lines_step:
  assumes "\<forall>c\<in>set line. \<not> is_eol c" and "rest = [] \<or> \<not> is_eol (hd rest)"
  shows "split_lines (line @ crlf @ rest) = line # split_lines rest"
proof -
  have e: "is_eol CHR 0x0D" "is_eol CHR 0x0A" by (simp_all add: is_eol_def)
  have "dropWhile (\<lambda>c. \<not> is_eol c) (line @ crlf @ rest) = CHR 0x0D # CHR 0x0A # rest"
    "takeWhile (\<lambda>c. \<not> is_eol c) (line @ crlf @ rest) = line"
    using assms(1) e by (simp_all add: crlf_def)
  moreover have "dropWhile is_eol (CHR 0x0A # rest) = rest"
    using assms(2) e by (simp add: dropWhile_hd)
  ultimately show ?thesis by (subst split_lines.simps) simp
qed

lemma header_line_build:
  assumes "good_header (k, v)" "\<forall>p\<in>set m. fst p < k"
  shows "header_line (k @ '': '' @ v) m = m @ [(k, v)]"
proof -
  have "find_index is_colon (k @ CHR '':'' # CHR '' '' # v) = Some (length k)"
    using assms(1) by (intro find_index_at) (auto simp: good_header_def is_colon_def)
  moreover have "trim k = k" "trim (CHR '' '' # v) = v"
    using assms(1) by (simp_all add: good_header_def trim_trimmed trim_blank_left is_space_def code_of_def)
  ultimately show ?thesis
    using assms by (simp add: header_line_def good_header_def map_put_last)
qed

lemma good_line: "good_header (k, v) \<Longrightarrow> \<forall>c\<in>set (k @ '': '' @ v). \<not> is_eol c"
  by (auto simp: good_header_def) (simp_all add: is_eol_def)

lemma build_head: "\<forall>p\<in>set m. good_header p \<Longrightarrow> buildHeadersString m = [] \<or> \<not> is_eol (hd (buildHeadersString m))"
proof (cases m)
  case (Cons p m')
  moreover assume "\<forall>p\<in>set m. good_header p"
  ultimately have "good_header p" by simp
  then show ?thesis unfolding Cons by (cases p; cases "fst p") (auto simp: buildHeadersString_def good_header_def)
qed (simp add: buildHeadersString_def)

lemma parse_build:
  "keys_sorted (m @ m') \<Longrightarrow> \<forall>p\<in>set m'. good_header p \<Longrightarrow>
   fold header_line (split_lines (buildHeadersString m')) m = m @ m'"
proof (induction m' arbitrary: m)
  case Nil
  have "split_lines [] = [[]]" by (subst split_lines.simps) simp
  then show ?case by (simp add: buildHeadersString_def header_line_def)
next
  case (Cons p m')
  obtain k v where p: "p = (k, v)" by fastforce
  have g: "good_header (k, v)" and g': "\<forall>p\<in>set m'. good_header p" using Cons.prems p by simp_all
  have lt: "\<forall>q\<in>set m. fst q < k" using Cons.prems(1) by (simp add: keys_sorted_def sorted_wrt_append p)
  have "split_lines (buildHeadersString (p # m')) = (k @ '': '' @ v) # split_lines (buildHeadersString m')"
    using split_lines_step [OF good_line [OF g] build_head [OF g']] by (simp add: buildHeadersString_def p)
  then show ?case
    using Cons.IH [of "m @ [p]"] Cons.prems(1) g' header_line_build [OF g lt] p by simp
qed

lemma parseHeaders_good: "keys_sorted (parseHeaders s) \<and> list_all good_header (parseHeaders s)"
  using fold_header_lines [of "split_lines s" "[]"] split_lines_no_eol
  by (auto simp: parseHeaders_def list_all_iff keys_sorted_def)

text \<open>
  C35: no header can smuggle in another. For any header text, the parsed headers have distinct keys
  in order; keys and values are not empty, carry no blanks around and no line end, and a key is in
  lower case and has no colon. What the transports hand to libhv is this.
\<close>

theorem parse_headers_clean:
  "keys_sorted (parseHeaders s) \<and> list_all good_header (parseHeaders s)"
  by (rule parseHeaders_good)

text \<open>
  headers survive printing and parsing: for every map of headers of the form above,
  \<open>parseHeaders\<close> gives back what \<open>buildHeadersString\<close> wrote.
\<close>

theorem parse_headers_roundtrip:
  assumes "keys_sorted m" and "\<forall>p\<in>set m. good_header p"
  shows "parseHeaders (buildHeadersString m) = m"
proof (cases m)
  case Nil
  then show ?thesis by (simp add: parseHeaders_def buildHeadersString_def)
next
  case (Cons p m')
  then have "buildHeadersString m \<noteq> []" by (auto simp: buildHeadersString_def split: prod.splits)
  with parse_build [of "[]" m] assms show ?thesis by (simp add: parseHeaders_def)
qed

lemma parse_headers_roundtrip_witness:
  "parseHeaders (buildHeadersString [(''accept'', ''*/*''), (''host'', ''a b'')]) = [(''accept'', ''*/*''), (''host'', ''a b'')]"
proof -
  have "keys_sorted [(''accept'', ''*/*''), (''host'', ''a b'')]" by code_simp
  moreover have "\<forall>p\<in>set [(''accept'', ''*/*''), (''host'', ''a b'')]. good_header p" by code_simp
  ultimately show ?thesis by (rule parse_headers_roundtrip)
qed

end
