(* ===== verification/Fw_HttpClient.thy ===== *)
theory Fw_HttpClient
  imports Fw_Url "HOL-Library.Signed_Division"
begin

section \<open>HTTP and HTTPS client transports\<close>

text \<open>
  \<open>include/fw/TransportTypes.hpp\<close>, \<open>src/HttpTransport.cpp\<close> and \<open>src/HttpsTransport.cpp\<close>. libhv is a
  parameter: \<open>send\<close> maps the request object the transport builds to the outcome of
  \<open>HttpClient::send\<close>. Every method that touches the state holds the client mutex, so it is one
  step. The log is not modelled.
\<close>

subsection \<open>Requests and responses\<close>

record request =
  rq_url :: string
  rq_method :: string
  rq_headers :: string
  rq_body :: string
  rq_timeout :: int
  rq_connect_timeout :: int
  rq_read_timeout :: int
  rq_write_timeout :: int
  rq_close_timeout :: int
  rq_keepalive_timeout :: int

definition request0 :: request where
  "request0 = \<lparr>rq_url = [], rq_method = [], rq_headers = [], rq_body = [], rq_timeout = - 1,
     rq_connect_timeout = - 1, rq_read_timeout = - 1, rq_write_timeout = - 1, rq_close_timeout = - 1,
     rq_keepalive_timeout = - 1\<rparr>"

record response =
  rs_statusCode :: int
  rs_headers :: string
  rs_body :: string
  rs_errorMessage :: string

definition response0 :: response where
  "response0 = \<lparr>rs_statusCode = 0, rs_headers = [], rs_body = [], rs_errorMessage = []\<rparr>"

definition isSuccess :: "response \<Rightarrow> bool" where
  "isSuccess r \<longleftrightarrow> 200 \<le> rs_statusCode r \<and> rs_statusCode r < 300"

text \<open>\<open>statusCode = -1\<close> and the message, the common way to fail.\<close>

definition failed :: "string \<Rightarrow> response \<Rightarrow> response" where
  "failed msg r = r\<lparr>rs_statusCode := - 1, rs_errorMessage := msg\<rparr>"

subsection \<open>libhv\<close>

text \<open>\<open>HTTP_ENUM s\<close> is what libhv's \<open>http_method_enum\<close> makes of an unusual method.\<close>

datatype hv_method = HTTP_GET | HTTP_POST | HTTP_PUT | HTTP_DELETE | HTTP_HEAD | HTTP_OPTIONS | HTTP_ENUM string

record hv_request =
  hq_url :: string
  hq_method :: hv_method
  hq_headers :: "(string \<times> string) list"
  hq_body :: string
  hq_timeout :: u16
  hq_connect_timeout :: u16

text \<open>Headers of a response in the order of libhv's map, and that map's own lookup.\<close>

record hv_response =
  hr_status :: int
  hr_body :: string
  hr_headers :: "(string \<times> string) list"
  hr_find :: "string \<Rightarrow> string option"

datatype hv_outcome = Returned int hv_response | Threw string | ThrewOther

subsection \<open>State\<close>

record http_client =
  hc_client :: bool
  hc_timeout :: int
  hc_connectTimeout :: int
  hc_readTimeout :: int
  hc_writeTimeout :: int
  hc_closeTimeout :: int
  hc_keepaliveTimeout :: int
  hc_connected :: bool

text \<open>\<open>created\<close>: whether \<open>new hv::HttpClient\<close> succeeded.\<close>

definition http_new :: "bool \<Rightarrow> http_client" where
  "http_new created = \<lparr>hc_client = created, hc_timeout = 30000, hc_connectTimeout = 3000,
     hc_readTimeout = 30000, hc_writeTimeout = 30000, hc_closeTimeout = 5000,
     hc_keepaliveTimeout = 60000, hc_connected = False\<rparr>"

subsection \<open>sendRequest\<close>

definition pick_method :: "string \<Rightarrow> hv_method" where
  "pick_method m =
     (if m = [] then HTTP_GET
      else let u = to_upper m
      in if u = ''GET'' then HTTP_GET
         else if u = ''POST'' then HTTP_POST
         else if u = ''PUT'' then HTTP_PUT
         else if u = ''DELETE'' then HTTP_DELETE
         else if u = ''HEAD'' then HTTP_HEAD
         else if u = ''OPTIONS'' then HTTP_OPTIONS
         else HTTP_ENUM m)"

text \<open>\<open>static_cast<uint16_t>(std::min(t / 1000, 65535))\<close>; \<open>/\<close> rounds to zero.\<close>

definition timeout_seconds :: "int \<Rightarrow> u16" where
  "timeout_seconds t = word_of_int (min (t sdiv 1000) 65535)"

definition build_hv_request :: "request \<Rightarrow> http_client \<Rightarrow> hv_request" where
  "build_hv_request req c =
     \<lparr>hq_url = rq_url req,
      hq_method = pick_method (rq_method req),
      hq_headers = (if rq_headers req \<noteq> [] then parseHeaders (rq_headers req) else []),
      hq_body = rq_body req,
      hq_timeout = timeout_seconds (if 0 \<le> rq_timeout req then rq_timeout req else hc_timeout c),
      hq_connect_timeout =
        timeout_seconds (if 0 \<le> rq_connect_timeout req then rq_connect_timeout req else hc_connectTimeout c)\<rparr>"

definition convert_response :: "hv_response \<Rightarrow> response \<Rightarrow> response" where
  "convert_response h resp =
     (let r = resp\<lparr>rs_statusCode := hr_status h, rs_body := hr_body h,
                   rs_headers := concat (map (\<lambda>(k, v). k @ '': '' @ v @ crlf) (hr_headers h))\<rparr>
      in if 400 \<le> rs_statusCode r
         then let reason = (case hr_find h ''reason'' of
                              Some x \<Rightarrow> x
                            | None \<Rightarrow> (case hr_find h ''Reason-Phrase'' of Some x \<Rightarrow> x | None \<Rightarrow> ''Request failed''))
              in r\<lparr>rs_errorMessage := ''HTTP '' @ show_int (rs_statusCode r) @ '': '' @ reason\<rparr>
         else r)"

text \<open>
  The body both transports share; they differ in \<open>parse\<close>, in the schemes they accept and in the
  message for another scheme. The last result is the request object passed to libhv, if any.
\<close>

definition client_send ::
  "(string \<Rightarrow> url option) \<Rightarrow> string list \<Rightarrow> string \<Rightarrow> (hv_request \<Rightarrow> hv_outcome) \<Rightarrow>
   request \<Rightarrow> response \<Rightarrow> http_client \<Rightarrow> int \<times> response \<times> http_client \<times> hv_request option" where
  "client_send parse schemes schemeMsg send req resp c =
     (if \<not> hc_client c then (- 1, failed ''HttpClient not initialized'' resp, c, None)
      else case parse (rq_url req) of
             None \<Rightarrow> (- 1, failed (''Invalid URL format: '' @ rq_url req) resp, c, None)
           | Some u \<Rightarrow>
               if u_scheme u \<notin> set schemes then (- 1, failed schemeMsg resp, c, None)
               else let hq = build_hv_request req c
                    in case send hq of
                         Returned ret h \<Rightarrow>
                           if ret \<noteq> 0
                           then (- 1, failed (''Request failed with code: '' @ show_int ret @ '', URL: '' @ rq_url req) resp,
                                 c\<lparr>hc_connected := False\<rparr>, Some hq)
                           else (0, convert_response h resp, c\<lparr>hc_connected := True\<rparr>, Some hq)
                       | Threw what \<Rightarrow>
                           (- 1, failed (''Exception: '' @ what) resp, c\<lparr>hc_connected := False\<rparr>, Some hq)
                       | ThrewOther \<Rightarrow>
                           (- 1, failed ''Unknown exception'' resp, c\<lparr>hc_connected := False\<rparr>, Some hq))"

definition http_sendRequest ::
  "(hv_request \<Rightarrow> hv_outcome) \<Rightarrow> request \<Rightarrow> response \<Rightarrow> http_client \<Rightarrow> int \<times> response \<times> http_client \<times> hv_request option" where
  "http_sendRequest = client_send http_parseUrl [''http'']
     ''Only HTTP scheme is supported (use HttpsTransport for HTTPS)''"

definition https_sendRequest ::
  "(hv_request \<Rightarrow> hv_outcome) \<Rightarrow> request \<Rightarrow> response \<Rightarrow> http_client \<Rightarrow> int \<times> response \<times> http_client \<times> hv_request option" where
  "https_sendRequest = client_send https_parseUrl [''http'', ''https'']
     ''Only HTTP and HTTPS schemes are supported''"

subsection \<open>The other operations\<close>

definition http_receiveResponse :: "response \<Rightarrow> http_client \<Rightarrow> int \<times> response" where
  "http_receiveResponse resp c =
     (if hc_connected c then (0, resp) else (- 1, failed ''No active connection'' resp))"

definition http_isConnected :: "http_client \<Rightarrow> bool" where
  "http_isConnected c \<longleftrightarrow> hc_connected c \<and> hc_client c"

definition http_connect :: "http_client \<Rightarrow> bool" where
  "http_connect c \<longleftrightarrow> hc_connected c \<and> hc_client c"

definition http_disconnect :: "http_client \<Rightarrow> http_client" where
  "http_disconnect c = c\<lparr>hc_client := False, hc_connected := False\<rparr>"

datatype timeout_kind = TotalTimeout | ConnectTimeout | ReadTimeout | WriteTimeout | CloseTimeout | KeepaliveTimeout

fun http_setTimeout :: "timeout_kind \<Rightarrow> int \<Rightarrow> http_client \<Rightarrow> http_client" where
  "http_setTimeout TotalTimeout ms c = c\<lparr>hc_timeout := ms\<rparr>"
| "http_setTimeout ConnectTimeout ms c = c\<lparr>hc_connectTimeout := ms\<rparr>"
| "http_setTimeout ReadTimeout ms c = c\<lparr>hc_readTimeout := ms\<rparr>"
| "http_setTimeout WriteTimeout ms c = c\<lparr>hc_writeTimeout := ms\<rparr>"
| "http_setTimeout CloseTimeout ms c = c\<lparr>hc_closeTimeout := ms\<rparr>"
| "http_setTimeout KeepaliveTimeout ms c = c\<lparr>hc_keepaliveTimeout := ms\<rparr>"

text \<open>\<open>buildHeadersString\<close> prints what \<open>convert_response\<close> prints.\<close>

subsection \<open>Properties of a request\<close>

lemma timeout_seconds_exact: "0 \<le> t \<Longrightarrow> uint (timeout_seconds t) = min (t div 1000) 65535"
proof -
  assume t: "0 \<le> t"
  have "t sdiv 1000 = t div 1000" using t by (auto simp: signed_divide_int_def sgn_if)
  moreover have "0 \<le> t div 1000" using t by simp
  ultimately show ?thesis
    by (simp add: timeout_seconds_def unsigned_of_int take_bit_int_eq_self)
qed

definition reaches_libhv :: "(string \<Rightarrow> url option) \<Rightarrow> string list \<Rightarrow> request \<Rightarrow> http_client \<Rightarrow> bool" where
  "reaches_libhv parse schemes req c \<longleftrightarrow>
     hc_client c \<and> (case parse (rq_url req) of None \<Rightarrow> False | Some u \<Rightarrow> u_scheme u \<in> set schemes)"

lemma client_send_contract:
  assumes "client_send parse schemes msg send req resp c = (ret, resp', c', sent)" "msg \<noteq> []"
  shows "ret \<in> {0, - 1} \<and>
    (ret = 0 \<longleftrightarrow> reaches_libhv parse schemes req c \<and> (\<exists>h. send (build_hv_request req c) = Returned 0 h \<and>
       rs_statusCode resp' = hr_status h \<and> rs_body resp' = hr_body h \<and> hc_connected c')) \<and>
    (ret = - 1 \<longrightarrow> rs_statusCode resp' = - 1 \<and> rs_errorMessage resp' \<noteq> [] \<and>
       rs_body resp' = rs_body resp \<and> rs_headers resp' = rs_headers resp)"
  using assms
  by (auto simp: client_send_def reaches_libhv_def failed_def convert_response_def Let_def
      split: if_splits option.splits hv_outcome.splits)

text \<open>
  C37: a request succeeds exactly when it should. Both transports return 0 exactly when the client
  exists, the URL parses, its scheme is one the transport supports and libhv's send returned 0; the
  response then carries libhv's status and body and the transport counts as connected. In every
  other case the result is -1, the status is -1 with a message, and body and headers of the
  response are left as they were.
\<close>

theorem http_send_contract:
  assumes "(parse, schemes, sendf) \<in> {(http_parseUrl, [''http''], http_sendRequest),
      (https_parseUrl, [''http'', ''https''], https_sendRequest)}"
    and "sendf send req resp c = (ret, resp', c', sent)"
  shows "ret \<in> {0, - 1} \<and>
    (ret = 0 \<longleftrightarrow> reaches_libhv parse schemes req c \<and> (\<exists>h. send (build_hv_request req c) = Returned 0 h \<and>
       rs_statusCode resp' = hr_status h \<and> rs_body resp' = hr_body h \<and> hc_connected c')) \<and>
    (ret = - 1 \<longrightarrow> rs_statusCode resp' = - 1 \<and> rs_errorMessage resp' \<noteq> [] \<and>
       rs_body resp' = rs_body resp \<and> rs_headers resp' = rs_headers resp)"
proof -
  from assms obtain msg where "client_send parse schemes msg send req resp c = (ret, resp', c', sent)" "msg \<noteq> []"
    by (auto simp: http_sendRequest_def https_sendRequest_def)
  then show ?thesis by (rule client_send_contract)
qed

definition ok_send :: "hv_request \<Rightarrow> hv_outcome" where
  "ok_send hq = Returned 0 \<lparr>hr_status = 200, hr_body = hq_url hq, hr_headers = [(''A'', ''b'')], hr_find = (\<lambda>_. None)\<rparr>"

lemma http_send_contract_witness:
  "fst (http_sendRequest ok_send (request0\<lparr>rq_url := ''http://h/x''\<rparr>) response0 (http_new True)) = 0 \<and>
   fst (http_sendRequest ok_send (request0\<lparr>rq_url := ''https://h/x''\<rparr>) response0 (http_new True)) = - 1"
proof -
  let ?q1 = "request0\<lparr>rq_url := ''http://h/x''\<rparr>" and ?q2 = "request0\<lparr>rq_url := ''https://h/x''\<rparr>"
  have r: "reaches_libhv http_parseUrl [''http''] ?q1 (http_new True)"
    "\<not> reaches_libhv http_parseUrl [''http''] ?q2 (http_new True)" by code_simp+
  note c = http_send_contract [of http_parseUrl "[''http'']" http_sendRequest ok_send _ response0 "http_new True"]
  obtain ret resp' c' sent where 1: "http_sendRequest ok_send ?q1 response0 (http_new True) = (ret, resp', c', sent)"
    by (metis prod_cases4)
  obtain ret2 resp2 c2 sent2 where 2: "http_sendRequest ok_send ?q2 response0 (http_new True) = (ret2, resp2, c2, sent2)"
    by (metis prod_cases4)
  have "resp' = convert_response \<lparr>hr_status = 200, hr_body = ''http://h/x'', hr_headers = [(''A'', ''b'')], hr_find = (\<lambda>_. None)\<rparr> response0 \<and> hc_connected c'"
    using 1 r(1) by (auto simp: http_sendRequest_def client_send_def reaches_libhv_def ok_send_def
        build_hv_request_def Let_def split: option.splits)
  with c [OF _ 1] r(1) have "ret = 0"
    by (simp add: ok_send_def build_hv_request_def convert_response_def)
  moreover from c [OF _ 2] r(2) have "ret2 = - 1" by auto
  ultimately show ?thesis using 1 2 by simp
qed

text \<open>
  what libhv is asked to do. When a request reaches libhv its headers are clean in the sense of
  the header parser, and each timeout is the request's, or the transport's when the request has
  none, in whole seconds, at most 65535 and never wrapped around. (So a timeout below one second
  becomes 0.)
\<close>

theorem http_request_sent:
  assumes "http_sendRequest send req resp c = (ret, resp', c', Some hq) \<or>
      https_sendRequest send req resp c = (ret, resp', c', Some hq)"
    and "0 \<le> hc_timeout c" and "0 \<le> hc_connectTimeout c"
  shows "hq_url hq = rq_url req \<and> hq_body hq = rq_body req \<and>
    keys_sorted (hq_headers hq) \<and> list_all good_header (hq_headers hq) \<and>
    uint (hq_timeout hq) = min ((if 0 \<le> rq_timeout req then rq_timeout req else hc_timeout c) div 1000) 65535 \<and>
    uint (hq_connect_timeout hq) =
      min ((if 0 \<le> rq_connect_timeout req then rq_connect_timeout req else hc_connectTimeout c) div 1000) 65535"
proof -
  have "hq = build_hv_request req c"
    using assms(1) by (auto simp: http_sendRequest_def https_sendRequest_def client_send_def Let_def
        split: if_splits option.splits hv_outcome.splits)
  then show ?thesis
    using assms(2,3) parseHeaders_good [of "rq_headers req"]
    by (simp add: build_hv_request_def timeout_seconds_exact keys_sorted_def)
qed

lemma http_request_sent_witness:
  "uint (hq_timeout (build_hv_request (request0\<lparr>rq_url := ''http://h/x'', rq_timeout := 2500\<rparr>) (http_new True))) = 2"
proof -
  let ?q = "request0\<lparr>rq_url := ''http://h/x'', rq_timeout := 2500\<rparr>" and ?c = "http_new True"
  have "reaches_libhv http_parseUrl [''http''] ?q ?c" by code_simp
  then obtain ret resp' c' where "http_sendRequest ok_send ?q response0 ?c = (ret, resp', c', Some (build_hv_request ?q ?c))"
    by (auto simp: http_sendRequest_def client_send_def reaches_libhv_def ok_send_def Let_def split: option.splits)
  from http_request_sent [OF disjI1 [OF this]] show ?thesis by (simp add: http_new_def request0_def)
qed

subsection \<open>Life after disconnect\<close>

datatype http_op = Send request | Receive | Connect | Disconnect | SetTimeout timeout_kind int

fun http_step :: "bool \<Rightarrow> (hv_request \<Rightarrow> hv_outcome) \<Rightarrow> http_op \<Rightarrow> http_client \<Rightarrow> http_client" where
  "http_step tls send (Send req) c =
     (case (if tls then https_sendRequest else http_sendRequest) send req response0 c of (_, _, c', _) \<Rightarrow> c')"
| "http_step tls send Receive c = (case http_receiveResponse response0 c of _ \<Rightarrow> c)"
| "http_step tls send Connect c = (case http_connect c of _ \<Rightarrow> c)"
| "http_step tls send Disconnect c = http_disconnect c"
| "http_step tls send (SetTimeout k ms) c = http_setTimeout k ms c"

lemma http_step_dead: "\<not> hc_client c \<Longrightarrow> \<not> hc_connected c \<Longrightarrow>
   \<not> hc_client (http_step tls send op c) \<and> \<not> hc_connected (http_step tls send op c)"
proof (cases op)
  case (SetTimeout k ms)
  then show "\<not> hc_client c \<Longrightarrow> \<not> hc_connected c \<Longrightarrow> ?thesis" by (cases k) simp_all
qed (auto simp: http_sendRequest_def https_sendRequest_def client_send_def http_disconnect_def split: bool.splits)

lemma http_run_dead: "\<not> hc_client c \<Longrightarrow> \<not> hc_connected c \<Longrightarrow>
   \<not> hc_client (fold (http_step tls send) ops c) \<and> \<not> hc_connected (fold (http_step tls send) ops c)"
proof (induction ops arbitrary: c)
  case (Cons op ops)
  from http_step_dead [OF Cons.prems] Cons.IH [of "http_step tls send op c"] show ?case by simp
qed simp

text \<open>
  disconnecting is for ever. \<open>disconnect\<close> destroys libhv's client and nothing creates another:
  whatever operations follow, with whatever behaviour of libhv, every later request of either
  transport fails with \<open>HttpClient not initialized\<close>, nothing is sent, \<open>receiveResponse\<close> fails and
  \<open>connect\<close> and \<open>isConnected\<close> answer false.
\<close>

theorem http_disconnect_final:
  assumes "c = fold (http_step tls send) ops (http_disconnect c0)"
  shows "http_sendRequest send req resp c = (- 1, failed ''HttpClient not initialized'' resp, c, None) \<and>
    https_sendRequest send req resp c = (- 1, failed ''HttpClient not initialized'' resp, c, None) \<and>
    fst (http_receiveResponse resp c) = - 1 \<and> \<not> http_connect c \<and> \<not> http_isConnected c"
proof -
  have "\<not> hc_client c" "\<not> hc_connected c"
    unfolding assms using http_run_dead [of "http_disconnect c0" tls send ops] by (simp_all add: http_disconnect_def)
  then show ?thesis
    by (simp add: http_sendRequest_def https_sendRequest_def client_send_def http_receiveResponse_def
        http_connect_def http_isConnected_def)
qed

lemma http_disconnect_final_witness:
  "fst (http_sendRequest ok_send (request0\<lparr>rq_url := ''http://h/x''\<rparr>) response0
     (fold (http_step False ok_send) [SetTimeout ReadTimeout 5, Connect] (http_disconnect (http_new True)))) = - 1"
  using http_disconnect_final [OF refl, of ok_send "request0\<lparr>rq_url := ''http://h/x''\<rparr>" response0 False
    "[SetTimeout ReadTimeout 5, Connect]" "http_new True"] by simp

subsection \<open>TLS configuration of the HTTPS transport\<close>

record ssl_config =
  sc_caCertPath :: string
  sc_clientCertPath :: string
  sc_clientKeyPath :: string
  sc_clientKeyPassword :: string
  sc_verifyPeer :: bool
  sc_verifyHost :: bool
  sc_sslVersion :: string
  sc_sessionReuse :: bool

definition ssl_config0 :: ssl_config where
  "ssl_config0 = \<lparr>sc_caCertPath = [], sc_clientCertPath = [], sc_clientKeyPath = [], sc_clientKeyPassword = [],
     sc_verifyPeer = True, sc_verifyHost = True, sc_sslVersion = ''TLS1.2'', sc_sessionReuse = True\<rparr>"

record ssl_opt =
  so_verify_peer :: bool
  so_ca_path :: "string option"
  so_ca_file :: "string option"
  so_crt_file :: "string option"
  so_key_file :: "string option"

datatype tls_version = TLS1_0 | TLS1_1 | TLS1_2 | TLS1_3

text \<open>The results of the calls into libhv and OpenSSL (version 1.1.0 or later).\<close>

record ssl_lib =
  sl_ctx_new :: bool
  sl_set_min :: bool
  sl_set_max :: bool
  sl_setSslCtx :: int
  sl_newSslCtx :: int

text \<open>
  What the client is left with: a context made from options, with the bounds the version calls set,
  or nothing new.
\<close>

datatype ssl_state = SslContext ssl_opt "tls_version option" "tls_version option" | SslUnchanged

definition parse_version :: "string \<Rightarrow> tls_version option" where
  "parse_version s =
     (let u = to_upper s
      in if u = ''TLS1.0'' \<or> u = ''TLS1_0'' then Some TLS1_0
         else if u = ''TLS1.1'' \<or> u = ''TLS1_1'' then Some TLS1_1
         else if u = ''TLS1.2'' \<or> u = ''TLS1_2'' then Some TLS1_2
         else if u = ''TLS1.3'' \<or> u = ''TLS1_3'' then Some TLS1_3
         else None)"

definition ssl_options :: "ssl_config \<Rightarrow> ssl_opt" where
  "ssl_options cfg =
     (let ca = sc_caCertPath cfg
      in \<lparr>so_verify_peer = sc_verifyPeer cfg,
          so_ca_path = (if ca \<noteq> [] \<and> last ca = CHR ''/'' then Some ca else None),
          so_ca_file = (if ca \<noteq> [] \<and> last ca \<noteq> CHR ''/'' then Some ca else None),
          so_crt_file = (if sc_clientCertPath cfg \<noteq> [] then Some (sc_clientCertPath cfg) else None),
          so_key_file = (if sc_clientKeyPath cfg \<noteq> [] then Some (sc_clientKeyPath cfg) else None)\<rparr>)"

definition https_configureSsl :: "ssl_lib \<Rightarrow> ssl_config \<Rightarrow> http_client \<Rightarrow> ssl_state" where
  "https_configureSsl lib cfg c =
     (if \<not> hc_client c then SslUnchanged
      else let opt = ssl_options cfg
      in if sc_sslVersion cfg \<noteq> []
         then if sl_ctx_new lib
              then let version = parse_version (sc_sslVersion cfg);
                       lo = (if sl_set_min lib then version else None);
                       hi = (if sl_set_min lib \<and> sl_set_max lib then version else None)
                   in if sl_setSslCtx lib \<noteq> 0 then SslUnchanged else SslContext opt lo hi
              else if sl_newSslCtx lib \<noteq> 0 then SslUnchanged else SslContext opt None None
         else if sl_newSslCtx lib \<noteq> 0 then SslUnchanged else SslContext opt None None)"

text \<open>
  a TLS configuration is never weakened silently when libhv and OpenSSL cooperate: with working
  calls the client gets a context that verifies the peer exactly as configured and, for each of the
  eight spellings of a version, accepts that version only. An unknown version is no error: the
  context then accepts any version.
\<close>

theorem configure_ssl_applied:
  assumes "hc_client c" and "sl_ctx_new lib" and "sl_set_min lib" and "sl_set_max lib"
    and "sl_setSslCtx lib = 0" and "sc_sslVersion cfg \<noteq> []"
  shows "\<exists>opt. https_configureSsl lib cfg c =
      SslContext opt (parse_version (sc_sslVersion cfg)) (parse_version (sc_sslVersion cfg)) \<and>
    so_verify_peer opt = sc_verifyPeer cfg \<and>
    (so_ca_path opt = None \<or> so_ca_file opt = None) \<and>
    (sc_sslVersion cfg = ''tls1.3'' \<longrightarrow> parse_version (sc_sslVersion cfg) = Some TLS1_3)"
proof -
  have "parse_version ''tls1.3'' = Some TLS1_3" by code_simp
  then show ?thesis using assms by (simp add: https_configureSsl_def ssl_options_def Let_def)
qed

lemma configure_ssl_applied_witness:
  "https_configureSsl \<lparr>sl_ctx_new = True, sl_set_min = True, sl_set_max = True, sl_setSslCtx = 0, sl_newSslCtx = 0\<rparr>
     ssl_config0 (http_new True) = SslContext (ssl_options ssl_config0) (Some TLS1_2) (Some TLS1_2)"
proof -
  let ?l = "\<lparr>sl_ctx_new = True, sl_set_min = True, sl_set_max = True, sl_setSslCtx = 0, sl_newSslCtx = 0\<rparr>"
  have v: "parse_version (sc_sslVersion ssl_config0) = Some TLS1_2" by code_simp
  have "\<exists>opt. https_configureSsl ?l ssl_config0 (http_new True) = SslContext opt (Some TLS1_2) (Some TLS1_2)"
    using configure_ssl_applied [of "http_new True" ?l ssl_config0] v by (auto simp: http_new_def ssl_config0_def)
  then show ?thesis by (auto simp: https_configureSsl_def Let_def http_new_def split: if_splits)
qed

end
