(* ===== verification/Fw_TcpClient.thy ===== *)
theory Fw_TcpClient
  imports Fw_HttpClient Fw_Base64
begin

section \<open>TCP client transport\<close>

text \<open>
  \<open>src/TcpTransport.cpp\<close>. libhv's client is a parameter: the results of its calls, and what happens
  while \<open>sendRequest\<close> waits or holds no lock, are an environment \<open>tcp_env\<close>: which callbacks ran
  (and whether another thread called \<open>disconnect\<close>), how much time had passed, what libhv's
  \<open>isConnected\<close> said. A wait whose script ends before the code stops waiting is \<open>None\<close>.
\<close>

subsection \<open>State and callbacks\<close>

record tcp =
  tc_client :: bool
  tc_connectTimeout :: int
  tc_readTimeout :: int
  tc_writeTimeout :: int
  tc_closeTimeout :: int
  tc_keepaliveTimeout :: int
  tc_connected :: bool
  tc_connectFailed :: bool
  tc_currentHost :: string
  tc_currentPort :: int
  tc_packets :: "string list"

definition tcp_new :: "bool \<Rightarrow> tcp" where
  "tcp_new created = \<lparr>tc_client = created, tc_connectTimeout = 3000, tc_readTimeout = 30000,
     tc_writeTimeout = 30000, tc_closeTimeout = 5000, tc_keepaliveTimeout = 60000,
     tc_connected = False, tc_connectFailed = False, tc_currentHost = [], tc_currentPort = 0,
     tc_packets = []\<rparr>"

definition tcp_disconnect :: "tcp \<Rightarrow> tcp" where
  "tcp_disconnect s =
     (let s1 = (if tc_client s then s\<lparr>tc_connected := False, tc_client := False\<rparr> else s)
      in s1\<lparr>tc_currentHost := [], tc_currentPort := 0, tc_packets := []\<rparr>)"

definition tcp_disconnectInternal :: "tcp \<Rightarrow> tcp" where
  "tcp_disconnectInternal s =
     (let s1 = (if tc_client s then s\<lparr>tc_connected := False\<rparr> else s)
      in s1\<lparr>tc_currentHost := [], tc_currentPort := 0, tc_packets := []\<rparr>)"

text \<open>
  The callbacks \<open>setupClient\<close> installs: \<open>onConnection\<close> with an open and with a closed channel,
  \<open>onMessage\<close> with one unpacked packet; and \<open>disconnect\<close> called by another thread.
\<close>

datatype tcp_event = ChannelUp | ChannelDown | Packet string | OtherDisconnect

fun on_tcp_event :: "tcp_event \<Rightarrow> tcp \<Rightarrow> tcp" where
  "on_tcp_event ChannelUp s = s\<lparr>tc_connected := True\<rparr>"
| "on_tcp_event ChannelDown s = s\<lparr>tc_connected := False, tc_connectFailed := True\<rparr>"
| "on_tcp_event (Packet p) s = s\<lparr>tc_packets := tc_packets s @ [p]\<rparr>"
| "on_tcp_event OtherDisconnect s = tcp_disconnect s"

definition tcp_events :: "tcp_event list \<Rightarrow> tcp \<Rightarrow> tcp" where
  "tcp_events es s = fold on_tcp_event es s"

record wait_step =
  tw_events :: "tcp_event list"
  tw_elapsed :: int
  tw_libConnected :: bool

datatype send_outcome = SendReturned int | SendThrew string | SendThrewOther

record tcp_env =
  te_create :: "string option"
  te_createsocket :: int
  te_wait :: "wait_step list"
  te_afterWait :: "tcp_event list"
  te_beforeSend :: "tcp_event list"
  te_send :: send_outcome
  te_afterSend :: "tcp_event list"
  te_channel :: bool
  te_recvEvents :: "tcp_event list"
  te_recvTimedOut :: bool

subsection \<open>Frames\<close>

text \<open>Four bytes of length in network order, which count themselves, then the body.\<close>

definition be32 :: "u32 \<Rightarrow> string" where
  "be32 w = [to_byte (ucast (drop_bit 24 w)), to_byte (ucast (drop_bit 16 w)), to_byte (ucast (drop_bit 8 w)),
     to_byte (ucast w)]"

definition tcp_frame :: "string \<Rightarrow> string option" where
  "tcp_frame body =
     (if length body > 0xFFFFFFFB then None
      else let dataLen = (of_nat (length body) :: u32) in Some (be32 (dataLen + 4) @ body))"

subsection \<open>receiveResponse\<close>

definition tcp_receive ::
  "tcp_event list \<Rightarrow> bool \<Rightarrow> int \<Rightarrow> response \<Rightarrow> tcp \<Rightarrow> int \<times> response \<times> tcp" where
  "tcp_receive events timedOut timeout resp s =
     (if \<not> tc_connected s then (- 1, failed ''Not connected, cannot receive response'' resp, s)
      else if timeout \<le> 0 then (- 1, failed ''Invalid timeout value'' resp, s)
      else let s1 = (if tc_packets s = [] then tcp_events events s else s)
      in if tc_packets s = [] \<and> timedOut then (- 1, failed ''Timeout waiting for response'' resp, s1)
      else case tc_packets s1 of
             [] \<Rightarrow> (- 1, failed ''No packet available'' resp, s1)
           | packet # rest \<Rightarrow>
               let s2 = s1\<lparr>tc_packets := rest\<rparr>
               in if length packet < 4 then (- 1, failed ''Invalid packet size'' resp, s2)
                  else (0, resp\<lparr>rs_statusCode := 200, rs_body := drop 4 packet\<rparr>, s2))"

definition tcp_receiveResponse :: "tcp_event list \<Rightarrow> bool \<Rightarrow> response \<Rightarrow> tcp \<Rightarrow> int \<times> response \<times> tcp" where
  "tcp_receiveResponse events timedOut resp s = tcp_receive events timedOut (tc_readTimeout s) resp s"

subsection \<open>sendRequest\<close>

datatype wait_result = WaitOk | WaitFailed | WaitTimeout

text \<open>The wait for the connection: flag, notified failure, wait, deadline, libhv's own state.\<close>

fun tcp_wait :: "int \<Rightarrow> wait_step list \<Rightarrow> tcp \<Rightarrow> (wait_result \<times> tcp) option" where
  "tcp_wait connectTimeout steps s =
     (if tc_connected s then Some (WaitOk, s)
      else if tc_connectFailed s then Some (WaitFailed, s)
      else case steps of
             [] \<Rightarrow> None
           | w # steps' \<Rightarrow>
               let s1 = tcp_events (tw_events w) s
               in if 0 < connectTimeout \<and> connectTimeout \<le> tw_elapsed w
                  then Some (WaitTimeout, tcp_disconnectInternal s1)
                  else if tc_client s1 \<and> tw_libConnected w then Some (WaitOk, s1\<lparr>tc_connected := True\<rparr>)
                  else tcp_wait connectTimeout steps' s1)"

declare tcp_wait.simps [simp del]

definition hostport :: "string \<Rightarrow> int \<Rightarrow> string" where
  "hostport host port = host @ '':'' @ show_int port"

text \<open>Creating the client again and connecting: the state to wait in, or the failure.\<close>

definition tcp_prepare :: "tcp_env \<Rightarrow> string \<Rightarrow> int \<Rightarrow> response \<Rightarrow> tcp \<Rightarrow> (response \<times> tcp) + tcp" where
  "tcp_prepare env host port resp s =
     (let needRecreate = (\<not> tc_client s);
          needReconnect = (needRecreate \<or> \<not> tc_connected s \<or> tc_currentHost s \<noteq> host \<or> tc_currentPort s \<noteq> port);
          created = (if needRecreate
                     then (case te_create env of
                             Some what \<Rightarrow> Inl (failed (''Failed to recreate TcpClient: '' @ what) resp, s)
                           | None \<Rightarrow> Inr (s\<lparr>tc_client := True, tc_connected := False\<rparr>))
                     else Inr s)
      in case created of
           Inl f \<Rightarrow> Inl f
         | Inr s1 \<Rightarrow>
             if needReconnect
             then let s2 = (tcp_disconnectInternal s1)\<lparr>tc_connectFailed := False\<rparr>
                  in if te_createsocket env < 0
                     then Inl (failed (''Failed to create socket for '' @ hostport host port) resp, s2)
                     else Inr (s2\<lparr>tc_currentHost := host, tc_currentPort := port\<rparr>)
             else Inr s1)"

text \<open>From the established connection on: the frame, the send, the reply.\<close>

definition tcp_exchange :: "tcp_env \<Rightarrow> request \<Rightarrow> response \<Rightarrow> tcp \<Rightarrow> int \<times> response \<times> tcp \<times> string option" where
  "tcp_exchange env req resp s =
     (case tcp_frame (rq_body req) of
        None \<Rightarrow> (- 1, failed ''Body too large for TCP frame'' resp, s, None)
      | Some frame \<Rightarrow>
          let s1 = tcp_events (te_beforeSend env) s
          in if \<not> tc_client s1 then (- 1, failed ''Client destroyed during send'' resp, s1, None)
             else case te_send env of
                    SendThrew what \<Rightarrow> (- 1, failed (''Exception: '' @ what) resp, s1\<lparr>tc_connected := False\<rparr>, None)
                  | SendThrewOther \<Rightarrow> (- 1, failed ''Unknown exception'' resp, s1\<lparr>tc_connected := False\<rparr>, None)
                  | SendReturned sent \<Rightarrow>
                      if sent < 0
                      then (- 1, failed ''Failed to send data'' resp, s1\<lparr>tc_connected := False\<rparr>, Some frame)
                      else let s2 = tcp_events (te_afterSend env) s1
                      in if \<not> tc_connected s2
                         then (- 1, failed ''Connection lost before receiving response'' resp, s2, Some frame)
                         else let readTimeout =
                                    (if tc_client s2 \<and> \<not> te_channel env then tc_readTimeout s2
                                     else if 0 \<le> rq_read_timeout req then rq_read_timeout req else tc_readTimeout s2)
                         in case tcp_receive (te_recvEvents env) (te_recvTimedOut env) readTimeout resp s2 of
                              (ret, resp', s3) \<Rightarrow> (ret, resp', s3, Some frame))"

definition tcp_connectTimeout :: "request \<Rightarrow> tcp \<Rightarrow> int" where
  "tcp_connectTimeout req s = (if 0 \<le> rq_connect_timeout req then rq_connect_timeout req else tc_connectTimeout s)"

definition tcp_sendRequest ::
  "tcp_env \<Rightarrow> request \<Rightarrow> response \<Rightarrow> tcp \<Rightarrow> (int \<times> response \<times> tcp \<times> string option) option" where
  "tcp_sendRequest env req resp s =
     (case tcp_parseUrl (rq_url req) of
        None \<Rightarrow> Some (- 1, failed (''Invalid URL format: '' @ rq_url req) resp, s, None)
      | Some (host, port) \<Rightarrow>
          case tcp_prepare env host port resp s of
            Inl (resp', s1) \<Rightarrow> Some (- 1, resp', s1, None)
          | Inr s1 \<Rightarrow>
              case tcp_wait (tcp_connectTimeout req s1) (te_wait env) s1 of
                None \<Rightarrow> None
              | Some (WaitFailed, s2) \<Rightarrow>
                  Some (- 1, failed (''Connection refused/failed to '' @ hostport host port) resp, s2, None)
              | Some (WaitTimeout, s2) \<Rightarrow>
                  Some (- 1, failed (''Connection timeout to '' @ hostport host port) resp, s2, None)
              | Some (WaitOk, s2) \<Rightarrow>
                  let s3 = tcp_events (te_afterWait env) s2
                  in if \<not> tc_connected s3
                     then Some (- 1, failed (''Connection failed to '' @ hostport host port) resp, s3, None)
                     else Some (tcp_exchange env req resp s3))"

subsection \<open>The other operations\<close>

definition tcp_connect :: "tcp \<Rightarrow> bool" where
  "tcp_connect s \<longleftrightarrow> True"

definition tcp_isConnected :: "bool \<Rightarrow> tcp \<Rightarrow> bool" where
  "tcp_isConnected libConnected s \<longleftrightarrow> tc_connected s \<and> tc_client s \<and> libConnected"

fun tcp_setTimeout :: "timeout_kind \<Rightarrow> int \<Rightarrow> tcp \<Rightarrow> tcp" where
  "tcp_setTimeout TotalTimeout ms s = s"
| "tcp_setTimeout ConnectTimeout ms s = s\<lparr>tc_connectTimeout := ms\<rparr>"
| "tcp_setTimeout ReadTimeout ms s = s\<lparr>tc_readTimeout := ms\<rparr>"
| "tcp_setTimeout WriteTimeout ms s = s\<lparr>tc_writeTimeout := ms\<rparr>"
| "tcp_setTimeout CloseTimeout ms s = s\<lparr>tc_closeTimeout := ms\<rparr>"
| "tcp_setTimeout KeepaliveTimeout ms s = s\<lparr>tc_keepaliveTimeout := ms\<rparr>"

subsection \<open>Frames are read back\<close>

definition be32_value :: "string \<Rightarrow> nat" where
  "be32_value s = foldl (\<lambda>v c. 256 * v + code_of c) 0 (take 4 s)"

lemma code_to_byte: "code_of (to_byte w) = unat w"
proof -
  have "unat w < 256" using unsigned_less [of w] by simp
  then show ?thesis by (simp add: to_byte_def)
qed

lemma unat_ucast8: "unat (ucast (drop_bit n (w :: u32)) :: u8) = unat w div 2 ^ n mod 256"
proof -
  have "unat (ucast (drop_bit n w) :: u8) = unat (drop_bit n w) mod 256"
    by (simp add: unsigned_ucast_eq take_bit_eq_mod)
  then show ?thesis by (simp only: unat_drop_bit_div)
qed

lemma be32_value_be32: "be32_value (be32 w @ r) = unat w"
proof -
  have w: "unat w < 4294967296" using unsigned_less [of w] by simp
  let ?x = "unat w"
  have "be32_value (be32 w @ r) = 256 * (256 * (256 * (?x div 2 ^ 24 mod 256) + ?x div 2 ^ 16 mod 256) + ?x div 2 ^ 8 mod 256) + ?x mod 256"
    using unat_ucast8 [of 0 w] by (simp add: be32_value_def be32_def code_to_byte unat_ucast8)
  also have "256 * (?x div 2 ^ 24 mod 256) + ?x div 2 ^ 16 mod 256 = ?x div 2 ^ 16"
  proof -
    have "?x div 2 ^ 24 mod 256 = ?x div 2 ^ 16 div 256" using w by (simp add: div_less_iff_less_mult flip: div_mult2_eq)
    then show ?thesis by (simp only: mult_div_mod_eq)
  qed
  also have "256 * (?x div 2 ^ 16) + ?x div 2 ^ 8 mod 256 = ?x div 2 ^ 8"
  proof -
    have "?x div 2 ^ 16 = ?x div 2 ^ 8 div 256" by (simp flip: div_mult2_eq)
    then show ?thesis by (simp only: mult_div_mod_eq)
  qed
  also have "256 * (?x div 2 ^ 8) + ?x mod 256 = ?x"
    using mult_div_mod_eq [of 256 ?x] by simp
  finally show ?thesis .
qed

lemma length_be32: "length (be32 w) = 4"
  by (simp add: be32_def)

lemma tcp_frame_length:
  assumes "tcp_frame body = Some f"
  shows "be32_value f = length f \<and> length f = length body + 4 \<and> drop 4 f = body"
proof -
  let ?l = "of_nat (length body) + 4 :: u32"
  from assms have b: "length body \<le> 0xFFFFFFFB" and f: "f = be32 ?l @ body"
    by (auto simp: tcp_frame_def Let_def split: if_splits)
  have "?l = of_nat (length body + 4)" by simp
  moreover have "unat (of_nat (length body + 4) :: u32) = length body + 4"
    using b by (simp del: of_nat_add add: unsigned_of_nat take_bit_nat_eq_self)
  ultimately have u: "unat ?l = length body + 4" by (simp only:)
  have v: "be32_value f = length body + 4" unfolding f be32_value_be32 by (rule u)
  have l: "length f = length body + 4" unfolding f by (simp add: length_be32)
  have "drop 4 f = body" unfolding f by (simp add: be32_def)
  with v l show ?thesis by simp
qed

text \<open>
  Frames are honest and reversible. For every body of up to \<open>2^32 - 5\<close> bytes the frame's first
  four bytes, in network order, are the number of bytes of the whole frame, without wrap-around,
  and a transport that receives the frame as its next packet answers 0 with exactly this body; a
  longer body is refused.
\<close>

theorem tcp_frame_roundtrip:
  assumes "tc_connected s" and "0 < timeout" and "tc_packets s = f # rest"
  shows "(tcp_frame body = None \<longleftrightarrow> length body > 0xFFFFFFFB) \<and>
    (tcp_frame body = Some f \<longrightarrow> be32_value f = length f \<and> length f = length body + 4 \<and>
      tcp_receive es to timeout resp s =
        (0, resp\<lparr>rs_statusCode := 200, rs_body := body\<rparr>, s\<lparr>tc_packets := rest\<rparr>))"
proof -
  have "tcp_frame body = None \<longleftrightarrow> length body > 0xFFFFFFFB" by (simp add: tcp_frame_def Let_def)
  moreover have "be32_value f = length f \<and> length f = length body + 4 \<and>
      tcp_receive es to timeout resp s =
        (0, resp\<lparr>rs_statusCode := 200, rs_body := body\<rparr>, s\<lparr>tc_packets := rest\<rparr>)" if "tcp_frame body = Some f"
    using tcp_frame_length [OF that] assms by (simp add: tcp_receive_def Let_def)
  ultimately show ?thesis by blast
qed

lemma tcp_frame_roundtrip_witness:
  "tcp_frame ''hi'' = Some (be32 6 @ ''hi'') \<and> be32_value (be32 6 @ ''hi'') = 6"
proof -
  let ?f = "be32 6 @ ''hi''"
  let ?s = "(tcp_new True)\<lparr>tc_connected := True, tc_packets := [?f]\<rparr>"
  have f: "tcp_frame ''hi'' = Some ?f" by (simp add: tcp_frame_def)
  have "tc_connected ?s" "(0 :: int) < 5" "tc_packets ?s = ?f # []" by simp_all
  from tcp_frame_roundtrip [OF this, of "''hi''"] f show ?thesis by (auto simp: length_be32)
qed

subsection \<open>What sendRequest guarantees\<close>

lemma tcp_receive_contract:
  "tcp_receive es to timeout resp s = (ret, resp', s') \<Longrightarrow>
   (ret = 0 \<and> rs_statusCode resp' = 200) \<or> (ret = - 1 \<and> rs_statusCode resp' = - 1 \<and> rs_errorMessage resp' \<noteq> [])"
  by (auto simp: tcp_receive_def failed_def Let_def split: if_splits list.splits)

definition tcp_result_ok :: "request \<Rightarrow> int \<Rightarrow> response \<Rightarrow> string option \<Rightarrow> bool" where
  "tcp_result_ok req ret resp' sent \<longleftrightarrow>
     (ret = 0 \<and> rs_statusCode resp' = 200 \<and> (\<exists>f. tcp_frame (rq_body req) = Some f \<and> sent = Some f)) \<or>
     (ret = - 1 \<and> rs_statusCode resp' = - 1 \<and> rs_errorMessage resp' \<noteq> [])"

lemma tcp_failed_ok: "msg \<noteq> [] \<Longrightarrow> tcp_result_ok req (- 1) (failed msg resp) sent"
  by (simp add: tcp_result_ok_def failed_def)

lemma tcp_exchange_ok:
  "tcp_exchange env req resp s = (ret, resp', s', sent) \<Longrightarrow> tcp_result_ok req ret resp' sent"
proof (cases "tcp_frame (rq_body req)")
  case (Some f)
  have "tcp_receive es to timeout resp s = (ret, resp', s') \<Longrightarrow> tcp_result_ok req ret resp' (Some f)" for es to timeout s
    using tcp_receive_contract [of es to timeout resp s ret resp' s'] Some by (auto simp: tcp_result_ok_def)
  then show "tcp_exchange env req resp s = (ret, resp', s', sent) \<Longrightarrow> ?thesis"
    using Some by (auto simp: tcp_exchange_def Let_def tcp_failed_ok
        split: if_splits send_outcome.splits prod.splits)
qed (auto simp: tcp_exchange_def tcp_failed_ok)

lemma tcp_prepare_failed:
  "tcp_prepare env host port resp s = Inl (resp', s') \<Longrightarrow> tcp_result_ok req (- 1) resp' sent"
  by (auto simp: tcp_prepare_def Let_def tcp_failed_ok split: if_splits option.splits sum.splits)

lemma tcp_send_ok:
  "tcp_sendRequest env req resp s = Some (ret, resp', s', sent) \<Longrightarrow> tcp_result_ok req ret resp' sent"
  by (auto simp: tcp_sendRequest_def Let_def tcp_failed_ok
      split: option.splits sum.splits wait_result.splits if_splits prod.splits
      intro: tcp_exchange_ok tcp_prepare_failed)

definition quiet_env :: "string \<Rightarrow> tcp_env" where
  "quiet_env reply = \<lparr>te_create = None, te_createsocket = 5,
     te_wait = [\<lparr>tw_events = [ChannelUp], tw_elapsed = 20, tw_libConnected = True\<rparr>], te_afterWait = [],
     te_beforeSend = [], te_send = SendReturned 6, te_afterSend = [], te_channel = True,
     te_recvEvents = [Packet reply], te_recvTimedOut = False\<rparr>"

lemma tcp_reconnects_aux:
  assumes "tcp_parseUrl (rq_url req) = Some (host, port)" and "length (rq_body req) \<le> 0xFFFFFFFB"
    and "4 \<le> length reply" and "0 < tc_readTimeout s" and "0 \<le> rq_connect_timeout req \<longrightarrow> 20 < rq_connect_timeout req"
    and "20 < tc_connectTimeout s" and "rq_read_timeout req \<noteq> 0"
  shows "\<exists>s' sent. tcp_sendRequest (quiet_env reply) req resp (tcp_disconnect s) =
    Some (0, resp\<lparr>rs_statusCode := 200, rs_body := drop 4 reply\<rparr>, s', sent)"
proof -
  let ?s0 = "tcp_disconnect s"
  let ?s1 = "?s0\<lparr>tc_client := True, tc_connected := False, tc_connectFailed := False, tc_currentHost := host, tc_currentPort := port, tc_packets := []\<rparr>"
  have p: "tcp_prepare (quiet_env reply) host port resp ?s0 = Inr ?s1"
    by (cases s) (simp add: tcp_prepare_def tcp_disconnect_def tcp_disconnectInternal_def quiet_env_def Let_def)
  have t: "0 < tcp_connectTimeout req ?s1 \<and> 20 < tcp_connectTimeout req ?s1"
    using assms(5,6) by (auto simp: tcp_connectTimeout_def tcp_disconnect_def Let_def)
  have w: "tcp_wait (tcp_connectTimeout req ?s1) (te_wait (quiet_env reply)) ?s1 = Some (WaitOk, ?s1\<lparr>tc_connected := True\<rparr>)"
    using t by (subst tcp_wait.simps) (simp add: quiet_env_def tcp_events_def Let_def)
  obtain frame where f: "tcp_frame (rq_body req) = Some frame" using assms(2) by (simp add: tcp_frame_def Let_def)
  have rt: "tc_readTimeout ?s0 = tc_readTimeout s" by (simp add: tcp_disconnect_def Let_def)
  have "\<exists>s'. tcp_exchange (quiet_env reply) req resp (?s1\<lparr>tc_connected := True\<rparr>) =
      (0, resp\<lparr>rs_statusCode := 200, rs_body := drop 4 reply\<rparr>, s', Some frame)"
    using assms(3,4,7) by (simp add: tcp_exchange_def f tcp_events_def Let_def quiet_env_def tcp_receive_def rt)
  then show ?thesis
    by (auto simp: tcp_sendRequest_def assms(1) p w Let_def tcp_events_def) (auto simp: quiet_env_def)
qed

text \<open>
  two results, each complete. Whatever happens on the network and in other threads, a
  \<open>sendRequest\<close> that returns either returns 0 with status 200 after the frame of the request's body
  was sent, or -1 with status -1 and a message.
\<close>

theorem tcp_send_contract:
  assumes "tcp_sendRequest env req resp s = Some (ret, resp', s', sent)"
  shows "(ret = 0 \<and> rs_statusCode resp' = 200 \<and> (\<exists>f. tcp_frame (rq_body req) = Some f \<and> sent = Some f)) \<or>
    (ret = - 1 \<and> rs_statusCode resp' = - 1 \<and> rs_errorMessage resp' \<noteq> [])"
  using tcp_send_ok [OF assms] unfolding tcp_result_ok_def .

lemma tcp_send_contract_witness:
  "\<exists>ret resp' s' sent. tcp_sendRequest (quiet_env ''1234ok'') (request0\<lparr>rq_url := ''h:1''\<rparr>) response0
     (tcp_disconnect (tcp_new True)) = Some (ret, resp', s', sent) \<and> ret = 0 \<and> sent = tcp_frame []"
proof -
  let ?q = "request0\<lparr>rq_url := ''h:1''\<rparr>"
  have u: "tcp_parseUrl ''h:1'' = Some (''h'', 1)" by code_simp
  obtain s' sent where r: "tcp_sendRequest (quiet_env ''1234ok'') ?q response0 (tcp_disconnect (tcp_new True)) =
      Some (0, response0\<lparr>rs_statusCode := 200, rs_body := ''ok''\<rparr>, s', sent)"
    using tcp_reconnects_aux [of ?q "''h''" 1 "''1234ok''" "tcp_new True" response0]
    by (auto simp: tcp_new_def request0_def u)
  from tcp_send_contract [OF r] r show ?thesis by (auto simp: request0_def)
qed

lemma tcp_wait_ends: "0 < tmo \<Longrightarrow> \<exists>w\<in>set steps. tmo \<le> tw_elapsed w \<Longrightarrow> tcp_wait tmo steps s \<noteq> None"
proof (induction steps arbitrary: s)
  case (Cons w steps)
  show ?case
  proof (cases "tmo \<le> tw_elapsed w")
    case True
    with Cons.prems show ?thesis by (subst tcp_wait.simps) (simp add: Let_def)
  next
    case False
    with Cons.prems have "\<exists>w\<in>set steps. tmo \<le> tw_elapsed w" by simp
    from Cons.IH [OF Cons.prems(1) this] False Cons.prems(1) show ?thesis
      by (subst tcp_wait.simps) (simp add: Let_def)
  qed
qed simp

lemma tcp_wait_silent:
  "\<not> tc_connected s \<Longrightarrow> \<not> tc_connectFailed s \<Longrightarrow> tmo \<le> 0 \<Longrightarrow>
   \<forall>w\<in>set steps. tw_events w = [] \<and> \<not> tw_libConnected w \<Longrightarrow> tcp_wait tmo steps s = None"
proof (induction steps)
  case (Cons w steps)
  then show ?case by (subst tcp_wait.simps) (simp add: Let_def tcp_events_def)
qed (subst tcp_wait.simps, simp)

text \<open>
  the wait for a connection. With a positive timeout it ends as soon as the time is up, at the
  latest. With \<open>connect_timeout = 0\<close> in the request, which a comment calls the default value, it
  is not replaced by the configured timeout: on a silent network the wait goes on for ever.
\<close>

theorem tcp_wait_bounded_unless_zero:
  "(0 < tmo \<and> (\<exists>w\<in>set steps. tmo \<le> tw_elapsed w) \<longrightarrow> tcp_wait tmo steps s \<noteq> None) \<and>
   (\<not> tc_connected s \<and> \<not> tc_connectFailed s \<and> rq_connect_timeout req = 0 \<and>
      (\<forall>w\<in>set steps. tw_events w = [] \<and> \<not> tw_libConnected w) \<longrightarrow>
    tcp_wait (tcp_connectTimeout req s) steps s = None)"
  using tcp_wait_ends [of tmo steps s] tcp_wait_silent [of s 0 steps] by (auto simp: tcp_connectTimeout_def)

lemma tcp_wait_bounded_unless_zero_witness:
  "tcp_wait 3000 [\<lparr>tw_events = [], tw_elapsed = 3001, tw_libConnected = False\<rparr>] (tcp_new True) \<noteq> None \<and>
   tcp_wait (tcp_connectTimeout (request0\<lparr>rq_connect_timeout := 0\<rparr>) (tcp_new True))
     [\<lparr>tw_events = [], tw_elapsed = 3001, tw_libConnected = False\<rparr>] (tcp_new True) = None"
  using tcp_wait_bounded_unless_zero [of 3000 "[\<lparr>tw_events = [], tw_elapsed = 3001, tw_libConnected = False\<rparr>]" "tcp_new True"
    "request0\<lparr>rq_connect_timeout := 0\<rparr>"] by (simp add: tcp_new_def request0_def)

text \<open>
  C36: a late reply answers the wrong request. On a connection that stays up, a packet that arrives
  after its request has timed out stays in the queue, and the next request to the same host returns
  it at once as its own reply, whatever that request was. Only a new connection clears the queue.
\<close>

theorem tcp_late_reply_misattributed:
  assumes "tc_client s" and "tc_connected s" and "tc_packets s = late # rest" and "4 \<le> length late"
    and "tcp_parseUrl (rq_url req) = Some (tc_currentHost s, tc_currentPort s)"
    and "length (rq_body req) \<le> 0xFFFFFFFB" and "0 < tc_readTimeout s" and "rq_read_timeout req \<noteq> 0"
    and "te_afterWait env = []" and "te_beforeSend env = []" and "te_send env = SendReturned n" and "0 \<le> n"
    and "te_afterSend env = []"
  shows "\<exists>s' sent. tcp_sendRequest env req resp s =
    Some (0, resp\<lparr>rs_statusCode := 200, rs_body := drop 4 late\<rparr>, s', sent)"
proof -
  have p: "tcp_prepare env (tc_currentHost s) (tc_currentPort s) resp s = Inr s"
    using assms(1,2) by (simp add: tcp_prepare_def Let_def)
  have w: "tcp_wait t (te_wait env) s = Some (WaitOk, s)" for t
    using assms(2) by (subst tcp_wait.simps) simp
  obtain frame where f: "tcp_frame (rq_body req) = Some frame" using assms(6) by (simp add: tcp_frame_def Let_def)
  have r: "tcp_receive es to timeout resp s = (0, resp\<lparr>rs_statusCode := 200, rs_body := drop 4 late\<rparr>, s\<lparr>tc_packets := rest\<rparr>)"
    if "0 < timeout" for es to timeout
    using that assms(2-4) by (simp add: tcp_receive_def Let_def)
  have "tcp_exchange env req resp s =
      (0, resp\<lparr>rs_statusCode := 200, rs_body := drop 4 late\<rparr>, s\<lparr>tc_packets := rest\<rparr>, Some frame)"
    using assms(1,2,7-13) by (simp add: tcp_exchange_def f tcp_events_def Let_def r)
  then show ?thesis
    using assms(2,9) by (simp add: tcp_sendRequest_def assms(5) p w tcp_events_def Let_def)
qed

lemma tcp_late_reply_misattributed_witness:
  "\<exists>s' sent. tcp_sendRequest ((quiet_env ''1234new'')\<lparr>te_wait := []\<rparr>) (request0\<lparr>rq_url := ''h:1'', rq_body := ''second''\<rparr>) response0
     ((tcp_new True)\<lparr>tc_connected := True, tc_currentHost := ''h'', tc_currentPort := 1, tc_packets := [''1234first'']\<rparr>) =
   Some (0, response0\<lparr>rs_statusCode := 200, rs_body := ''first''\<rparr>, s', sent)"
proof -
  have u: "tcp_parseUrl ''h:1'' = Some (''h'', 1)" by code_simp
  show ?thesis
    using tcp_late_reply_misattributed [of "(tcp_new True)\<lparr>tc_connected := True, tc_currentHost := ''h'', tc_currentPort := 1, tc_packets := [''1234first'']\<rparr>"
        "''1234first''" "[]" "request0\<lparr>rq_url := ''h:1'', rq_body := ''second''\<rparr>" "(quiet_env ''1234new'')\<lparr>te_wait := []\<rparr>" 6 response0]
    by (simp add: tcp_new_def request0_def quiet_env_def u)
qed

text \<open>
  a TCP transport survives a disconnect. After \<open>disconnect\<close>, in any state and with any packets
  queued, the next request creates a client again, connects, and returns the packet that arrives on
  the new connection; none of the old packets.
\<close>

theorem tcp_reconnects:
  assumes "tcp_parseUrl (rq_url req) = Some (host, port)" and "length (rq_body req) \<le> 0xFFFFFFFB"
    and "4 \<le> length reply" and "0 < tc_readTimeout s" and "0 \<le> rq_connect_timeout req \<longrightarrow> 20 < rq_connect_timeout req"
    and "20 < tc_connectTimeout s" and "rq_read_timeout req \<noteq> 0"
  shows "\<exists>s' sent. tcp_sendRequest (quiet_env reply) req resp (tcp_disconnect s) =
    Some (0, resp\<lparr>rs_statusCode := 200, rs_body := drop 4 reply\<rparr>, s', sent)"
  by (rule tcp_reconnects_aux [OF assms])

lemma tcp_reconnects_witness:
  "\<exists>s' sent. tcp_sendRequest (quiet_env ''1234ok'') (request0\<lparr>rq_url := ''h:1''\<rparr>) response0
     (tcp_disconnect ((tcp_new True)\<lparr>tc_connected := True, tc_packets := [''1234old'']\<rparr>)) =
   Some (0, response0\<lparr>rs_statusCode := 200, rs_body := ''ok''\<rparr>, s', sent)"
proof -
  have u: "tcp_parseUrl ''h:1'' = Some (''h'', 1)" by code_simp
  show ?thesis
    using tcp_reconnects [of "request0\<lparr>rq_url := ''h:1''\<rparr>" "''h''" 1 "''1234ok''"
        "(tcp_new True)\<lparr>tc_connected := True, tc_packets := [''1234old'']\<rparr>" response0]
    by (simp add: tcp_new_def request0_def u)
qed

end
