(* ===== verification/Fw_WsClient.thy ===== *)
theory Fw_WsClient
  imports Fw_TcpClient
begin

section \<open>WebSocket client transport and the transport factory\<close>

text \<open>
  \<open>src/WebSocketTransport.cpp\<close> and \<open>src/TransportFactory.cpp\<close>, modelled like the TCP transport:
  libhv's results and the callbacks that run while \<open>sendRequest\<close> waits are an environment.
  \<open>wc_closeNotifies\<close> records which of the two constructors installed \<open>onclose\<close>: only the default
  constructor's sets \<open>m_connectFailed\<close>.
\<close>

subsection \<open>State and callbacks\<close>

record ws_client =
  wc_client :: bool
  wc_closeNotifies :: bool
  wc_sslConfig :: ssl_config
  wc_connectTimeout :: int
  wc_readTimeout :: int
  wc_writeTimeout :: int
  wc_closeTimeout :: int
  wc_keepaliveTimeout :: int
  wc_connected :: bool
  wc_connectFailed :: bool
  wc_currentUrl :: string
  wc_messages :: "string list"

definition ws_base :: "bool \<Rightarrow> bool \<Rightarrow> ssl_config \<Rightarrow> ws_client" where
  "ws_base created notifies cfg = \<lparr>wc_client = created, wc_closeNotifies = notifies, wc_sslConfig = cfg,
     wc_connectTimeout = 3000, wc_readTimeout = 30000, wc_writeTimeout = 30000, wc_closeTimeout = 5000,
     wc_keepaliveTimeout = 60000, wc_connected = False, wc_connectFailed = False, wc_currentUrl = [],
     wc_messages = []\<rparr>"

definition ws_new_default :: "bool \<Rightarrow> ws_client" where
  "ws_new_default created = ws_base created True ssl_config0"

definition ws_new_ssl :: "bool \<Rightarrow> ssl_config \<Rightarrow> ws_client" where
  "ws_new_ssl created cfg = ws_base created False cfg"

definition ws_disconnect :: "ws_client \<Rightarrow> ws_client" where
  "ws_disconnect s =
     (let s1 = (if wc_client s then s\<lparr>wc_connected := False, wc_client := False\<rparr> else s)
      in s1\<lparr>wc_currentUrl := [], wc_messages := []\<rparr>)"

datatype ws_event = Opened | Closed | Message string | WsOtherDisconnect

fun on_ws_event :: "ws_event \<Rightarrow> ws_client \<Rightarrow> ws_client" where
  "on_ws_event Opened s = s\<lparr>wc_connected := True\<rparr>"
| "on_ws_event Closed s =
     (if wc_closeNotifies s then s\<lparr>wc_connected := False, wc_connectFailed := True\<rparr>
      else s\<lparr>wc_connected := False\<rparr>)"
| "on_ws_event (Message m) s = s\<lparr>wc_messages := wc_messages s @ [m]\<rparr>"
| "on_ws_event WsOtherDisconnect s = ws_disconnect s"

definition ws_events :: "ws_event list \<Rightarrow> ws_client \<Rightarrow> ws_client" where
  "ws_events es s = fold on_ws_event es s"

record ws_wait_step =
  wws_events :: "ws_event list"
  wws_elapsed :: int
  wws_libConnected :: bool

record ws_env =
  we_open :: int
  we_wait :: "ws_wait_step list"
  we_afterWait :: "ws_event list"
  we_send :: send_outcome
  we_afterSend :: "ws_event list"
  we_recvEvents :: "ws_event list"
  we_recvTimedOut :: bool

subsection \<open>configureSsl\<close>

text \<open>
  The whole effect of the method is what it logs: the calls that would pass the certificates to
  libhv are commented out. The result are the lines logged below the error level.
\<close>

definition ws_configureSsl :: "ws_client \<Rightarrow> string list" where
  "ws_configureSsl s =
     (if \<not> wc_client s then []
      else let cfg = wc_sslConfig s
      in (if sc_verifyHost cfg then [''WARN verifyHost''] else []) @
         (if sc_sslVersion cfg \<noteq> [] \<and> sc_sslVersion cfg \<noteq> ''TLS1.2'' then [''WARN sslVersion''] else []) @
         (if \<not> sc_sessionReuse cfg then [''WARN sessionReuse''] else []) @
         (if sc_caCertPath cfg \<noteq> [] then [''DEBUG CA certificate''] else []) @
         (if sc_clientCertPath cfg \<noteq> [] then [''DEBUG client certificate''] else []) @
         (if sc_clientKeyPath cfg \<noteq> [] then [''DEBUG client key''] else []) @
         [''INFO WebSocket SSL configuration applied''])"

definition ws_setSslConfig :: "ssl_config \<Rightarrow> ws_client \<Rightarrow> ws_client \<times> string list" where
  "ws_setSslConfig cfg s = (let s1 = s\<lparr>wc_sslConfig := cfg\<rparr> in (s1, ws_configureSsl s1))"

subsection \<open>receiveResponse and sendRequest\<close>

definition ws_receive :: "ws_event list \<Rightarrow> bool \<Rightarrow> response \<Rightarrow> ws_client \<Rightarrow> int \<times> response \<times> ws_client" where
  "ws_receive events timedOut resp s =
     (if \<not> wc_connected s then (- 1, failed ''No active WebSocket connection'' resp, s)
      else let s1 = (if wc_messages s = [] then ws_events events s else s)
      in if wc_messages s = [] \<and> timedOut then (- 1, failed ''Timeout waiting for WebSocket message'' resp, s1)
      else case wc_messages s1 of
             [] \<Rightarrow> (- 1, failed ''No message available'' resp, s1)
           | m # rest \<Rightarrow> (0, resp\<lparr>rs_statusCode := 200, rs_body := m\<rparr>, s1\<lparr>wc_messages := rest\<rparr>))"

text \<open>The wait: flag, wait, notified failure, deadline, libhv's own state.\<close>

fun ws_wait :: "int \<Rightarrow> ws_wait_step list \<Rightarrow> ws_client \<Rightarrow> (wait_result \<times> ws_client) option" where
  "ws_wait connectTimeout steps s =
     (if wc_connected s then Some (WaitOk, s)
      else case steps of
             [] \<Rightarrow> None
           | w # steps' \<Rightarrow>
               let s1 = ws_events (wws_events w) s
               in if wc_connectFailed s1 then Some (WaitFailed, s1)
                  else if 0 < connectTimeout \<and> connectTimeout \<le> wws_elapsed w then Some (WaitTimeout, s1)
                  else if wc_client s1 \<and> wws_libConnected w then Some (WaitOk, s1\<lparr>wc_connected := True\<rparr>)
                  else ws_wait connectTimeout steps' s1)"

declare ws_wait.simps [simp del]

definition ws_exchange :: "ws_env \<Rightarrow> request \<Rightarrow> response \<Rightarrow> ws_client \<Rightarrow> int \<times> response \<times> ws_client" where
  "ws_exchange env req resp s =
     (if rq_body req = [] then ws_receive (we_recvEvents env) (we_recvTimedOut env) resp s
      else if \<not> wc_client s then (- 1, failed ''Client destroyed during send'' resp, s)
      else case we_send env of
             SendThrew what \<Rightarrow> (- 1, failed (''Exception: '' @ what) resp, s\<lparr>wc_connected := False\<rparr>)
           | SendThrewOther \<Rightarrow> (- 1, failed ''Unknown exception'' resp, s\<lparr>wc_connected := False\<rparr>)
           | SendReturned ret \<Rightarrow>
               if ret < 0 then (- 1, failed (''Send failed, error code: '' @ show_int ret) resp, s\<lparr>wc_connected := False\<rparr>)
               else ws_receive (we_recvEvents env) (we_recvTimedOut env) resp (ws_events (we_afterSend env) s))"

definition ws_connectTimeout :: "request \<Rightarrow> ws_client \<Rightarrow> int" where
  "ws_connectTimeout req s = (if 0 \<le> rq_connect_timeout req then rq_connect_timeout req else wc_connectTimeout s)"

definition ws_sendRequest :: "ws_env \<Rightarrow> request \<Rightarrow> response \<Rightarrow> ws_client \<Rightarrow> (int \<times> response \<times> ws_client) option" where
  "ws_sendRequest env req resp s =
     (case ws_parseUrl (rq_url req) of
        None \<Rightarrow> Some (- 1, failed (''Invalid URL format: '' @ rq_url req) resp, s)
      | Some u \<Rightarrow>
          if u_scheme u \<notin> {''ws'', ''wss''}
          then Some (- 1, failed ''Only ws:// and wss:// schemes are supported'' resp, s)
          else if \<not> wc_client s then Some (- 1, failed ''WebSocketClient not initialized'' resp, s)
          else let reconnect = (\<not> wc_connected s \<or> wc_currentUrl s \<noteq> rq_url req);
                   s1 = (if reconnect
                         then s\<lparr>wc_messages := [], wc_currentUrl := rq_url req, wc_connectFailed := False\<rparr> else s)
          in if reconnect \<and> we_open env \<noteq> 0
             then Some (- 1, failed (''Failed to connect WebSocket: '' @ show_int (we_open env) @ '', URL: '' @ rq_url req) resp, s1)
             else case ws_wait (ws_connectTimeout req s1) (we_wait env) s1 of
                    None \<Rightarrow> None
                  | Some (WaitFailed, s2) \<Rightarrow> Some (- 1, failed (''Connection refused/closed to '' @ rq_url req) resp, s2)
                  | Some (WaitTimeout, s2) \<Rightarrow> Some (- 1, failed (''Connection timeout to '' @ rq_url req) resp, s2)
                  | Some (WaitOk, s2) \<Rightarrow>
                      let s3 = ws_events (we_afterWait env) s2
                      in if \<not> wc_connected s3
                         then Some (- 1, failed (''Connection failed to '' @ rq_url req) resp, s3)
                         else Some (ws_exchange env req resp s3))"

definition ws_connect :: "ws_client \<Rightarrow> bool" where
  "ws_connect s \<longleftrightarrow> wc_connected s \<and> wc_client s"

definition ws_isConnected :: "bool \<Rightarrow> ws_client \<Rightarrow> bool" where
  "ws_isConnected libConnected s \<longleftrightarrow> wc_connected s \<and> wc_client s \<and> libConnected"

fun ws_setTimeout :: "timeout_kind \<Rightarrow> int \<Rightarrow> ws_client \<Rightarrow> ws_client" where
  "ws_setTimeout TotalTimeout ms s = s"
| "ws_setTimeout ConnectTimeout ms s = s\<lparr>wc_connectTimeout := ms\<rparr>"
| "ws_setTimeout ReadTimeout ms s = s\<lparr>wc_readTimeout := ms\<rparr>"
| "ws_setTimeout WriteTimeout ms s = s\<lparr>wc_writeTimeout := ms\<rparr>"
| "ws_setTimeout CloseTimeout ms s = s\<lparr>wc_closeTimeout := ms\<rparr>"
| "ws_setTimeout KeepaliveTimeout ms s = s\<lparr>wc_keepaliveTimeout := ms\<rparr>"

subsection \<open>The factory\<close>

text \<open>A transport is one of the four; \<open>nullptr\<close> is \<open>None\<close>.\<close>

datatype transport = HttpT http_client | HttpsT ssl_config http_client | TcpT tcp | WebSocketT ws_client

fun getTransportType :: "transport \<Rightarrow> string" where
  "getTransportType (HttpT _) = ''http''"
| "getTransportType (HttpsT _ _) = ''https''"
| "getTransportType (TcpT _) = ''tcp''"
| "getTransportType (WebSocketT _) = ''websocket''"

definition factory_create :: "bool \<Rightarrow> string \<Rightarrow> transport option" where
  "factory_create created kind =
     (let lowerType = to_lower kind
      in if lowerType = ''http'' then Some (HttpT (http_new created))
         else if lowerType = ''https'' then Some (HttpsT ssl_config0 (http_new created))
         else if lowerType = ''tcp'' then Some (TcpT (tcp_new created))
         else if lowerType = ''websocket'' \<or> lowerType = ''ws'' then Some (WebSocketT (ws_new_ssl created ssl_config0))
         else if lowerType = ''wss'' then Some (WebSocketT (ws_new_ssl created ssl_config0))
         else None)"

subsection \<open>Properties\<close>

lemma ws_receive_contract:
  "ws_receive es to resp s = (ret, resp', s') \<Longrightarrow>
   (ret = 0 \<and> rs_statusCode resp' = 200) \<or> (ret = - 1 \<and> rs_statusCode resp' = - 1 \<and> rs_errorMessage resp' \<noteq> [])"
  by (auto simp: ws_receive_def failed_def Let_def split: if_splits list.splits)

definition ws_result_ok :: "int \<Rightarrow> response \<Rightarrow> bool" where
  "ws_result_ok ret resp' \<longleftrightarrow> (ret = 0 \<and> rs_statusCode resp' = 200) \<or>
     (ret = - 1 \<and> rs_statusCode resp' = - 1 \<and> rs_errorMessage resp' \<noteq> [])"

lemma ws_failed_ok: "msg \<noteq> [] \<Longrightarrow> ws_result_ok (- 1) (failed msg resp)"
  by (simp add: ws_result_ok_def failed_def)

lemma ws_receive_ok: "ws_receive es to resp s = (ret, resp', s') \<Longrightarrow> ws_result_ok ret resp'"
  unfolding ws_result_ok_def by (rule ws_receive_contract)

lemma ws_exchange_ok: "ws_exchange env req resp s = (ret, resp', s') \<Longrightarrow> ws_result_ok ret resp'"
  by (auto simp: ws_exchange_def ws_failed_ok split: if_splits send_outcome.splits intro: ws_receive_ok)

lemma ws_send_ok: "ws_sendRequest env req resp s = Some (ret, resp', s') \<Longrightarrow> ws_result_ok ret resp'"
  by (auto simp: ws_sendRequest_def Let_def ws_failed_ok
      split: option.splits wait_result.splits if_splits prod.splits intro: ws_exchange_ok)

text \<open>
  the factory. The name is matched without regard to case; the six known names give a new
  transport that reports the type asked for (\<open>ws\<close>, \<open>wss\<close> and \<open>websocket\<close> are all \<open>websocket\<close>),
  any other name gives none. Every WebSocket transport it makes is built by the constructor whose
  \<open>onclose\<close> does not report a failed connection.
\<close>

theorem factory_dispatch:
  "factory_create created (to_upper kind) = factory_create created kind \<and>
   (case factory_create created kind of
      None \<Rightarrow> to_lower kind \<notin> {''http'', ''https'', ''tcp'', ''websocket'', ''ws'', ''wss''}
    | Some t \<Rightarrow> getTransportType t =
        (if to_lower kind \<in> {''ws'', ''wss'', ''websocket''} then ''websocket'' else to_lower kind) \<and>
        (case t of WebSocketT s \<Rightarrow> \<not> wc_closeNotifies s | _ \<Rightarrow> True))"
proof -
  have "lower_char (upper_char c) = lower_char c" for c
    by (auto simp: lower_char_def upper_char_def is_upper_def is_lower_def)
  then have "to_lower (to_upper kind) = to_lower kind" by (simp add: to_lower_def to_upper_def)
  then show ?thesis
    by (auto simp: factory_create_def Let_def ws_new_ssl_def ws_base_def split: option.splits)
qed

text \<open>
  a refused WebSocket connection. With the default constructor, the first close callback ends
  the wait with a failure. With the constructor the factory uses, close callbacks change nothing:
  however many arrive, the wait goes on until the connect timeout; and without one it never ends.
\<close>

theorem ws_refused_connection:
  assumes "\<not> wc_connected s" and "\<not> wc_connectFailed s" and "steps \<noteq> []"
    and "\<forall>w\<in>set steps. wws_events w = [Closed] \<and> \<not> wws_libConnected w \<and> (0 < tmo \<longrightarrow> wws_elapsed w < tmo)"
  shows "(wc_closeNotifies s \<longrightarrow> (\<exists>s'. ws_wait tmo steps s = Some (WaitFailed, s'))) \<and>
    (\<not> wc_closeNotifies s \<longrightarrow> ws_wait tmo steps s = None)"
proof -
  have "\<exists>s'. ws_wait tmo steps s = Some (WaitFailed, s')" if "wc_closeNotifies s"
  proof -
    from assms(3) obtain w ws where c: "steps = w # ws" by (cases steps) auto
    show ?thesis using assms(1,4) that by (subst ws_wait.simps) (simp add: c ws_events_def Let_def)
  qed
  moreover have "ws_wait tmo steps s = None" if "\<not> wc_closeNotifies s"
    using that assms(1,2,4)
  proof (induction steps arbitrary: s)
    case Nil
    then show ?case by (subst ws_wait.simps) simp
  next
    case (Cons w ws)
    let ?s1 = "ws_events [Closed] s"
    have w: "wws_events w = [Closed]" "\<not> wws_libConnected w" "0 < tmo \<longrightarrow> wws_elapsed w < tmo"
      using Cons.prems by auto
    have f: "wc_closeNotifies ?s1 = wc_closeNotifies s" "\<not> wc_connected ?s1" "wc_connectFailed ?s1 = wc_connectFailed s"
      using Cons.prems by (simp_all add: ws_events_def)
    have "ws_wait tmo ws ?s1 = None" using Cons.IH [of ?s1] Cons.prems f by simp
    then show ?case using Cons.prems(2) w f(3) Cons.prems(3)
      by (subst ws_wait.simps) (auto simp: Let_def)
  qed
  ultimately show ?thesis by blast
qed

lemma ws_refused_connection_witness:
  "ws_wait 3000 (replicate 20 \<lparr>wws_events = [Closed], wws_elapsed = 2900, wws_libConnected = False\<rparr>)
     (ws_new_ssl True ssl_config0) = None"
  using ws_refused_connection [of "ws_new_ssl True ssl_config0"
    "replicate 20 \<lparr>wws_events = [Closed], wws_elapsed = 2900, wws_libConnected = False\<rparr>" 3000]
  by (simp add: ws_new_ssl_def ws_base_def)

text \<open>
  two results, each complete, and disconnecting is for ever. A WebSocket request that returns
  either returns 0 with status 200, or -1 with status -1 and a message; and once \<open>disconnect\<close> has
  run, or another thread's has, every request with a WebSocket URL fails at once.
\<close>

theorem ws_send_contract:
  assumes "ws_sendRequest env req resp s = Some (ret, resp', s')"
  shows "((ret = 0 \<and> rs_statusCode resp' = 200) \<or>
      (ret = - 1 \<and> rs_statusCode resp' = - 1 \<and> rs_errorMessage resp' \<noteq> [])) \<and>
    (ws_sendRequest env2 req2 resp2 (ws_disconnect s') =
       Some (- 1, failed (case ws_parseUrl (rq_url req2) of None \<Rightarrow> ''Invalid URL format: '' @ rq_url req2
         | Some u \<Rightarrow> if u_scheme u \<in> {''ws'', ''wss''} then ''WebSocketClient not initialized''
                     else ''Only ws:// and wss:// schemes are supported'') resp2, ws_disconnect s'))"
proof -
  have "\<not> wc_client (ws_disconnect s')" by (simp add: ws_disconnect_def Let_def)
  then have "ws_sendRequest env2 req2 resp2 (ws_disconnect s') =
       Some (- 1, failed (case ws_parseUrl (rq_url req2) of None \<Rightarrow> ''Invalid URL format: '' @ rq_url req2
         | Some u \<Rightarrow> if u_scheme u \<in> {''ws'', ''wss''} then ''WebSocketClient not initialized''
                     else ''Only ws:// and wss:// schemes are supported'') resp2, ws_disconnect s')"
    by (auto simp: ws_sendRequest_def split: option.splits)
  with ws_send_ok [OF assms] show ?thesis by (auto simp: ws_result_ok_def)
qed

definition quiet_ws_env :: "string \<Rightarrow> ws_env" where
  "quiet_ws_env reply = \<lparr>we_open = 0,
     we_wait = [\<lparr>wws_events = [Opened], wws_elapsed = 20, wws_libConnected = True\<rparr>], we_afterWait = [],
     we_send = SendReturned 6, we_afterSend = [], we_recvEvents = [Message reply], we_recvTimedOut = False\<rparr>"

lemma ws_send_contract_witness:
  "\<exists>resp' s'. ws_sendRequest (quiet_ws_env ''pong'') (request0\<lparr>rq_url := ''ws://h/x'', rq_body := ''ping''\<rparr>) response0
     (ws_new_default True) = Some (0, resp', s') \<and> rs_body resp' = ''pong'' \<and> rs_statusCode resp' = 200"
proof -
  let ?q = "request0\<lparr>rq_url := ''ws://h/x'', rq_body := ''ping''\<rparr>"
  have "map_option (\<lambda>(ret, r, _). (ret, r)) (ws_sendRequest (quiet_ws_env ''pong'') ?q response0 (ws_new_default True)) =
      Some (0, response0\<lparr>rs_statusCode := 200, rs_body := ''pong''\<rparr>)"
    by code_simp
  then obtain s' where r: "ws_sendRequest (quiet_ws_env ''pong'') ?q response0 (ws_new_default True) =
      Some (0, response0\<lparr>rs_statusCode := 200, rs_body := ''pong''\<rparr>, s')" by auto
  from ws_send_contract [OF r, of "quiet_ws_env []" ?q response0] r show ?thesis by auto
qed

subsection \<open>A connection that is up is not waited for\<close>

lemma ws_connected_request:
  assumes "wc_client s" and "wc_connected s" and "ws_parseUrl (rq_url req) = Some u" and "u_scheme u \<in> {''ws'', ''wss''}"
    and "wc_currentUrl s \<noteq> rq_url req \<longrightarrow> we_open env = 0" and "we_afterWait env = []"
  shows "ws_sendRequest env req resp s = Some (ws_exchange env req resp
    (if wc_currentUrl s = rq_url req then s
     else s\<lparr>wc_messages := [], wc_currentUrl := rq_url req, wc_connectFailed := False\<rparr>))"
proof -
  have "ws_wait tmo steps t = Some (WaitOk, t)" if "wc_connected t" for tmo steps t
    using that by (subst ws_wait.simps) simp
  then show ?thesis using assms by (auto simp: ws_sendRequest_def ws_events_def Let_def)
qed

text \<open>
  Another URL on a connection that is up. The flag \<open>m_connected\<close> still stands for the old connection when the wait for the new one
  begins, so whatever the callbacks and libhv would report (\<open>we_wait\<close>), nothing is waited for: the request is sent at once, and
  the first message that arrives, from whichever server, is its answer. \<open>TcpTransport\<close> resets the flag first.
\<close>

theorem ws_switch_unwaited:
  assumes "wc_client s" and "wc_connected s" and "wc_currentUrl s \<noteq> rq_url req"
    and "ws_parseUrl (rq_url req) = Some u" and "u_scheme u \<in> {''ws'', ''wss''}" and "rq_body req \<noteq> []"
    and "we_open env = 0" and "we_afterWait env = []" and "we_send env = SendReturned n" and "0 \<le> n"
    and "we_afterSend env = [Message m]"
  shows "\<exists>s'. ws_sendRequest env req resp s = Some (0, resp\<lparr>rs_statusCode := 200, rs_body := m\<rparr>, s')"
  using ws_connected_request [OF assms(1,2,4,5), of env resp] assms
  by (simp add: ws_exchange_def ws_events_def ws_receive_def Let_def)

lemma ws_switch_unwaited_witness:
  "\<exists>s'. ws_sendRequest ((quiet_ws_env [])\<lparr>we_wait := [], we_afterSend := [Message ''from a'']\<rparr>)
     (request0\<lparr>rq_url := ''ws://b/'', rq_body := ''ping''\<rparr>) response0
     ((ws_new_default True)\<lparr>wc_connected := True, wc_currentUrl := ''ws://a/''\<rparr>) =
   Some (0, response0\<lparr>rs_statusCode := 200, rs_body := ''from a''\<rparr>, s')"
proof -
  have "map_option u_scheme (ws_parseUrl ''ws://b/'') = Some ''ws''" by code_simp
  then obtain u where u: "ws_parseUrl ''ws://b/'' = Some u" "u_scheme u = ''ws''" by auto
  show ?thesis
    using ws_switch_unwaited [of "(ws_new_default True)\<lparr>wc_connected := True, wc_currentUrl := ''ws://a/''\<rparr>"
        "request0\<lparr>rq_url := ''ws://b/'', rq_body := ''ping''\<rparr>" u
        "(quiet_ws_env [])\<lparr>we_wait := [], we_afterSend := [Message ''from a'']\<rparr>" 6 "''from a''" response0] u
    by (simp add: ws_new_default_def ws_base_def request0_def quiet_ws_env_def)
qed

text \<open>
  A message that arrived after its request had timed out is the answer of the next request to the same URL.
\<close>

theorem ws_late_message:
  assumes "wc_client s" and "wc_connected s" and "wc_currentUrl s = rq_url req" and "wc_messages s = late # rest"
    and "ws_parseUrl (rq_url req) = Some u" and "u_scheme u \<in> {''ws'', ''wss''}"
    and "we_afterWait env = []" and "we_send env = SendReturned n" and "0 \<le> n" and "we_afterSend env = []"
  shows "\<exists>s'. ws_sendRequest env req resp s = Some (0, resp\<lparr>rs_statusCode := 200, rs_body := late\<rparr>, s')"
  using ws_connected_request [OF assms(1,2,5,6), of env resp] assms
  by (auto simp: ws_exchange_def ws_events_def ws_receive_def Let_def)

lemma ws_late_message_witness:
  "\<exists>s'. ws_sendRequest ((quiet_ws_env ''second'')\<lparr>we_wait := []\<rparr>)
     (request0\<lparr>rq_url := ''ws://a/'', rq_body := ''ping 2''\<rparr>) response0
     ((ws_new_default True)\<lparr>wc_connected := True, wc_currentUrl := ''ws://a/'', wc_messages := [''first'']\<rparr>) =
   Some (0, response0\<lparr>rs_statusCode := 200, rs_body := ''first''\<rparr>, s')"
proof -
  have "map_option u_scheme (ws_parseUrl ''ws://a/'') = Some ''ws''" by code_simp
  then obtain u where u: "ws_parseUrl ''ws://a/'' = Some u" "u_scheme u = ''ws''" by auto
  show ?thesis
    using ws_late_message [of "(ws_new_default True)\<lparr>wc_connected := True, wc_currentUrl := ''ws://a/'', wc_messages := [''first'']\<rparr>"
        "request0\<lparr>rq_url := ''ws://a/'', rq_body := ''ping 2''\<rparr>" "''first''" "[]" u "(quiet_ws_env ''second'')\<lparr>we_wait := []\<rparr>" 6 response0] u
    by (simp add: ws_new_default_def ws_base_def request0_def quiet_ws_env_def)
qed

end
