(* ===== verification/Fw_Transport.thy ===== *)
theory Fw_Transport
  imports Fw_WsClient
begin

section \<open>The interface of the client transports\<close>

text \<open>
  \<open>include/fw/ITransport.hpp\<close>: what the four client transports promise their callers, as two locales, and the virtual calls
  through the interface on a transport that the factory made. A transport answers a request or a wait for a response with 0, or with
  -1, status -1 and a message (\<open>client_transport\<close>); all but the TCP transport stay disconnected once \<open>disconnect\<close> was called
  (\<open>final_transport\<close>).
\<close>

subsection \<open>Sessions\<close>

text \<open>What a caller does with a transport; each call comes with what its environment does meanwhile.\<close>

datatype 'e transport_op = TSend 'e request response | TReceive 'e response | TDisconnect

text \<open>The answers of a session, in order, and the transport afterwards; \<open>None\<close> when a call does not return.\<close>

fun transport_session ::
  "('e \<Rightarrow> request \<Rightarrow> response \<Rightarrow> 't \<Rightarrow> (int \<times> response \<times> 't) option) \<Rightarrow> ('e \<Rightarrow> response \<Rightarrow> 't \<Rightarrow> int \<times> response \<times> 't) \<Rightarrow>
   ('t \<Rightarrow> 't) \<Rightarrow> 'e transport_op list \<Rightarrow> 't \<Rightarrow> ((int \<times> response) list \<times> 't) option" where
  "transport_session send receive disconnect [] t = Some ([], t)"
| "transport_session send receive disconnect (TSend e req resp # ops) t =
     (case send e req resp t of
        None \<Rightarrow> None
      | Some (ret, resp', t') \<Rightarrow>
          map_option (\<lambda>(as, t''). ((ret, resp') # as, t'')) (transport_session send receive disconnect ops t'))"
| "transport_session send receive disconnect (TReceive e resp # ops) t =
     (case receive e resp t of (ret, resp', t') \<Rightarrow>
        map_option (\<lambda>(as, t''). ((ret, resp') # as, t'')) (transport_session send receive disconnect ops t'))"
| "transport_session send receive disconnect (TDisconnect # ops) t =
     transport_session send receive disconnect ops (disconnect t)"

definition asks :: "'e transport_op \<Rightarrow> bool" where
  "asks op \<longleftrightarrow> op \<noteq> TDisconnect"

definition answer_ok :: "int \<times> response \<Rightarrow> bool" where
  "answer_ok a \<longleftrightarrow> fst a = 0 \<or> (fst a = - 1 \<and> rs_statusCode (snd a) = - 1 \<and> rs_errorMessage (snd a) \<noteq> [])"

definition answer_failed :: "int \<times> response \<Rightarrow> bool" where
  "answer_failed a \<longleftrightarrow> fst a = - 1 \<and> rs_statusCode (snd a) = - 1 \<and> rs_errorMessage (snd a) \<noteq> []"

text \<open>The answers of a session in which every request and every wait for a response failed.\<close>

definition all_failed :: "'e transport_op list \<Rightarrow> (int \<times> response) list \<Rightarrow> bool" where
  "all_failed ops as \<longleftrightarrow> length as = length (filter asks ops) \<and> list_all answer_failed as"

lemma failed_answer: "msg \<noteq> [] \<Longrightarrow> answer_failed (- 1, failed msg resp)"
  by (simp add: answer_failed_def failed_def)

lemma answer_failed_ok: "answer_failed a \<Longrightarrow> answer_ok a"
  by (simp add: answer_failed_def answer_ok_def)

subsection \<open>The contracts\<close>

locale client_transport =
  fixes send :: "'e \<Rightarrow> request \<Rightarrow> response \<Rightarrow> 't \<Rightarrow> (int \<times> response \<times> 't) option"
    and receive :: "'e \<Rightarrow> response \<Rightarrow> 't \<Rightarrow> int \<times> response \<times> 't"
    and disconnect :: "'t \<Rightarrow> 't"
    and isConnected :: "'e \<Rightarrow> 't \<Rightarrow> bool"
  assumes send_answers: "send e req resp t = Some (ret, resp', t') \<Longrightarrow> answer_ok (ret, resp')"
    and receive_answers: "receive e resp t = (ret, resp', t') \<Longrightarrow> answer_ok (ret, resp')"
    and disconnect_drops: "\<not> isConnected e (disconnect t)"
begin

lemma session_answers:
  "transport_session send receive disconnect ops t = Some (as, t') \<Longrightarrow>
   length as = length (filter asks ops) \<and> list_all answer_ok as"
proof (induction ops arbitrary: t as)
  case (Cons op ops)
  show ?case
  proof (cases op)
    case (TSend e req resp)
    then obtain ret resp' t1 as' where "send e req resp t = Some (ret, resp', t1)" "as = (ret, resp') # as'"
        "transport_session send receive disconnect ops t1 = Some (as', t')"
      using Cons.prems by (auto split: option.splits)
    then show ?thesis using TSend Cons.IH send_answers by (simp add: asks_def)
  next
    case (TReceive e resp)
    then obtain ret resp' t1 as' where "receive e resp t = (ret, resp', t1)" "as = (ret, resp') # as'"
        "transport_session send receive disconnect ops t1 = Some (as', t')"
      using Cons.prems by (auto split: option.splits prod.splits)
    then show ?thesis using TReceive Cons.IH receive_answers by (simp add: asks_def)
  next
    case TDisconnect
    then show ?thesis using Cons.prems Cons.IH by (simp add: asks_def)
  qed
qed simp

end

text \<open>\<open>sane\<close>: what the transport keeps of its own accord before; \<open>dead\<close>: what \<open>disconnect\<close> makes of it for good.\<close>

locale final_transport = client_transport send receive disconnect isConnected
  for send :: "'e \<Rightarrow> request \<Rightarrow> response \<Rightarrow> 't \<Rightarrow> (int \<times> response \<times> 't) option"
    and receive disconnect isConnected +
  fixes sane dead :: "'t \<Rightarrow> bool"
  assumes disconnect_dead: "sane t \<Longrightarrow> dead (disconnect t)"
    and dead_sane: "dead t \<Longrightarrow> sane t"
    and dead_send: "dead t \<Longrightarrow> \<exists>resp' t'. send e req resp t = Some (- 1, resp', t') \<and> dead t'"
    and dead_receive: "dead t \<Longrightarrow> receive e resp t = (ret, resp', t') \<Longrightarrow> ret = - 1 \<and> dead t'"
    and dead_unconnected: "dead t \<Longrightarrow> \<not> isConnected e t"
begin

lemma dead_session:
  "dead t \<Longrightarrow> \<exists>as t'. transport_session send receive disconnect ops t = Some (as, t') \<and>
     all_failed ops as \<and> dead t'"
proof (induction ops arbitrary: t)
  case (Cons op ops)
  show ?case
  proof (cases op)
    case (TSend e req resp)
    obtain resp' t' where s: "send e req resp t = Some (- 1, resp', t')" "dead t'" using dead_send [OF Cons.prems] by blast
    then have "answer_failed (- 1, resp')" using send_answers [OF s(1)] by (simp add: answer_ok_def answer_failed_def)
    with s Cons.IH [OF s(2)] TSend show ?thesis by (auto simp: all_failed_def asks_def)
  next
    case (TReceive e resp)
    obtain ret resp' t' where r: "receive e resp t = (ret, resp', t')" by (metis prod_cases3)
    then have d: "ret = - 1" "dead t'" using dead_receive [OF Cons.prems] by auto
    then have "answer_failed (ret, resp')" using receive_answers [OF r] by (simp add: answer_ok_def answer_failed_def)
    with r Cons.IH [OF d(2)] TReceive show ?thesis by (auto simp: all_failed_def asks_def)
  next
    case TDisconnect
    then show ?thesis using Cons.IH [OF disconnect_dead [OF dead_sane [OF Cons.prems]]] by (simp add: all_failed_def asks_def)
  qed
qed (simp add: all_failed_def)

lemma session_after_disconnect:
  "sane t \<Longrightarrow> \<exists>as t'. transport_session send receive disconnect ops (disconnect t) = Some (as, t') \<and>
     all_failed ops as \<and> (\<forall>e. \<not> isConnected e t')"
  using dead_session [OF disconnect_dead, of t ops] dead_unconnected by blast

end

subsection \<open>The four transports\<close>

text \<open>
  The environment of a call: libhv's answer to an HTTP request, what happens during a TCP or a WebSocket request, and during a wait for a
  response; and whether libhv calls its connection connected.
\<close>

record transport_env =
  xe_http :: "hv_request \<Rightarrow> hv_outcome"
  xe_tcp :: tcp_env
  xe_ws :: ws_env
  xe_tcpEvents :: "tcp_event list"
  xe_wsEvents :: "ws_event list"
  xe_timedOut :: bool
  xe_libConnected :: bool

definition http_it_send :: "transport_env \<Rightarrow> request \<Rightarrow> response \<Rightarrow> http_client \<Rightarrow> (int \<times> response \<times> http_client) option" where
  "http_it_send e req resp c = (case http_sendRequest (xe_http e) req resp c of (ret, resp', c', _) \<Rightarrow> Some (ret, resp', c'))"

definition https_it_send :: "transport_env \<Rightarrow> request \<Rightarrow> response \<Rightarrow> http_client \<Rightarrow> (int \<times> response \<times> http_client) option" where
  "https_it_send e req resp c = (case https_sendRequest (xe_http e) req resp c of (ret, resp', c', _) \<Rightarrow> Some (ret, resp', c'))"

definition http_it_receive :: "transport_env \<Rightarrow> response \<Rightarrow> http_client \<Rightarrow> int \<times> response \<times> http_client" where
  "http_it_receive e resp c = (case http_receiveResponse resp c of (ret, resp') \<Rightarrow> (ret, resp', c))"

definition tcp_it_send :: "transport_env \<Rightarrow> request \<Rightarrow> response \<Rightarrow> tcp \<Rightarrow> (int \<times> response \<times> tcp) option" where
  "tcp_it_send e req resp s = map_option (\<lambda>(ret, resp', s', _). (ret, resp', s')) (tcp_sendRequest (xe_tcp e) req resp s)"

lemma client_send_answers:
  assumes "client_send parse schemes msg send req resp c = (ret, resp', c', sent)" "msg \<noteq> []"
  shows "answer_ok (ret, resp')"
  using client_send_contract [OF assms] by (auto simp: answer_ok_def)

lemma client_send_dead:
  assumes "\<not> hc_client c"
  shows "client_send parse schemes msg send req resp c = (- 1, failed ''HttpClient not initialized'' resp, c, None)"
  using assms by (simp add: client_send_def)

interpretation http_it: final_transport http_it_send http_it_receive http_disconnect "\<lambda>e. http_isConnected"
  "\<lambda>c. True" "\<lambda>c. \<not> hc_client c \<and> \<not> hc_connected c"
  by unfold_locales
    (auto simp: http_it_send_def http_sendRequest_def http_it_receive_def http_receiveResponse_def http_disconnect_def http_isConnected_def
      client_send_dead failed_answer answer_failed_ok answer_ok_def failed_def split: prod.splits if_splits dest: client_send_answers)

interpretation https_it: final_transport https_it_send http_it_receive http_disconnect "\<lambda>e. http_isConnected"
  "\<lambda>c. True" "\<lambda>c. \<not> hc_client c \<and> \<not> hc_connected c"
  by unfold_locales
    (auto simp: https_it_send_def https_sendRequest_def http_disconnect_def http_isConnected_def http_it_receive_def http_receiveResponse_def
      client_send_dead failed_answer answer_failed_ok answer_ok_def failed_def split: prod.splits if_splits dest: client_send_answers)

lemma tcp_receive_answers: "tcp_receive es timedOut tmo resp s = (ret, resp', s') \<Longrightarrow> answer_ok (ret, resp')"
  by (auto simp: tcp_receive_def answer_ok_def failed_def Let_def split: if_splits list.splits)

definition tcp_it_receive :: "transport_env \<Rightarrow> response \<Rightarrow> tcp \<Rightarrow> int \<times> response \<times> tcp" where
  "tcp_it_receive e resp s = tcp_receiveResponse (xe_tcpEvents e) (xe_timedOut e) resp s"

interpretation tcp_it: client_transport tcp_it_send tcp_it_receive tcp_disconnect "\<lambda>e. tcp_isConnected (xe_libConnected e)"
proof
  fix e req resp s ret resp' s'
  assume "tcp_it_send e req resp s = Some (ret, resp', s')"
  then obtain sent where "tcp_sendRequest (xe_tcp e) req resp s = Some (ret, resp', s', sent)" by (auto simp: tcp_it_send_def)
  from tcp_send_ok [OF this] show "answer_ok (ret, resp')" by (auto simp: tcp_result_ok_def answer_ok_def)
next
  fix e resp s ret resp' s'
  assume "tcp_it_receive e resp s = (ret, resp', s')"
  then show "answer_ok (ret, resp')" unfolding tcp_it_receive_def tcp_receiveResponse_def by (rule tcp_receive_answers)
next
  show "\<not> tcp_isConnected (xe_libConnected e) (tcp_disconnect s)" for e s
    by (simp add: tcp_isConnected_def tcp_disconnect_def Let_def)
qed

definition ws_it_send :: "transport_env \<Rightarrow> request \<Rightarrow> response \<Rightarrow> ws_client \<Rightarrow> (int \<times> response \<times> ws_client) option" where
  "ws_it_send e req resp s = ws_sendRequest (xe_ws e) req resp s"

definition ws_it_receive :: "transport_env \<Rightarrow> response \<Rightarrow> ws_client \<Rightarrow> int \<times> response \<times> ws_client" where
  "ws_it_receive e resp s = ws_receive (xe_wsEvents e) (xe_timedOut e) resp s"

interpretation ws_it: final_transport ws_it_send ws_it_receive ws_disconnect "\<lambda>e. ws_isConnected (xe_libConnected e)"
  "\<lambda>s. wc_client s \<or> \<not> wc_connected s" "\<lambda>s. \<not> wc_client s \<and> \<not> wc_connected s"
proof
  fix e req resp s ret resp' s'
  assume "ws_it_send e req resp s = Some (ret, resp', s')"
  from ws_send_ok [OF this [unfolded ws_it_send_def]] show "answer_ok (ret, resp')" by (auto simp: ws_result_ok_def answer_ok_def)
next
  fix e resp s ret resp' s'
  assume "ws_it_receive e resp s = (ret, resp', s')"
  from ws_receive_contract [OF this [unfolded ws_it_receive_def]] show "answer_ok (ret, resp')" by (auto simp: answer_ok_def)
next
  show "\<not> ws_isConnected (xe_libConnected e) (ws_disconnect s)" for e s
    by (simp add: ws_isConnected_def ws_disconnect_def Let_def)
next
  show "\<exists>resp' s'. ws_it_send e req resp s = Some (- 1, resp', s') \<and> \<not> wc_client s' \<and> \<not> wc_connected s'"
    if "\<not> wc_client s \<and> \<not> wc_connected s" for e req resp s
    using that by (auto simp: ws_it_send_def ws_sendRequest_def split: option.split)
next
  show "ret = - 1 \<and> \<not> wc_client s' \<and> \<not> wc_connected s'"
    if "\<not> wc_client s \<and> \<not> wc_connected s" "ws_it_receive e resp s = (ret, resp', s')" for e resp s ret resp' s'
    using that by (auto simp: ws_it_receive_def ws_receive_def)
qed (auto simp: ws_isConnected_def ws_disconnect_def Let_def)

subsection \<open>Calls through the interface\<close>

fun it_send :: "transport_env \<Rightarrow> request \<Rightarrow> response \<Rightarrow> transport \<Rightarrow> (int \<times> response \<times> transport) option" where
  "it_send e req resp (HttpT c) = map_option (\<lambda>(ret, resp', c'). (ret, resp', HttpT c')) (http_it_send e req resp c)"
| "it_send e req resp (HttpsT cfg c) = map_option (\<lambda>(ret, resp', c'). (ret, resp', HttpsT cfg c')) (https_it_send e req resp c)"
| "it_send e req resp (TcpT s) = map_option (\<lambda>(ret, resp', s'). (ret, resp', TcpT s')) (tcp_it_send e req resp s)"
| "it_send e req resp (WebSocketT s) = map_option (\<lambda>(ret, resp', s'). (ret, resp', WebSocketT s')) (ws_it_send e req resp s)"

fun it_receive :: "transport_env \<Rightarrow> response \<Rightarrow> transport \<Rightarrow> int \<times> response \<times> transport" where
  "it_receive e resp (HttpT c) = (case http_it_receive e resp c of (ret, resp', c') \<Rightarrow> (ret, resp', HttpT c'))"
| "it_receive e resp (HttpsT cfg c) = (case http_it_receive e resp c of (ret, resp', c') \<Rightarrow> (ret, resp', HttpsT cfg c'))"
| "it_receive e resp (TcpT s) = (case tcp_it_receive e resp s of (ret, resp', s') \<Rightarrow> (ret, resp', TcpT s'))"
| "it_receive e resp (WebSocketT s) = (case ws_it_receive e resp s of (ret, resp', s') \<Rightarrow> (ret, resp', WebSocketT s'))"

fun it_disconnect :: "transport \<Rightarrow> transport" where
  "it_disconnect (HttpT c) = HttpT (http_disconnect c)"
| "it_disconnect (HttpsT cfg c) = HttpsT cfg (http_disconnect c)"
| "it_disconnect (TcpT s) = TcpT (tcp_disconnect s)"
| "it_disconnect (WebSocketT s) = WebSocketT (ws_disconnect s)"

fun it_isConnected :: "transport_env \<Rightarrow> transport \<Rightarrow> bool" where
  "it_isConnected e (HttpT c) = http_isConnected c"
| "it_isConnected e (HttpsT cfg c) = http_isConnected c"
| "it_isConnected e (TcpT s) = tcp_isConnected (xe_libConnected e) s"
| "it_isConnected e (WebSocketT s) = ws_isConnected (xe_libConnected e) s"

fun it_connect :: "transport \<Rightarrow> bool" where
  "it_connect (HttpT c) = http_connect c"
| "it_connect (HttpsT cfg c) = http_connect c"
| "it_connect (TcpT s) = tcp_connect s"
| "it_connect (WebSocketT s) = ws_connect s"

interpretation it: client_transport it_send it_receive it_disconnect it_isConnected
proof
  show "answer_ok (ret, resp')" if "it_send e req resp t = Some (ret, resp', t')" for e req resp t ret resp' t'
    using that by (cases t)
      (auto dest: http_it.send_answers https_it.send_answers tcp_it.send_answers ws_it.send_answers)
  show "answer_ok (ret, resp')" if "it_receive e resp t = (ret, resp', t')" for e resp t ret resp' t'
    using that by (cases t)
      (auto split: prod.splits dest: http_it.receive_answers tcp_it.receive_answers ws_it.receive_answers)
  show "\<not> it_isConnected e (it_disconnect t)" for e t
    by (cases t) (simp_all add: http_it.disconnect_drops tcp_it.disconnect_drops ws_it.disconnect_drops)
qed

text \<open>A session through the interface is one of the transport behind it.\<close>

lemma session_behind:
  assumes "\<And>e req resp x. send' e req resp (C x) = map_option (\<lambda>(ret, resp', x'). (ret, resp', C x')) (send e req resp x)"
    and "\<And>e resp x. receive' e resp (C x) = (case receive e resp x of (ret, resp', x') \<Rightarrow> (ret, resp', C x'))"
    and "\<And>x. disconnect' (C x) = C (disconnect x)"
  shows "transport_session send' receive' disconnect' ops (C x) =
    map_option (\<lambda>(as, x'). (as, C x')) (transport_session send receive disconnect ops x)"
proof (induction ops arbitrary: x)
  case (Cons op ops)
  show ?case
    by (cases op) (auto simp: assms Cons.IH option.map_comp comp_def case_prod_beta split: option.split prod.split)
qed simp

lemmas session_kinds =
  session_behind [of it_send HttpT http_it_send it_receive http_it_receive it_disconnect http_disconnect]
  session_behind [of it_send "HttpsT cfg" https_it_send it_receive http_it_receive it_disconnect http_disconnect for cfg]
  session_behind [of it_send TcpT tcp_it_send it_receive tcp_it_receive it_disconnect tcp_disconnect]
  session_behind [of it_send WebSocketT ws_it_send it_receive ws_it_receive it_disconnect ws_disconnect]

text \<open>
  C15: every call is answered. Whatever is asked of a transport through the interface, in whatever order and whatever the network and libhv
  do, each call that returns answers 0, or -1 with the status -1 and a message; and after \<open>disconnect\<close> no transport is connected.
\<close>

theorem transport_answers:
  assumes "transport_session it_send it_receive it_disconnect ops t = Some (as, t')"
  shows "length as = length (filter asks ops) \<and> list_all answer_ok as \<and> \<not> it_isConnected e (it_disconnect t')"
  using it.session_answers [OF assms] it.disconnect_drops by blast

text \<open>A request that a TCP transport can carry, its timeouts being positive, and the environment that answers it with \<open>reply\<close>.\<close>

definition tcp_carries :: "request \<Rightarrow> tcp \<Rightarrow> bool" where
  "tcp_carries req s \<longleftrightarrow> tcp_parseUrl (rq_url req) \<noteq> None \<and> length (rq_body req) \<le> 0xFFFFFFFB \<and> rq_connect_timeout req < 0 \<and>
     rq_read_timeout req \<noteq> 0 \<and> 20 < tc_connectTimeout s \<and> 0 < tc_readTimeout s"

definition replying :: "string \<Rightarrow> transport_env" where
  "replying reply = \<lparr>xe_http = (\<lambda>_. ThrewOther), xe_tcp = quiet_env reply, xe_ws = quiet_ws_env reply, xe_tcpEvents = [],
     xe_wsEvents = [], xe_timedOut = False, xe_libConnected = True\<rparr>"

definition marked_sanely :: "transport \<Rightarrow> bool" where
  "marked_sanely t \<longleftrightarrow> (case t of WebSocketT s \<Rightarrow> wc_client s \<or> \<not> wc_connected s | _ \<Rightarrow> True)"

text \<open>
  C17: what \<open>disconnect\<close> means depends on the transport, and the interface does not say. An HTTP, HTTPS or WebSocket transport is of no
  use afterwards: in every later session every call returns, every request and every wait for a response fails with -1, status -1 and a
  message, and the transport is never connected again. (A WebSocket transport without a client is taken not to be marked connected, as its constructors
  leave it.) A TCP transport makes a new client for the next request, which succeeds when the network lets it.
\<close>

theorem transport_disconnect:
  assumes "marked_sanely t"
  shows "case t of
     TcpT s \<Rightarrow> tcp_carries req s \<and> 4 \<le> length reply \<longrightarrow>
       (\<exists>resp' t'. transport_session it_send it_receive it_disconnect [TSend (replying reply) req resp] (it_disconnect t) = Some ([(0, resp')], t'))
   | _ \<Rightarrow> \<exists>as t'. transport_session it_send it_receive it_disconnect ops (it_disconnect t) = Some (as, t') \<and>
       all_failed ops as \<and> (\<forall>e. \<not> it_isConnected e t')"
proof (cases t)
  case (HttpT c)
  then show ?thesis using http_it.session_after_disconnect [of ops c] by (auto simp: session_kinds)
next
  case (HttpsT cfg c)
  then show ?thesis using https_it.session_after_disconnect [of ops c] by (auto simp: session_kinds)
next
  case (WebSocketT s)
  then show ?thesis using ws_it.session_after_disconnect [of s ops] assms by (auto simp: session_kinds marked_sanely_def)
next
  case (TcpT s)
  show ?thesis
  proof (cases "tcp_carries req s \<and> 4 \<le> length reply")
    case True
    then obtain host port where "tcp_parseUrl (rq_url req) = Some (host, port)" by (auto simp: tcp_carries_def)
    with True obtain s' sent where "tcp_sendRequest (quiet_env reply) req resp (tcp_disconnect s) =
        Some (0, resp\<lparr>rs_statusCode := 200, rs_body := drop 4 reply\<rparr>, s', sent)"
      using tcp_reconnects_aux [of req host port reply s resp] by (auto simp: tcp_carries_def)
    then show ?thesis using TcpT by (simp add: tcp_it_send_def replying_def)
  qed (use TcpT in auto)
qed

lemma transport_answers_witness:
  "\<exists>as t'. transport_session it_send it_receive it_disconnect [TReceive (replying ''1234ok'') response0, TDisconnect]
      (WebSocketT (ws_new_ssl True ssl_config0)) = Some (as, t') \<and> length as = 1 \<and> fst (hd as) = - 1"
proof -
  let ?ops = "[TReceive (replying ''1234ok'') response0, TDisconnect]"
  let ?t = "WebSocketT (ws_new_ssl True ssl_config0)"
  have r: "ws_it_receive (replying ''1234ok'') response0 (ws_new_ssl True ssl_config0) =
      (- 1, failed ''No active WebSocket connection'' response0, ws_new_ssl True ssl_config0)"
    by (simp add: ws_it_receive_def ws_receive_def ws_new_ssl_def ws_base_def)
  then obtain as t' where s: "transport_session it_send it_receive it_disconnect ?ops ?t = Some (as, t')" "fst (hd as) = - 1" by simp
  from transport_answers [OF s(1)] s show ?thesis by (simp add: asks_def)
qed

lemma transport_disconnect_witness:
  "(\<exists>resp' t'. transport_session it_send it_receive it_disconnect [TSend (replying ''1234ok'') (request0\<lparr>rq_url := ''h:1''\<rparr>) response0]
      (it_disconnect (TcpT (tcp_new True))) = Some ([(0, resp')], t')) \<and>
   (\<exists>as t'. transport_session it_send it_receive it_disconnect [TReceive (replying ''1234ok'') response0, TSend (replying ''1234ok'') request0 response0]
      (it_disconnect (HttpT ((http_new True)\<lparr>hc_connected := True\<rparr>))) = Some (as, t') \<and>
      length as = 2 \<and> list_all answer_failed as)"
proof -
  have "tcp_parseUrl ''h:1'' = Some (''h'', 1)" by code_simp
  then have "tcp_carries (request0\<lparr>rq_url := ''h:1''\<rparr>) (tcp_new True)" by (simp add: tcp_carries_def request0_def tcp_new_def)
  moreover have "marked_sanely (TcpT s)" "marked_sanely (HttpT c)" for s c by (simp_all add: marked_sanely_def)
  ultimately show ?thesis
    using transport_disconnect [where t = "TcpT (tcp_new True)" and req = "request0\<lparr>rq_url := ''h:1''\<rparr>" and reply = "''1234ok''"
        and resp = response0 and ops = "[]"]
      transport_disconnect [where t = "HttpT ((http_new True)\<lparr>hc_connected := True\<rparr>)" and req = request0 and reply = "[]" and resp = response0
        and ops = "[TReceive (replying ''1234ok'') response0, TSend (replying ''1234ok'') request0 response0]"]
    by (auto simp: all_failed_def asks_def)
qed

end
