(* ===== verification/Fw_HttpConstants.thy ===== *)
theory Fw_HttpConstants
  imports Fw_Prelude
begin

section \<open>HTTP constants\<close>

text \<open>
  \<open>include/fw/HttpConstants.hpp\<close>, the numbers of states and methods that handlers, transfers and the router use, and
  \<open>src/HttpConstants.cpp\<close>, which has the compiler compare them with libhv's. libhv's numbers are parameters.
\<close>

datatype http_status =
    StNext | StClose | StOk | StNoContent | StPartialContent | StBadRequest | StUnauthorized | StForbidden
  | StNotFound | StPayloadTooLarge | StTooManyRequests | StInternalError

fun status_code :: "http_status \<Rightarrow> int" where
  "status_code StNext = 0"
| "status_code StClose = - 100"
| "status_code StOk = 200"
| "status_code StNoContent = 204"
| "status_code StPartialContent = 206"
| "status_code StBadRequest = 400"
| "status_code StUnauthorized = 401"
| "status_code StForbidden = 403"
| "status_code StNotFound = 404"
| "status_code StPayloadTooLarge = 413"
| "status_code StTooManyRequests = 429"
| "status_code StInternalError = 500"

datatype http_method = MDelete | MGet | MHead | MPost | MPut | MConnect | MOptions | MTrace | MPatch

fun method_code :: "http_method \<Rightarrow> int" where
  "method_code MDelete = 0"
| "method_code MGet = 1"
| "method_code MHead = 2"
| "method_code MPost = 3"
| "method_code MPut = 4"
| "method_code MConnect = 5"
| "method_code MOptions = 6"
| "method_code MTrace = 7"
| "method_code MPatch = 28"

text \<open>The comparisons of \<open>HttpConstants.cpp\<close>: the file compiles when they hold.\<close>

definition status_checks :: "http_status list" where
  "status_checks =
     [StClose, StOk, StNoContent, StBadRequest, StUnauthorized, StForbidden, StNotFound, StTooManyRequests, StInternalError]"

definition method_checks :: "http_method list" where
  "method_checks = [MDelete, MGet, MHead, MPost, MPut, MConnect, MOptions, MTrace, MPatch]"

definition constants_compile :: "(http_status \<Rightarrow> int) \<Rightarrow> (http_method \<Rightarrow> int) \<Rightarrow> bool" where
  "constants_compile hv_status hv_method \<longleftrightarrow>
     list_all (\<lambda>s. status_code s = hv_status s) status_checks \<and> list_all (\<lambda>m. method_code m = hv_method m) method_checks"

lemma status_code_inj: "status_code a = status_code b \<longleftrightarrow> a = b"
  by (cases a; cases b) simp_all

lemma method_code_inj: "method_code a = method_code b \<longleftrightarrow> a = b"
  by (cases a; cases b) simp_all

lemma method_checked: "m \<in> set method_checks"
  by (cases m) (simp_all add: method_checks_def)

lemma status_checked: "s \<in> set status_checks \<longleftrightarrow> s \<notin> {StNext, StPartialContent, StPayloadTooLarge}"
  by (cases s) (simp_all add: status_checks_def)

text \<open>
  what compiling guarantees. With a libhv that passes the comparisons every method has libhv's number, and different methods different ones; so has
  every status but three: 0, which is the framework's own, 206 and 413, which are not compared.
\<close>

theorem constants_agree:
  assumes "constants_compile hv_status hv_method"
  shows "method_code = hv_method \<and> inj hv_method \<and> (s \<notin> {StNext, StPartialContent, StPayloadTooLarge} \<longrightarrow> status_code s = hv_status s) \<and>
    (\<exists>hv. constants_compile hv hv_method \<and> status_code StPartialContent \<noteq> hv StPartialContent \<and>
          status_code StPayloadTooLarge \<noteq> hv StPayloadTooLarge)"
proof -
  have m: "method_code = hv_method"
    using assms method_checked by (auto simp: constants_compile_def list_all_iff)
  moreover have "inj hv_method" unfolding m [symmetric] inj_def by (simp add: method_code_inj)
  moreover have "s \<notin> {StNext, StPartialContent, StPayloadTooLarge} \<longrightarrow> status_code s = hv_status s"
    using assms status_checked [of s] by (auto simp: constants_compile_def list_all_iff)
  moreover have "constants_compile (status_code(StPartialContent := 0, StPayloadTooLarge := 0)) hv_method"
    using m by (simp add: constants_compile_def status_checks_def method_checks_def)
  ultimately show ?thesis by (intro conjI exI [of _ "status_code(StPartialContent := 0, StPayloadTooLarge := 0)"]) simp_all
qed

lemma constants_agree_witness: "inj method_code \<and> status_code StForbidden = 403"
proof -
  have "constants_compile status_code method_code" by (simp add: constants_compile_def list_all_iff)
  from constants_agree [OF this, of StForbidden] show ?thesis by simp
qed

end
