(* ===== verification/Fw_Context.thy ===== *)
theory Fw_Context
  imports Fw_HttpConstants
begin

section \<open>The request context\<close>

text \<open>
  \<open>src/Context.cpp\<close>. The context wraps libhv's request, response and response writer. Plain fields
  of the response that the code assigns are fields here; a call of a libhv method is an entry of a
  trace, and the results of the writer's methods are a parameter. A C string is its bytes before
  the terminating zero; a null pointer is \<open>None\<close>. The getters of libhv that a lookup calls are its
  parameters.
\<close>

subsection \<open>State\<close>

datatype same_site = SameSiteNone | SameSiteLax | SameSiteStrict

record cookie =
  ck_name :: string
  ck_value :: string
  ck_path :: string
  ck_max_age :: int
  ck_httponly :: bool
  ck_samesite :: same_site

datatype resp_call =
    SetHeader string string
  | SetContentType string
  | SetContentTypeByFilename string
  | File "string option"
  | AddCookie cookie
  | EraseHeader string

datatype writer_call =
    WriteStatus int
  | WriteHeader string string
  | EndHeaders "string option" int
  | WriteBody string
  | WriterEnd

record sreq =
  sq_method :: int
  sq_path :: string
  sq_query_params :: "(string \<times> string) list"
  sq_http_major :: int
  sq_http_minor :: int
  sq_body :: string
  sq_client_ip :: string
  sq_client_port :: int
  sq_content_length :: int
  sq_set :: "(string \<times> string) list"
  sq_erased :: "string list"

record ctx =
  cx_req :: sreq
  cx_status :: int
  cx_body :: string
  cx_json :: bool
  cx_calls :: "resp_call list"
  cx_writer :: bool
  cx_writes :: "writer_call list"
  cx_data :: "string \<rightharpoonup> string"
  cx_streamingHandoff :: bool

definition ctx_new :: "sreq \<Rightarrow> int \<Rightarrow> bool \<Rightarrow> ctx" where
  "ctx_new req status writer = \<lparr>cx_req = req, cx_status = status, cx_body = [], cx_json = False, cx_calls = [],
     cx_writer = writer, cx_writes = [], cx_data = Map.empty, cx_streamingHandoff = False\<rparr>"

text \<open>A request, for the examples.\<close>

definition sreq0 :: sreq where
  "sreq0 = \<lparr>sq_method = 1, sq_path = ''/f'', sq_query_params = [], sq_http_major = 1, sq_http_minor = 1, sq_body = [],
     sq_client_ip = ''127.0.0.1'', sq_client_port = 40000, sq_content_length = 0, sq_set = [], sq_erased = []\<rparr>"

definition resp_call :: "resp_call \<Rightarrow> ctx \<Rightarrow> ctx" where
  "resp_call call c = c\<lparr>cx_calls := cx_calls c @ [call]\<rparr>"

definition writer_call :: "writer_call \<Rightarrow> ctx \<Rightarrow> ctx" where
  "writer_call call c = c\<lparr>cx_writes := cx_writes c @ [call]\<rparr>"

subsection \<open>Response\<close>

definition is_crlf :: "char \<Rightarrow> bool" where
  "is_crlf c \<longleftrightarrow> c = CHR 0x0D \<or> c = CHR 0x0A"

definition has_crlf :: "string \<Rightarrow> bool" where
  "has_crlf s \<longleftrightarrow> list_ex is_crlf s"

definition strip_crlf :: "string \<Rightarrow> string" where
  "strip_crlf s = filter (\<lambda>c. \<not> is_crlf c) s"

definition setStatus :: "int \<Rightarrow> ctx \<Rightarrow> ctx" where
  "setStatus code c = c\<lparr>cx_status := code\<rparr>"

definition setHeader :: "string \<Rightarrow> string \<Rightarrow> ctx \<Rightarrow> ctx" where
  "setHeader key val c =
     (if has_crlf val then resp_call (SetHeader key (strip_crlf val)) c
      else resp_call (SetHeader key val) c)"

definition setBody :: "string \<Rightarrow> ctx \<Rightarrow> ctx" where
  "setBody body c = c\<lparr>cx_body := body\<rparr>"

definition setContentType :: "string \<Rightarrow> ctx \<Rightarrow> ctx" where
  "setContentType ct c = resp_call (SetContentType ct) c"

definition setContentTypeByFilename :: "string \<Rightarrow> ctx \<Rightarrow> ctx" where
  "setContentTypeByFilename name c = resp_call (SetContentTypeByFilename name) c"

text \<open>Two dots in a row anywhere in the path.\<close>

fun has_dotdot :: "string \<Rightarrow> bool" where
  "has_dotdot (a # b # r) = ((a = CHR ''.'' \<and> b = CHR ''.'') \<or> has_dotdot (b # r))"
| "has_dotdot _ = False"

definition quote :: char where "quote = CHR 0x22"
definition backslash :: char where "backslash = CHR 0x5C"

definition forbidden_body :: string where
  "forbidden_body = [CHR ''{'', quote] @ ''error'' @ [quote, CHR '':'', quote] @ ''Forbidden'' @ [quote, CHR ''}'']"

definition serveFile :: "string option \<Rightarrow> ctx \<Rightarrow> ctx" where
  "serveFile filepath c =
     (case filepath of
        Some p \<Rightarrow> if has_dotdot p then c\<lparr>cx_status := 403, cx_body := forbidden_body\<rparr>
                  else resp_call (File filepath) c
      | None \<Rightarrow> resp_call (File filepath) c)"

definition json_type :: string where "json_type = ''application/json; charset=utf-8''"

definition ctx_json :: "int \<Rightarrow> string \<Rightarrow> ctx \<Rightarrow> ctx" where
  "ctx_json statusCode body c =
     (resp_call (SetHeader ''Content-Type'' json_type) (c\<lparr>cx_status := statusCode, cx_json := True\<rparr>))\<lparr>cx_body := body\<rparr>"

fun escape_json :: "string \<Rightarrow> string" where
  "escape_json [] = []"
| "escape_json (p # r) = (if p = quote \<or> p = backslash then backslash # p # escape_json r else p # escape_json r)"

definition error_body :: "string \<Rightarrow> string option \<Rightarrow> string" where
  "error_body code message =
     (case message of
        Some m \<Rightarrow>
          if m \<noteq> [] then [CHR ''{'', quote] @ ''error'' @ [quote, CHR '':'', quote] @ code @
              [quote, CHR '','', quote] @ ''message'' @ [quote, CHR '':'', quote] @ escape_json m @ [quote, CHR ''}'']
          else [CHR ''{'', quote] @ ''error'' @ [quote, CHR '':'', quote] @ code @ [quote, CHR ''}'']
      | None \<Rightarrow> [CHR ''{'', quote] @ ''error'' @ [quote, CHR '':'', quote] @ code @ [quote, CHR ''}''])"

definition ctx_error :: "int \<Rightarrow> string \<Rightarrow> string option \<Rightarrow> ctx \<Rightarrow> ctx" where
  "ctx_error statusCode code message c =
     (resp_call (SetHeader ''Content-Type'' json_type) (c\<lparr>cx_status := statusCode\<rparr>))\<lparr>cx_body := error_body code message\<rparr>"

definition removeHeader :: "string \<Rightarrow> ctx \<Rightarrow> ctx" where
  "removeHeader key c = resp_call (EraseHeader key) c"

definition eraseRequestHeader :: "string \<Rightarrow> ctx \<Rightarrow> ctx" where
  "eraseRequestHeader key c = c\<lparr>cx_req := (cx_req c)\<lparr>sq_erased := sq_erased (cx_req c) @ [key]\<rparr>\<rparr>"

definition setCookie :: "string \<Rightarrow> string \<Rightarrow> string \<Rightarrow> int \<Rightarrow> bool \<Rightarrow> int \<Rightarrow> ctx \<Rightarrow> ctx" where
  "setCookie name value path maxAge httpOnly sameSite c =
     resp_call (AddCookie \<lparr>ck_name = name, ck_value = value, ck_path = path, ck_max_age = maxAge,
       ck_httponly = httpOnly,
       ck_samesite = (if sameSite = 0 then SameSiteNone else if sameSite = 1 then SameSiteLax
                      else if sameSite = 2 then SameSiteStrict else SameSiteLax)\<rparr>) c"

subsection \<open>Streaming\<close>

definition hasWriter :: "ctx \<Rightarrow> bool" where
  "hasWriter c = cx_writer c"

definition isStreamingHandoff :: "ctx \<Rightarrow> bool" where
  "isStreamingHandoff c = cx_streamingHandoff c"

text \<open>\<open>writer\<close> is the shared pointer that libhv's context holds.\<close>

definition writerOwnership :: "'w \<Rightarrow> ctx \<Rightarrow> 'w option" where
  "writerOwnership writer c = (if hasWriter c then Some writer else None)"

definition writeStatus :: "int \<Rightarrow> ctx \<Rightarrow> ctx" where
  "writeStatus code c = (if cx_writer c then writer_call (WriteStatus code) c else c)"

definition writeHeader :: "string \<Rightarrow> string \<Rightarrow> ctx \<Rightarrow> ctx" where
  "writeHeader key val c =
     (if \<not> cx_writer c then c
      else if has_crlf val then writer_call (WriteHeader key (strip_crlf val)) c
      else writer_call (WriteHeader key val) c)"

text \<open>\<open>result\<close> is what libhv's writer answers.\<close>

definition endHeaders :: "(writer_call \<Rightarrow> int) \<Rightarrow> string option \<Rightarrow> int \<Rightarrow> ctx \<Rightarrow> int \<times> ctx" where
  "endHeaders result key contentLength c =
     (if cx_writer c then (result (EndHeaders key contentLength), writer_call (EndHeaders key contentLength) c)
      else (- 1, c))"

definition writeBody :: "(writer_call \<Rightarrow> int) \<Rightarrow> string \<Rightarrow> ctx \<Rightarrow> int \<times> ctx" where
  "writeBody result data c =
     (if cx_writer c then (result (WriteBody data), writer_call (WriteBody data) c) else (- 1, c))"

definition ctx_end :: "(writer_call \<Rightarrow> int) \<Rightarrow> ctx \<Rightarrow> int \<times> ctx" where
  "ctx_end result c = (if cx_writer c then (result WriterEnd, writer_call WriterEnd c) else (- 1, c))"

definition writerConnected :: "bool \<Rightarrow> ctx \<Rightarrow> bool" where
  "writerConnected libConnected c \<longleftrightarrow> cx_writer c \<and> libConnected"

definition writeBufsize :: "nat \<Rightarrow> ctx \<Rightarrow> nat" where
  "writeBufsize libSize c = (if cx_writer c then libSize else 0)"

definition markStreamingHandoff :: "ctx \<Rightarrow> ctx" where
  "markStreamingHandoff c = c\<lparr>cx_streamingHandoff := True\<rparr>"

subsection \<open>Key-value store\<close>

definition ctx_set :: "string \<Rightarrow> string \<Rightarrow> ctx \<Rightarrow> ctx" where
  "ctx_set key val c = c\<lparr>cx_data := (cx_data c)(key \<mapsto> val)\<rparr>"

definition ctx_get :: "string \<Rightarrow> string \<Rightarrow> ctx \<Rightarrow> string" where
  "ctx_get key dflt c = (case cx_data c key of Some v \<Rightarrow> v | None \<Rightarrow> dflt)"

definition ctx_has :: "string \<Rightarrow> ctx \<Rightarrow> bool" where
  "ctx_has key c \<longleftrightarrow> cx_data c key \<noteq> None"

subsection \<open>Request metadata\<close>

fun join_params :: "bool \<Rightarrow> (string \<times> string) list \<Rightarrow> string" where
  "join_params first [] = []"
| "join_params first (p # ps) = (if first then [] else ''&'') @ fst p @ ''='' @ snd p @ join_params False ps"

definition fullPath :: "ctx \<Rightarrow> string" where
  "fullPath c =
     (let result = sq_path (cx_req c)
      in if find_index (\<lambda>ch. ch = CHR ''?'') result = None \<and> sq_query_params (cx_req c) \<noteq> []
         then result @ ''?'' @ join_params True (sq_query_params (cx_req c)) else result)"

text \<open>\<open>method_str\<close> and \<open>method_enum\<close> are libhv's table of method names.\<close>

definition ctx_method :: "(int \<Rightarrow> string) \<Rightarrow> ctx \<Rightarrow> string" where
  "ctx_method method_str c = method_str (sq_method (cx_req c))"

definition methodEnum :: "ctx \<Rightarrow> int" where
  "methodEnum c = sq_method (cx_req c)"

definition ctx_path :: "ctx \<Rightarrow> string" where
  "ctx_path c = sq_path (cx_req c)"

definition ctx_body :: "ctx \<Rightarrow> string" where
  "ctx_body c = sq_body (cx_req c)"

definition clientIp :: "ctx \<Rightarrow> string" where
  "clientIp c = sq_client_ip (cx_req c)"

definition clientPort :: "ctx \<Rightarrow> int" where
  "clientPort c = sq_client_port (cx_req c)"

definition contentLength :: "ctx \<Rightarrow> int" where
  "contentLength c = sq_content_length (cx_req c)"

definition responseBodySize :: "ctx \<Rightarrow> nat" where
  "responseBodySize c = length (cx_body c)"

definition ctx_status :: "ctx \<Rightarrow> int" where
  "ctx_status c = cx_status c"

definition httpVersion :: "ctx \<Rightarrow> int" where
  "httpVersion c = sq_http_major (cx_req c) * 10 + sq_http_minor (cx_req c)"

text \<open>
  The lookups: libhv's getters are given the request, with what was set and erased in it, or the calls that the response has had.
\<close>

definition ctx_param :: "(sreq \<Rightarrow> string \<Rightarrow> string) \<Rightarrow> string \<Rightarrow> ctx \<Rightarrow> string" where
  "ctx_param GetParam key c = GetParam (cx_req c) key"

definition ctx_header :: "(sreq \<Rightarrow> string \<Rightarrow> string) \<Rightarrow> string \<Rightarrow> ctx \<Rightarrow> string" where
  "ctx_header GetHeader key c = GetHeader (cx_req c) key"

definition formData :: "(sreq \<Rightarrow> string \<Rightarrow> string) \<Rightarrow> string \<Rightarrow> ctx \<Rightarrow> string" where
  "formData GetFormData key c = GetFormData (cx_req c) key"

definition ctx_cookie :: "(sreq \<Rightarrow> string \<Rightarrow> cookie) \<Rightarrow> string \<Rightarrow> ctx \<Rightarrow> string" where
  "ctx_cookie GetCookie name c = ck_value (GetCookie (cx_req c) name)"

definition responseHeader :: "(resp_call list \<Rightarrow> string \<Rightarrow> string) \<Rightarrow> string \<Rightarrow> ctx \<Rightarrow> string" where
  "responseHeader GetHeader key c = GetHeader (cx_calls c) key"

subsection \<open>Contexts for tests\<close>

text \<open>
  \<open>TestContextBuilder\<close> fills a request, starting from libhv's \<open>req\<close>, and \<open>build\<close> copies it into a context without writer; \<open>status\<close>
  is libhv's initial status.
\<close>

datatype builder_op =
    BMethod string | BPath string | BHeader string string | BClientIp string | BBody string

definition builder_new :: "sreq \<Rightarrow> sreq" where
  "builder_new req = req\<lparr>sq_method := 1, sq_path := ''/''\<rparr>"

fun builder_step :: "(string \<Rightarrow> int) \<Rightarrow> builder_op \<Rightarrow> sreq \<Rightarrow> sreq" where
  "builder_step method_enum (BMethod m) req = req\<lparr>sq_method := method_enum m\<rparr>"
| "builder_step method_enum (BPath p) req = req\<lparr>sq_path := p\<rparr>"
| "builder_step method_enum (BHeader key val) req = req\<lparr>sq_set := sq_set req @ [(key, val)]\<rparr>"
| "builder_step method_enum (BClientIp ip) req = req\<lparr>sq_client_ip := ip\<rparr>"
| "builder_step method_enum (BBody b) req = req\<lparr>sq_body := b\<rparr>"

definition builder_build :: "int \<Rightarrow> sreq \<Rightarrow> ctx" where
  "builder_build status req = ctx_new req status False"

definition build_context :: "(string \<Rightarrow> int) \<Rightarrow> int \<Rightarrow> builder_op list \<Rightarrow> sreq \<Rightarrow> ctx" where
  "build_context method_enum status ops req = builder_build status (fold (builder_step method_enum) ops (builder_new req))"

text \<open>Of each setting the last one counts; a context for tests has no writer, so it never streams.\<close>

lemma build_context_path: "ctx_path (build_context method_enum status ops req) =
    fold (\<lambda>b p. case b of BPath q \<Rightarrow> q | _ \<Rightarrow> p) ops ''/''"
proof -
  have "sq_path (fold (builder_step method_enum) ops r) = fold (\<lambda>b p. case b of BPath q \<Rightarrow> q | _ \<Rightarrow> p) ops (sq_path r)" for r
    by (induction ops arbitrary: r) (auto split: builder_op.splits)
  then show ?thesis by (simp add: build_context_def builder_build_def ctx_path_def ctx_new_def builder_new_def)
qed

lemma build_context_never_streams: "snd (writeBody result data (build_context method_enum status ops req)) =
    build_context method_enum status ops req"
  by (simp add: build_context_def builder_build_def writeBody_def ctx_new_def)

subsection \<open>All operations that change the context\<close>

datatype ctx_op =
    SetStatus int | OpSetHeader string string | OpSetBody string | OpSetContentType string
  | OpSetContentTypeByFilename string | ServeFile "string option" | Json int string
  | Error int string "string option" | RemoveHeader string | EraseRequestHeader string
  | SetCookie string string string int bool int | OpWriteStatus int | OpWriteHeader string string
  | OpEndHeaders "string option" int | OpWriteBody string | OpEnd | Handoff | OpSet string string

fun ctx_step :: "(writer_call \<Rightarrow> int) \<Rightarrow> ctx_op \<Rightarrow> ctx \<Rightarrow> ctx" where
  "ctx_step w (SetStatus n) c = setStatus n c"
| "ctx_step w (OpSetHeader k v) c = setHeader k v c"
| "ctx_step w (OpSetBody b) c = setBody b c"
| "ctx_step w (OpSetContentType t) c = setContentType t c"
| "ctx_step w (OpSetContentTypeByFilename f) c = setContentTypeByFilename f c"
| "ctx_step w (ServeFile p) c = serveFile p c"
| "ctx_step w (Json n b) c = ctx_json n b c"
| "ctx_step w (Error n code m) c = ctx_error n code m c"
| "ctx_step w (RemoveHeader k) c = removeHeader k c"
| "ctx_step w (EraseRequestHeader k) c = eraseRequestHeader k c"
| "ctx_step w (SetCookie n v p a h s) c = setCookie n v p a h s c"
| "ctx_step w (OpWriteStatus n) c = writeStatus n c"
| "ctx_step w (OpWriteHeader k v) c = writeHeader k v c"
| "ctx_step w (OpEndHeaders k n) c = snd (endHeaders w k n c)"
| "ctx_step w (OpWriteBody d) c = snd (writeBody w d c)"
| "ctx_step w OpEnd c = snd (ctx_end w c)"
| "ctx_step w Handoff c = markStreamingHandoff c"
| "ctx_step w (OpSet k v) c = ctx_set k v c"

lemmas ctx_op_defs = setStatus_def setHeader_def setBody_def setContentType_def setContentTypeByFilename_def serveFile_def ctx_json_def ctx_error_def removeHeader_def
  eraseRequestHeader_def setCookie_def writeStatus_def writeHeader_def endHeaders_def writeBody_def ctx_end_def
  markStreamingHandoff_def ctx_set_def resp_call_def writer_call_def

subsection \<open>What reaches libhv\<close>

fun safe_call :: "resp_call \<Rightarrow> bool" where
  "safe_call (SetHeader k v) = (\<not> has_crlf v)"
| "safe_call (File (Some p)) = (\<not> has_dotdot p)"
| "safe_call _ = True"

fun safe_write :: "writer_call \<Rightarrow> bool" where
  "safe_write (WriteHeader k v) = (\<not> has_crlf v)"
| "safe_write _ = True"

lemma strip_clean: "\<not> has_crlf (strip_crlf s)"
  by (simp add: has_crlf_def strip_crlf_def list_ex_iff)

lemma json_type_clean: "\<not> has_crlf json_type"
  by (simp add: has_crlf_def json_type_def is_crlf_def)

lemma ctx_step_safe:
  "list_all safe_call (cx_calls c) \<Longrightarrow> list_all safe_write (cx_writes c) \<Longrightarrow>
   list_all safe_call (cx_calls (ctx_step w op c)) \<and> list_all safe_write (cx_writes (ctx_step w op c))"
  by (cases op) (auto simp: ctx_op_defs strip_clean json_type_clean split: option.splits)

lemma ctx_run_safe:
  "list_all safe_call (cx_calls c) \<Longrightarrow> list_all safe_write (cx_writes c) \<Longrightarrow>
   list_all safe_call (cx_calls (fold (ctx_step w) ops c)) \<and> list_all safe_write (cx_writes (fold (ctx_step w) ops c))"
proof (induction ops arbitrary: c)
  case (Cons op ops)
  from ctx_step_safe [OF Cons.prems] Cons.IH [of "ctx_step w op c"] show ?case by simp
qed simp

text \<open>
  no header injection and no path traversal through the context. Whatever a handler does with
  its context, no header value that reaches libhv's response or writer contains a carriage return
  or line feed, and no file that libhv is told to serve has two dots in a row in its path. (Header
  names, content types and cookies are passed on as they are.)
\<close>

theorem ctx_output_safe:
  "list_all safe_call (cx_calls (fold (ctx_step w) ops (ctx_new req status writer))) \<and>
   list_all safe_write (cx_writes (fold (ctx_step w) ops (ctx_new req status writer)))"
  by (rule ctx_run_safe) (simp_all add: ctx_new_def)

text \<open>
  what stripping costs. A value without line ends is passed unchanged; of any other exactly the
  carriage returns and line feeds are dropped, in either kind of response; and a file is refused
  with status 403 and not served exactly when its path has two dots in a row.
\<close>

theorem ctx_output_exact:
  "cx_calls (setHeader k v c) = cx_calls c @ [SetHeader k (filter (\<lambda>ch. \<not> is_crlf ch) v)] \<and>
   cx_writes (writeHeader k v c) =
     (if cx_writer c then cx_writes c @ [WriteHeader k (filter (\<lambda>ch. \<not> is_crlf ch) v)] else cx_writes c) \<and>
   (if has_dotdot p then cx_status (serveFile (Some p) c) = 403 \<and> cx_calls (serveFile (Some p) c) = cx_calls c
    else cx_status (serveFile (Some p) c) = cx_status c \<and> cx_calls (serveFile (Some p) c) = cx_calls c @ [File (Some p)])"
proof -
  have "\<not> has_crlf v \<Longrightarrow> filter (\<lambda>ch. \<not> is_crlf ch) v = v"
    by (simp add: has_crlf_def list_ex_iff filter_id_conv)
  then show ?thesis by (simp add: ctx_op_defs strip_crlf_def)
qed

subsection \<open>The error body as JSON\<close>

text \<open>
  Reading a JSON string up to its closing quote, as RFC 8259 has it, for the escapes the code
  writes: an unescaped control character is an error.
\<close>

fun read_string :: "string \<Rightarrow> (string \<times> string) option" where
  "read_string [] = None"
| "read_string (c # r) =
     (if c = quote then Some ([], r)
      else if code_of c < 32 then None
      else if c = backslash then
        (case r of [] \<Rightarrow> None
         | e # r' \<Rightarrow> if e = quote \<or> e = backslash then map_option (\<lambda>(s, t). (e # s, t)) (read_string r') else None)
      else map_option (\<lambda>(s, t). (c # s, t)) (read_string r))"

lemma special_codes: "\<not> code_of quote < 32" "\<not> code_of backslash < 32" "backslash \<noteq> quote"
  by (simp_all add: quote_def backslash_def code_of_def)

lemma read_escaped:
  "read_string (escape_json m @ quote # r) =
     (if \<exists>c\<in>set m. code_of c < 32 then None else Some (m, r))"
proof (induction m)
  case Nil
  show ?case by simp
next
  case (Cons c m)
  then show ?case using special_codes by auto
qed

text \<open>
  the message of an error response reads back. A JSON reader that has come to the message gets
  exactly the message given, whatever quotes and backslashes it has, unless it contains a control
  character: then the body is no JSON text, because \<open>error\<close> escapes only quotes and backslashes.
\<close>

theorem error_body_message:
  "\<exists>pre. error_body code (Some (x # m)) = pre @ escape_json (x # m) @ [quote, CHR ''}''] \<and>
    read_string (escape_json (x # m) @ [quote, CHR ''}'']) =
      (if \<exists>c\<in>set (x # m). code_of c < 32 then None else Some (x # m, ''}''))"
proof -
  have "error_body code (Some (x # m)) = ([CHR ''{'', quote] @ ''error'' @ [quote, CHR '':'', quote] @ code @
      [quote, CHR '','', quote] @ ''message'' @ [quote, CHR '':'', quote]) @ escape_json (x # m) @ [quote, CHR ''}'']"
    by (simp add: error_body_def del: escape_json.simps)
  then show ?thesis using read_escaped [of "x # m" "''}''"] by (intro exI conjI) auto
qed

subsection \<open>The store between middleware and handler\<close>

text \<open>The contract of a key-value store, as middleware and handlers use it.\<close>

locale kv_store =
  fixes put :: "'k \<Rightarrow> 'v \<Rightarrow> 's \<Rightarrow> 's" and lookup :: "'k \<Rightarrow> 's \<Rightarrow> 'v option"
  assumes lookup_put: "lookup k' (put k v s) = (if k' = k then Some v else lookup k' s)"
begin

text \<open>After any writes, a lookup gives the last value written to the key, if any.\<close>

lemma lookup_run:
  "lookup k (fold (\<lambda>(k, v). put k v) ws s) =
     (case filter (\<lambda>w. fst w = k) ws of [] \<Rightarrow> lookup k s | w # r \<Rightarrow> Some (snd (last (w # r))))"
proof (induction ws arbitrary: s)
  case (Cons w ws)
  then show ?case by (cases w) (auto simp: lookup_put split: list.splits)
qed simp

end

interpretation ctx_kv: kv_store ctx_set "\<lambda>k c. cx_data c k"
  by unfold_locales (simp add: ctx_set_def)

text \<open>
  what middleware stores, the handler reads. After any sequence of writes, \<open>get\<close> returns the
  last value written to the key, or the default when there was none, and \<open>has\<close> tells which.
\<close>

theorem ctx_get_last_set:
  "let c' = fold (\<lambda>(k, v). ctx_set k v) ws (ctx_new req status writer); mine = filter (\<lambda>w. fst w = key) ws
   in ctx_has key c' = (mine \<noteq> []) \<and> ctx_get key dflt c' = (if mine = [] then dflt else snd (last mine))"
  unfolding Let_def ctx_has_def ctx_get_def ctx_kv.lookup_run
  by (cases "filter (\<lambda>w. fst w = key) ws") (auto simp: ctx_new_def)

end
