(* ===== verification/Fw_FileTransfer.thy ===== *)
theory Fw_FileTransfer
  imports Fw_Context
begin

section \<open>File transfer\<close>

text \<open>
  \<open>include/fw/IFileTransfer.hpp\<close>, \<open>src/LegacyTransfer.cpp\<close>, \<open>src/StreamTransfer.cpp\<close>,
  \<open>src/AccelTransfer.cpp\<close> and \<open>src/FileTransferFactory.cpp\<close>. The file on disk is a parameter: its
  content and whether it can be positioned, or \<open>None\<close> when it does not open; it need not have the
  size the caller states. What libhv's writer answers is a parameter too, and memory does not run out. The counters are words of 64 bits, which
  readers take as signed, as \<open>int64_t\<close>; durations are left out of the statistics.
\<close>

subsection \<open>Parameters and statistics\<close>

type_synonym disk_file = "(string \<times> bool) option"

record transfer_stats =
  st_totalCount :: "64 word"
  st_totalBytes :: "64 word"
  st_activeCount :: "64 word"
  st_errorCount :: "64 word"

definition recordStart :: "int \<Rightarrow> transfer_stats \<Rightarrow> transfer_stats" where
  "recordStart bytes st = st\<lparr>st_totalCount := st_totalCount st + 1, st_totalBytes := st_totalBytes st + word_of_int bytes,
     st_activeCount := st_activeCount st + 1\<rparr>"

definition recordEnd :: "bool \<Rightarrow> transfer_stats \<Rightarrow> transfer_stats" where
  "recordEnd success st = st\<lparr>st_activeCount := st_activeCount st - 1,
     st_errorCount := st_errorCount st + (if success then 0 else 1)\<rparr>"

record transfer_params =
  tp_physicalPath :: string
  tp_displayName :: string
  tp_fileSize :: int
  tp_rangeStart :: int
  tp_rangeEnd :: int
  tp_onComplete :: bool

definition isRange :: "transfer_params \<Rightarrow> bool" where
  "isRange p \<longleftrightarrow> 0 \<le> tp_rangeStart p \<and> 0 \<le> tp_rangeEnd p"

definition sendStart :: "transfer_params \<Rightarrow> int" where
  "sendStart p = (if isRange p then tp_rangeStart p else 0)"

definition sendLen :: "transfer_params \<Rightarrow> int" where
  "sendLen p = (if isRange p then tp_rangeEnd p - tp_rangeStart p + 1 else tp_fileSize p)"

text \<open>\<open>c_str\<close>: up to the first zero byte. \<open>onComplete\<close>: the values the callback gets, if there is one.\<close>

definition c_str :: "string \<Rightarrow> string" where
  "c_str s = takeWhile (\<lambda>c. c \<noteq> CHR 0x00) s"

definition complete :: "transfer_params \<Rightarrow> bool \<Rightarrow> bool list" where
  "complete p success = (if tp_onComplete p then [success] else [])"

subsection \<open>Headers\<close>

definition safeFilenameForHeader :: "string \<Rightarrow> string" where
  "safeFilenameForHeader name =
     map (\<lambda>ch. if 32 \<le> code_of ch \<and> code_of ch < 127 \<and> ch \<noteq> quote \<and> ch \<noteq> backslash then ch else CHR ''_'') name"

definition disposition :: "transfer_params \<Rightarrow> string" where
  "disposition p = ''attachment; filename='' @ [quote] @ safeFilenameForHeader (tp_displayName p) @ [quote]"

definition content_range :: "transfer_params \<Rightarrow> string" where
  "content_range p = ''bytes '' @ show_int (sendStart p) @ ''-'' @ show_int (tp_rangeEnd p) @ ''/'' @ show_int (tp_fileSize p)"

definition download_headers :: "transfer_params \<Rightarrow> ctx \<Rightarrow> ctx" where
  "download_headers p c =
     setContentTypeByFilename (c_str (tp_displayName p))
       (setHeader ''Accept-Ranges'' ''bytes'' (setHeader ''Content-Disposition'' (disposition p) c))"

definition range_headers :: "transfer_params \<Rightarrow> ctx \<Rightarrow> ctx" where
  "range_headers p c =
     (if isRange p then setHeader ''Content-Range'' (content_range p) (setStatus (status_code StPartialContent) c) else setStatus (status_code StOk) c)"

definition internal_error :: "ctx \<Rightarrow> ctx" where
  "internal_error c = ctx_error (status_code StInternalError) ''internal'' None c"

subsection \<open>The legacy transfer\<close>

definition kStreamThreshold :: int where "kStreamThreshold = 4 * 1024 * 1024"
definition kStreamChunkSize :: int where "kStreamChunkSize = 256 * 1024"
definition kBackpressureThreshold :: nat where "kBackpressureThreshold = 4 * 1024 * 1024"

text \<open>The answers of the writer, by the number of the question.\<close>

record legacy_env =
  le_bufsize :: "nat \<Rightarrow> nat"
  le_connected :: "nat \<Rightarrow> bool"
  le_result :: "nat \<Rightarrow> writer_call \<Rightarrow> int"

text \<open>The wait for the write buffer to drain, in steps of 10 ms up to 60 s.\<close>

function bp_wait :: "legacy_env \<Rightarrow> nat \<Rightarrow> nat \<Rightarrow> ctx \<Rightarrow> bool \<times> nat" where
  "bp_wait env k waitedMs c =
     (if kBackpressureThreshold < writeBufsize (le_bufsize env k) c \<and> writerConnected (le_connected env (k + 1)) c
      then if 60000 \<le> waitedMs + 10 then (True, k + 2) else bp_wait env (k + 2) (waitedMs + 10) c
      else (False, k + 2))"
  by pat_completeness auto
termination by (relation "measure (\<lambda>(_, _, waitedMs, _). 60000 - waitedMs)") auto

declare bp_wait.simps [simp del]

text \<open>
  The loop over the blocks. \<open>rest\<close>: the file from the current position on; \<open>good\<close>: the state of the
  stream, which a short read ends. The results are what remains, whether the wait timed out, and
  the context.
\<close>

function send_chunks :: "legacy_env \<Rightarrow> nat \<Rightarrow> string \<Rightarrow> int \<Rightarrow> bool \<Rightarrow> ctx \<Rightarrow> int \<times> bool \<times> ctx" where
  "send_chunks env k rest remaining good c =
     (if \<not> (0 < remaining \<and> good) then (remaining, False, c)
      else case bp_wait env k 0 c of (timedOut, k1) \<Rightarrow>
        if timedOut \<or> \<not> writerConnected (le_connected env k1) c then (remaining, timedOut, c)
        else let toRead = (if remaining < kStreamChunkSize then remaining else kStreamChunkSize);
                 buf = take (nat toRead) rest; got = int (length buf)
        in if got \<le> 0 then (remaining, False, c)
           else case writeBody (le_result env k1) buf c of (ret, c1) \<Rightarrow>
             if ret < 0 \<or> \<not> writerConnected (le_connected env (k1 + 1)) c1 then (remaining, False, c1)
             else send_chunks env (k1 + 2) (drop (nat toRead) rest) (remaining - got) (got = toRead) c1)"
  by pat_completeness auto
termination by (relation "measure (\<lambda>(_, _, _, remaining, _). nat remaining)") (auto simp: Let_def)

declare send_chunks.simps [simp del]

text \<open>
  How a call of \<open>send\<close> ends: by returning, or by the exception that \<open>std::string\<close> throws when it is
  asked for a negative number of bytes.
\<close>

datatype send_end = SendDone | LengthError

definition zero_filled :: "int \<Rightarrow> string \<Rightarrow> string" where
  "zero_filled n s = take (nat n) s @ replicate (nat n - length s) (CHR 0x00)"

definition legacy_small ::
  "disk_file \<Rightarrow> transfer_params \<Rightarrow> transfer_stats \<Rightarrow> ctx \<Rightarrow> send_end \<times> bool list \<times> transfer_stats \<times> ctx" where
  "legacy_small file p st c =
     (let finish = (\<lambda>success c'. (SendDone, complete p success, recordEnd success st, c'))
      in if isRange p
         then case file of
                Some (content, True) \<Rightarrow>
                  if sendLen p < 0 then (LengthError, [], st, c)
                  else let body = take (nat (sendLen p)) (drop (nat (sendStart p)) content)
                       in if int (length body) = sendLen p
                          then finish True (setBody body (setHeader ''Content-Range'' (content_range p) (setStatus (status_code StPartialContent) c)))
                          else finish False (internal_error c)
              | _ \<Rightarrow> finish False (internal_error c)
         else finish True (setContentTypeByFilename (c_str (tp_displayName p))
                            (serveFile (Some (c_str (tp_physicalPath p))) c)))"

definition legacy_no_writer ::
  "disk_file \<Rightarrow> transfer_params \<Rightarrow> transfer_stats \<Rightarrow> ctx \<Rightarrow> send_end \<times> bool list \<times> transfer_stats \<times> ctx" where
  "legacy_no_writer file p st c =
     (SendDone, complete p True, recordEnd True st,
      if isRange p
      then let got = (case file of Some (content, True) \<Rightarrow> drop (nat (sendStart p)) content | _ \<Rightarrow> [])
           in setStatus (status_code StPartialContent) (setBody (zero_filled (sendLen p) got) c)
      else setContentTypeByFilename (c_str (tp_displayName p)) (serveFile (Some (c_str (tp_physicalPath p))) c))"

definition legacy_large ::
  "legacy_env \<Rightarrow> disk_file \<Rightarrow> transfer_params \<Rightarrow> transfer_stats \<Rightarrow> ctx \<Rightarrow> send_end \<times> bool list \<times> transfer_stats \<times> ctx" where
  "legacy_large env file p st c =
     (let fail = (SendDone, complete p False, recordEnd False st, internal_error c)
      in case file of
           None \<Rightarrow> fail
         | Some (content, seekable) \<Rightarrow>
             if isRange p \<and> \<not> seekable then fail
             else let c1 = snd (endHeaders (le_result env 0) (Some ''Content-Length'') (sendLen p) (range_headers p c))
             in case send_chunks env 1 (drop (nat (sendStart p)) content) (sendLen p) True c1 of
                  (remaining, timedOut, c2) \<Rightarrow>
                    let c3 = snd (ctx_end (le_result env 0) c2); success = (remaining = 0 \<and> \<not> timedOut)
                    in (SendDone, complete p success, recordEnd success st, c3))"

definition legacy_send ::
  "legacy_env \<Rightarrow> disk_file \<Rightarrow> transfer_params \<Rightarrow> transfer_stats \<Rightarrow> ctx \<Rightarrow> send_end \<times> bool list \<times> transfer_stats \<times> ctx" where
  "legacy_send env file p st c =
     (let st1 = recordStart (sendLen p) st; c1 = download_headers p c
      in if sendLen p < kStreamThreshold then legacy_small file p st1 c1
         else if \<not> cx_writer c1 then legacy_no_writer file p st1 c1
         else legacy_large env file p st1 c1)"

subsection \<open>Properties of the legacy transfer\<close>

lemma bp_wait_ok: "writeBufsize (le_bufsize env k) c \<le> kBackpressureThreshold \<Longrightarrow> bp_wait env k ms c = (False, k + 2)"
  by (subst bp_wait.simps) simp

lemma writeBody_on: "cx_writer c \<Longrightarrow> writeBody r d c = (r (WriteBody d), c\<lparr>cx_writes := cx_writes c @ [WriteBody d]\<rparr>)"
  by (simp add: writeBody_def writer_call_def)

definition blocks_ok :: "string list \<Rightarrow> bool" where
  "blocks_ok bs \<longleftrightarrow> (\<forall>b\<in>set bs. b \<noteq> [] \<and> int (length b) \<le> kStreamChunkSize)"

lemma take_prefix: "\<exists>tail. xs = take n xs @ tail"
  by (metis append_take_drop_id)

lemma send_chunks_spec:
  assumes "send_chunks env k rest remaining good c = (left, timedOut, c')" "cx_writer c"
  shows "\<exists>bs. c' = c\<lparr>cx_writes := cx_writes c @ map WriteBody bs\<rparr> \<and> blocks_ok bs \<and>
    (\<exists>tail. rest = concat bs @ tail) \<and> int (length (concat bs)) \<le> max 0 remaining \<and>
    (0 \<le> remaining \<longrightarrow> 0 \<le> left) \<and> (left = 0 \<and> 0 \<le> remaining \<longrightarrow> int (length (concat bs)) = remaining)"
  using assms
proof (induction env k rest remaining good c arbitrary: left timedOut c' rule: send_chunks.induct)
  case (1 env k rest remaining good c)
  let ?n = "if remaining < kStreamChunkSize then remaining else kStreamChunkSize"
  let ?buf = "take (nat ?n) rest"
  let ?k1 = "snd (bp_wait env k 0 c)"
  let ?c1 = "c\<lparr>cx_writes := cx_writes c @ [WriteBody ?buf]\<rparr>"
  have none: ?case if "c' = c" "left = remaining"
    using that by (intro exI [of _ "[]"]) (auto simp: blocks_ok_def)
  show ?case
  proof (cases "(0 < remaining \<and> good) \<and> \<not> fst (bp_wait env k 0 c) \<and> writerConnected (le_connected env ?k1) c \<and> ?buf \<noteq> []")
    case False
    with "1.prems"(1) have "c' = c" "left = remaining"
      by (auto simp: send_chunks.simps [of env k] Let_def split: prod.splits if_splits)
    then show ?thesis by (rule none)
  next
    case True
    obtain k1 where w: "bp_wait env k 0 c = (False, k1)" using True by (cases "bp_wait env k 0 c") auto
    have n: "0 < ?n" "?n \<le> remaining" "?n \<le> kStreamChunkSize" using True by (auto simp: kStreamChunkSize_def)
    have b: "0 < length ?buf" "int (length ?buf) \<le> ?n" using True n by auto
    have t: "rest = ?buf @ drop (nat ?n) rest" by simp
    show ?thesis
    proof (cases "le_result env k1 (WriteBody ?buf) < 0 \<or> \<not> writerConnected (le_connected env (k1 + 1)) ?c1")
      case stop: True
      have "c' = ?c1" "left = remaining"
        using "1.prems" True w stop by (auto simp: send_chunks.simps [of env k] Let_def writeBody_on split: if_splits)
      then show ?thesis using True n b by (intro exI [of _ "[?buf]"]) (auto simp: blocks_ok_def take_prefix)
    next
      case go: False
      have r: "send_chunks env (k1 + 2) (drop (nat ?n) rest) (remaining - int (length ?buf)) (int (length ?buf) = ?n) ?c1
          = (left, timedOut, c')"
        using "1.prems" True w go by (auto simp: send_chunks.simps [of env k] Let_def writeBody_on split: if_splits)
      have "\<exists>bs. c' = ?c1\<lparr>cx_writes := cx_writes ?c1 @ map WriteBody bs\<rparr> \<and> blocks_ok bs \<and>
          (\<exists>tail. drop (nat ?n) rest = concat bs @ tail) \<and>
          int (length (concat bs)) \<le> max 0 (remaining - int (length ?buf)) \<and>
          (0 \<le> remaining - int (length ?buf) \<longrightarrow> 0 \<le> left) \<and>
          (left = 0 \<and> 0 \<le> remaining - int (length ?buf) \<longrightarrow> int (length (concat bs)) = remaining - int (length ?buf))"
        using "1.IH" [OF _ w [symmetric] _ refl refl refl _ _ _ r] True w go b "1.prems"(2) writeBody_on [OF "1.prems"(2)] by auto
      then obtain bs tail where bs: "c' = ?c1\<lparr>cx_writes := cx_writes ?c1 @ map WriteBody bs\<rparr>" "blocks_ok bs"
          "drop (nat ?n) rest = concat bs @ tail" "int (length (concat bs)) \<le> max 0 (remaining - int (length ?buf))"
          "0 \<le> remaining - int (length ?buf) \<longrightarrow> 0 \<le> left"
          "left = 0 \<and> 0 \<le> remaining - int (length ?buf) \<longrightarrow> int (length (concat bs)) = remaining - int (length ?buf)"
        by blast
      have "rest = concat (?buf # bs) @ tail" using t bs(3) by simp
      then show ?thesis using bs b n True
        by (intro exI [of _ "?buf # bs"]) (auto simp: blocks_ok_def)
    qed
  qed
qed

text \<open>With a writer that takes everything and a file that is long enough nothing remains.\<close>

definition willing :: "legacy_env \<Rightarrow> bool" where
  "willing env \<longleftrightarrow> (\<forall>k. le_bufsize env k \<le> kBackpressureThreshold \<and> le_connected env k) \<and> (\<forall>k call. 0 \<le> le_result env k call)"

lemma send_chunks_all:
  "willing env \<Longrightarrow> cx_writer c \<Longrightarrow> 0 \<le> remaining \<Longrightarrow> remaining \<le> int (length rest) \<Longrightarrow> good \<Longrightarrow>
   \<exists>c'. send_chunks env k rest remaining good c = (0, False, c')"
proof (induction env k rest remaining good c rule: send_chunks.induct)
  case (1 env k rest remaining good c)
  let ?n = "if remaining < kStreamChunkSize then remaining else kStreamChunkSize"
  let ?buf = "take (nat ?n) rest"
  let ?c1 = "c\<lparr>cx_writes := cx_writes c @ [WriteBody ?buf]\<rparr>"
  have e: "le_bufsize env i \<le> kBackpressureThreshold" "le_connected env i" "\<not> le_result env i call < 0" for i call
    using "1.prems"(1) by (auto simp: willing_def not_less)
  have w: "bp_wait env k 0 c = (False, k + 2)"
    using e(1) by (intro bp_wait_ok) (auto simp: writeBufsize_def kBackpressureThreshold_def)
  show ?case
  proof (cases "remaining = 0")
    case True
    then show ?thesis by (subst send_chunks.simps) simp
  next
    case False
    then have n: "0 < ?n" "?n \<le> remaining" using "1.prems" by (auto simp: kStreamChunkSize_def)
    then have b: "int (length ?buf) = ?n" "?buf \<noteq> []" using "1.prems"(4) by (auto simp: kStreamChunkSize_def)
    have "\<exists>c'. send_chunks env (k + 2 + 2) (drop (nat ?n) rest) (remaining - int (length ?buf))
        (int (length ?buf) = ?n) ?c1 = (0, False, c')"
      using "1.IH" [OF _ w [symmetric] _ refl refl refl _ writeBody_on [OF "1.prems"(2), symmetric]] "1.prems" False e b n
      by (auto simp: writerConnected_def)
    then show ?thesis using False "1.prems" n b e w
      by (subst send_chunks.simps) (auto simp: Let_def writeBody_on writerConnected_def)
  qed
qed

definition ended :: "transfer_params \<Rightarrow> transfer_stats \<Rightarrow> send_end \<times> bool list \<times> transfer_stats \<times> ctx \<Rightarrow> bool" where
  "ended p st res \<longleftrightarrow>
     (\<exists>ok c. res = (SendDone, complete p ok, recordEnd ok st, c)) \<or>
     (isRange p \<and> sendLen p < 0 \<and> (\<exists>c. res = (LengthError, [], st, c)))"

lemma ended_done [intro]: "ended p st (SendDone, complete p ok, recordEnd ok st, c)"
  by (auto simp: ended_def)

lemma legacy_small_ended: "ended p st (legacy_small f p st c)"
proof (cases f)
  case None
  then show ?thesis by (auto simp: legacy_small_def Let_def)
next
  case (Some cs)
  then obtain content seekable where f: "f = Some (content, seekable)" by (cases cs) auto
  show ?thesis
  proof (cases "isRange p \<and> seekable \<and> sendLen p < 0")
    case True
    then show ?thesis by (auto simp: legacy_small_def f ended_def)
  next
    case False
    then show ?thesis by (auto simp: legacy_small_def f Let_def split: bool.splits)
  qed
qed

lemma legacy_no_writer_ended: "ended p st (legacy_no_writer f p st c)"
  unfolding legacy_no_writer_def by (rule ended_done)

lemma legacy_large_ended: "ended p st (legacy_large env f p st c)"
  by (auto simp: legacy_large_def Let_def split: option.splits prod.splits)

lemma legacy_send_ended: "ended p (recordStart (sendLen p) st) (legacy_send env f p st c)"
  by (simp add: legacy_send_def Let_def legacy_small_ended legacy_no_writer_ended legacy_large_ended)

text \<open>
  accounting. However a legacy transfer goes, it counts once with the bytes asked for; when \<open>send\<close>
  returns, the callback has had exactly one answer, the count of active transfers is what it was
  and an error is counted exactly for a negative answer. It returns unless a range ends before it
  starts and the file opens: then \<open>std::string\<close> throws, nobody is called back, and the transfer counts
  as active for ever.
\<close>

theorem legacy_accounting:
  assumes "legacy_send env f p st c = (r, answers, st', c')"
  shows "st_totalCount st' = st_totalCount st + 1 \<and> st_totalBytes st' = st_totalBytes st + word_of_int (sendLen p) \<and>
    (case r of
       SendDone \<Rightarrow> (\<exists>ok. answers = complete p ok \<and> st_activeCount st' = st_activeCount st \<and>
         st_errorCount st' = st_errorCount st + (if ok then 0 else 1))
     | LengthError \<Rightarrow> isRange p \<and> sendLen p < 0 \<and> answers = [] \<and> st_activeCount st' = st_activeCount st + 1)"
  using legacy_send_ended [of p st env f c] unfolding assms
  by (auto simp: ended_def recordStart_def recordEnd_def)

definition params0 :: transfer_params where
  "params0 = \<lparr>tp_physicalPath = ''/data/f'', tp_displayName = ''f.txt'', tp_fileSize = 5, tp_rangeStart = - 1,
     tp_rangeEnd = - 1, tp_onComplete = True\<rparr>"

definition stats0 :: transfer_stats where
  "stats0 = \<lparr>st_totalCount = 0, st_totalBytes = 0, st_activeCount = 0, st_errorCount = 0\<rparr>"

definition env0 :: legacy_env where
  "env0 = \<lparr>le_bufsize = \<lambda>_. 0, le_connected = \<lambda>_. True, le_result = \<lambda>_ _. 0\<rparr>"

definition ctx0 :: "bool \<Rightarrow> ctx" where
  "ctx0 writer = ctx_new sreq0 200 writer"

lemma legacy_accounting_witness:
  "\<exists>st' c'. legacy_send env0 (Some (''hello'', True)) (params0\<lparr>tp_rangeStart := 4, tp_rangeEnd := 1\<rparr>) stats0 (ctx0 True) =
     (LengthError, [], st', c') \<and> st_activeCount st' = 1"
proof -
  let ?p = "params0\<lparr>tp_rangeStart := 4, tp_rangeEnd := 1\<rparr>"
  let ?r = "legacy_send env0 (Some (''hello'', True)) ?p stats0 (ctx0 True)"
  have l: "fst ?r = LengthError" "fst (snd ?r) = []"
    by (simp_all add: legacy_send_def legacy_small_def sendLen_def isRange_def params0_def kStreamThreshold_def)
  obtain st' c' where r: "?r = (LengthError, [], st', c')" using l by (cases ?r) auto
  from legacy_accounting [OF r] have "st_activeCount st' = 1" by (simp add: stats0_def)
  with r show ?thesis by blast
qed

text \<open>The headers touch neither the writer nor what was written.\<close>

lemma header_ops_writer [simp]:
  "cx_writer (download_headers p c) = cx_writer c" "cx_writes (download_headers p c) = cx_writes c"
  "cx_writer (range_headers p c) = cx_writer c" "cx_writes (range_headers p c) = cx_writes c"
  by (simp_all add: download_headers_def range_headers_def setContentTypeByFilename_def ctx_op_defs)

text \<open>
  C18: what a large legacy transfer sends. Behind the announced length come blocks of at most 256 KB,
  none empty, that are together a prefix of the requested part of the file, then one end; nothing
  else is written. A positive answer means that all announced bytes were written; and with a
  willing writer and a file that has them, the answer is positive.
\<close>

theorem legacy_stream_exact:
  assumes "legacy_send env (Some (content, True)) p st c = (r, answers, st', c')"
    and "kStreamThreshold \<le> sendLen p" and "cx_writer c" and "0 \<le> sendStart p"
  shows "\<exists>bs ok. cx_writes c' = cx_writes c @ [EndHeaders (Some ''Content-Length'') (sendLen p)] @ map WriteBody bs @ [WriterEnd] \<and>
    blocks_ok bs \<and> (\<exists>tail. drop (nat (sendStart p)) content = concat bs @ tail) \<and>
    int (length (concat bs)) \<le> sendLen p \<and> r = SendDone \<and> answers = complete p ok \<and>
    (ok \<longrightarrow> int (length (concat bs)) = sendLen p) \<and>
    (willing env \<and> sendStart p + sendLen p \<le> int (length content) \<longrightarrow> ok)"
proof -
  let ?rest = "drop (nat (sendStart p)) content"
  let ?c1 = "snd (endHeaders (le_result env 0) (Some ''Content-Length'') (sendLen p) (range_headers p (download_headers p c)))"
  obtain left timedOut c2 where sc: "send_chunks env 1 ?rest (sendLen p) True ?c1 = (left, timedOut, c2)"
    by (metis prod_cases3)
  have len: "0 \<le> sendLen p" using assms(2) by (simp add: kStreamThreshold_def)
  have w1: "cx_writer ?c1"
      "cx_writes ?c1 = cx_writes c @ [EndHeaders (Some ''Content-Length'') (sendLen p)]"
    using assms(3) by (simp_all add: endHeaders_def writer_call_def)
  have res: "(r, answers, c') = (SendDone, complete p (left = 0 \<and> \<not> timedOut), snd (ctx_end (le_result env 0) c2))"
    using assms(1-3) sc by (simp add: legacy_send_def legacy_large_def Let_def)
  from send_chunks_spec [OF sc w1(1)] len obtain bs where
    bs: "c2 = ?c1\<lparr>cx_writes := cx_writes ?c1 @ map WriteBody bs\<rparr>" "blocks_ok bs"
      "\<exists>tail. ?rest = concat bs @ tail" "int (length (concat bs)) \<le> sendLen p"
      "left = 0 \<longrightarrow> int (length (concat bs)) = sendLen p"
    by auto
  have out: "cx_writes (snd (ctx_end (le_result env 0) c2)) =
      cx_writes c @ [EndHeaders (Some ''Content-Length'') (sendLen p)] @ map WriteBody bs @ [WriterEnd]"
    using w1 by (simp add: bs(1) ctx_end_def writer_call_def)
  have "left = 0 \<and> \<not> timedOut" if "willing env" "sendStart p + sendLen p \<le> int (length content)"
    using send_chunks_all [OF that(1) w1(1) len, of ?rest True 1] that(2) assms(4) sc len by auto
  with res out bs(2-5) show ?thesis by (intro exI [of _ bs] exI [of _ "left = 0 \<and> \<not> timedOut"]) simp
qed

lemma legacy_stream_exact_witness:
  "\<exists>bs. cx_writes (snd (snd (snd (legacy_send env0 (Some (''hello'', True)) (params0\<lparr>tp_fileSize := 5000000\<rparr>) stats0 (ctx0 True))))) =
     [EndHeaders (Some ''Content-Length'') 5000000] @ map WriteBody bs @ [WriterEnd] \<and> length (concat bs) \<le> 5"
proof -
  let ?p = "params0\<lparr>tp_fileSize := 5000000\<rparr>"
  have p: "sendLen ?p = 5000000" "sendStart ?p = 0"
    by (simp_all add: sendLen_def sendStart_def isRange_def params0_def)
  obtain r a st' c' where r: "legacy_send env0 (Some (''hello'', True)) ?p stats0 (ctx0 True) = (r, a, st', c')"
    by (metis prod_cases4)
  from legacy_stream_exact [OF r] p obtain bs tail where bs: "cx_writes c' = cx_writes (ctx0 True) @
      [EndHeaders (Some ''Content-Length'') 5000000] @ map WriteBody bs @ [WriterEnd]" "''hello'' = concat bs @ tail"
    by (auto simp: ctx0_def ctx_new_def kStreamThreshold_def)
  have "length (concat bs @ tail) = 5" unfolding bs(2) [symmetric] by simp
  then have "length (concat bs) \<le> 5" unfolding length_append by linarith
  with bs(1) r show ?thesis by (auto simp: ctx0_def ctx_new_def)
qed

text \<open>
  a range made up. Without a writer a large range is always answered with status 206, the asked
  number of bytes and a positive answer, whether or not the file opens or has these bytes: what is
  missing is filled with zero bytes. (The small path answers with an error then.)
\<close>

theorem legacy_range_made_up:
  assumes "isRange p" and "kStreamThreshold \<le> sendLen p" and "\<not> cx_writer c"
    and "legacy_send env f p st c = (r, answers, st', c')"
  shows "cx_status c' = 206 \<and> int (length (cx_body c')) = sendLen p \<and> answers = complete p True \<and>
    (f = None \<longrightarrow> cx_body c' = replicate (nat (sendLen p)) (CHR 0x00))"
  using assms
  by (auto simp: legacy_send_def legacy_no_writer_def Let_def zero_filled_def setStatus_def setBody_def kStreamThreshold_def)

lemma legacy_range_made_up_witness:
  "cx_body (snd (snd (snd (legacy_send env0 None (params0\<lparr>tp_rangeStart := 0, tp_rangeEnd := 4999999\<rparr>) stats0 (ctx0 False))))) =
     replicate 5000000 (CHR 0x00)"
proof -
  let ?p = "params0\<lparr>tp_rangeStart := 0, tp_rangeEnd := 4999999\<rparr>"
  have p: "sendLen ?p = 5000000" "isRange ?p"
    by (simp_all add: sendLen_def isRange_def params0_def)
  obtain r a st' c' where r: "legacy_send env0 None ?p stats0 (ctx0 False) = (r, a, st', c')"
    by (metis prod_cases4)
  from legacy_range_made_up [OF p(2) _ _ r] p(1) r show ?thesis
    by (simp add: ctx0_def ctx_new_def kStreamThreshold_def)
qed

text \<open>The name in \<open>Content-Disposition\<close> cannot leave its quotes.\<close>

lemma safe_filename_chars:
  "ch \<in> set (safeFilenameForHeader name) \<Longrightarrow> 32 \<le> code_of ch \<and> code_of ch < 127 \<and> ch \<noteq> quote \<and> ch \<noteq> backslash"
  by (auto simp: safeFilenameForHeader_def quote_def backslash_def code_of_def split: if_splits)

subsection \<open>The stream transfer\<close>

text \<open>
  \<open>TransferState\<close> and the writer it drives. \<open>ts_rest\<close>: the file from the current position on;
  \<open>ts_onwrite\<close>: whether the writer's callback is still \<open>pump\<close>; \<open>ts_writes\<close>: what the writer was told;
  \<open>ts_answers\<close>: what the completion callback got; \<open>ts_depth\<close>: the deepest nesting of \<open>pump\<close> in itself
  so far, each level with its own 256 KB buffer on the stack.
\<close>

definition kChunkSize :: int where "kChunkSize = 256 * 1024"

record transfer_state =
  ts_rest :: string
  ts_remaining :: int
  ts_onwrite :: bool
  ts_finished :: bool
  ts_params :: transfer_params
  ts_writes :: "writer_call list"
  ts_answers :: "bool list"
  ts_stats :: transfer_stats
  ts_depth :: nat

text \<open>
  One invocation of \<open>pump\<close> as the outside sees it: whether the writer is connected, whether its
  buffer is drained, what \<open>WriteBody\<close> returns, and whether \<open>WriteBody\<close> calls \<open>onwrite\<close> before it
  returns. Nested invocations take their entries from the same list.
\<close>

record pump_env =
  pe_connected :: bool
  pe_drained :: bool
  pe_ret :: int
  pe_reenters :: bool

definition ts_finish :: "bool \<Rightarrow> transfer_state \<Rightarrow> transfer_state" where
  "ts_finish success s =
     (if ts_finished s then s
      else s\<lparr>ts_finished := True, ts_onwrite := False, ts_stats := recordEnd success (ts_stats s),
             ts_answers := ts_answers s @ complete (ts_params s) success\<rparr>)"

text \<open>The block that is read and taken off the count before it is written.\<close>

definition next_block :: "transfer_state \<Rightarrow> string" where
  "next_block s = take (nat (if ts_remaining s < kChunkSize then ts_remaining s else kChunkSize)) (ts_rest s)"

definition take_block :: "transfer_state \<Rightarrow> transfer_state" where
  "take_block s =
     (let buf = next_block s; left = ts_remaining s - int (length buf)
      in s\<lparr>ts_rest := drop (length buf) (ts_rest s), ts_remaining := left,
           ts_onwrite := (if left \<le> 0 then False else ts_onwrite s), ts_writes := ts_writes s @ [WriteBody buf]\<rparr>)"

fun pump :: "nat \<Rightarrow> pump_env list \<Rightarrow> transfer_state \<Rightarrow> pump_env list \<times> transfer_state" where
  "pump depth [] s = ([], s)"
| "pump depth (e # es) s0 =
     (let s = s0\<lparr>ts_depth := max depth (ts_depth s0)\<rparr>
      in if ts_finished s then (es, s)
         else if \<not> pe_connected e then (es, ts_finish False s)
         else if \<not> pe_drained e then (es, s)
         else if next_block s = [] then (es, ts_finish False s)
         else let s1 = take_block s
         in case (if pe_reenters e \<and> ts_onwrite s1 then pump (depth + 1) es s1 else (es, s1)) of (es', s2) \<Rightarrow>
              if pe_ret e < 0 then (es', ts_finish False s2)
              else if ts_remaining s2 \<le> 0
              then (es', ts_finish True (s2\<lparr>ts_writes := ts_writes s2 @ [WriterEnd]\<rparr>))
              else (es', s2))"

declare pump.simps [simp del]

lemma pump_length: "length (fst (pump d es s)) \<le> length es \<and> (es \<noteq> [] \<longrightarrow> length (fst (pump d es s)) < length es)"
proof (induction d es s rule: pump.induct)
  case (2 d e es s0)
  let ?s1 = "take_block (s0\<lparr>ts_depth := max d (ts_depth s0)\<rparr>)"
  have "length (fst (if pe_reenters e \<and> ts_onwrite ?s1 then pump (d + 1) es ?s1 else (es, ?s1))) \<le> length es"
    if "\<not> ts_finished s0" "pe_connected e" "pe_drained e" "next_block (s0\<lparr>ts_depth := max d (ts_depth s0)\<rparr>) \<noteq> []"
    using 2 that by auto
  then show ?case by (auto simp: pump.simps(2) [of d e es s0] Let_def split: prod.splits)
qed (simp add: pump.simps)

text \<open>The event loop: as long as the callback is installed, each write event calls \<open>pump\<close>.\<close>

function stream_run :: "pump_env list \<Rightarrow> transfer_state \<Rightarrow> transfer_state" where
  "stream_run es s = (if es = [] \<or> \<not> ts_onwrite s then s else stream_run (fst (pump 1 es s)) (snd (pump 1 es s)))"
  by pat_completeness auto
termination by (relation "measure (\<lambda>(es, _). length es)") (use pump_length in \<open>auto simp: case_prod_beta\<close>)

declare stream_run.simps [simp del]

lemma stream_run_Nil [simp]: "stream_run [] s = s"
  by (simp add: stream_run.simps)

lemma stream_run_Cons:
  "stream_run (e # es) s = (if ts_onwrite s then case pump 1 (e # es) s of (es', s') \<Rightarrow> stream_run es' s' else s)"
  by (subst stream_run.simps) (simp add: case_prod_beta)

text \<open>The destructor, when the connection gives the callback up.\<close>

definition ts_destroy :: "transfer_state \<Rightarrow> transfer_state" where
  "ts_destroy s =
     (if ts_finished s then s
      else s\<lparr>ts_stats := recordEnd False (ts_stats s), ts_answers := ts_answers s @ complete (ts_params s) False\<rparr>)"

text \<open>
  \<open>send\<close>. The last argument are the write events that \<open>endHeaders\<close> causes before it returns. What the
  context writes and what the transfer writes go to the same writer: the trace of the latter starts
  where \<open>send\<close> leaves the context.
\<close>

definition stream_send ::
  "(writer_call \<Rightarrow> int) \<Rightarrow> disk_file \<Rightarrow> transfer_params \<Rightarrow> transfer_stats \<Rightarrow> ctx \<Rightarrow> pump_env list \<Rightarrow>
   transfer_state option \<times> bool list \<times> transfer_stats \<times> ctx" where
  "stream_send result file p st c es =
     (let fail = (None, complete p False, st, internal_error c)
      in if \<not> cx_writer c then fail
         else case file of
                None \<Rightarrow> fail
              | Some (content, seekable) \<Rightarrow>
                  if isRange p \<and> \<not> seekable then fail
                  else let c1 = range_headers p (download_headers p c);
                           c2 = snd (endHeaders result (Some ''Content-Length'') (sendLen p) c1);
                           s = stream_run es \<lparr>ts_rest = drop (nat (sendStart p)) content, ts_remaining = sendLen p,
                                ts_onwrite = True, ts_finished = False, ts_params = p, ts_writes = [], ts_answers = [],
                                ts_stats = recordStart (sendLen p) st, ts_depth = 0\<rparr>
                  in if sendLen p = 0
                     then let s1 = ts_finish True (s\<lparr>ts_writes := ts_writes s @ [WriterEnd]\<rparr>)
                          in (Some s1, ts_answers s1, ts_stats s1, c2)
                     else (Some s, ts_answers s, ts_stats s, markStreamingHandoff c2))"

subsection \<open>The accelerated transfer and the factory\<close>

definition last_component :: "string \<Rightarrow> string" where
  "last_component path = (case find_last (\<lambda>c. c = CHR ''/'') path of Some pos \<Rightarrow> drop (pos + 1) path | None \<Rightarrow> path)"

definition accel_send ::
  "string \<Rightarrow> transfer_params \<Rightarrow> transfer_stats \<Rightarrow> ctx \<Rightarrow> bool list \<times> transfer_stats \<times> ctx" where
  "accel_send pre p st c =
     (complete p True, recordEnd True (recordStart (sendLen p) st),
      setBody [] (setStatus (status_code StOk) (setHeader ''Content-Disposition'' (disposition p)
        (setContentTypeByFilename (c_str (tp_displayName p))
          (setHeader ''X-Accel-Redirect'' (pre @ last_component (tp_physicalPath p)) c)))))"

datatype transfer_mode = LegacyMode | AccelMode string | StreamMode

definition transfer_create :: "string \<Rightarrow> string \<Rightarrow> transfer_mode option" where
  "transfer_create mode accelPrefix =
     (let lower = to_lower mode
      in if lower = ''legacy'' then Some LegacyMode
         else if lower = ''accel'' then Some (AccelMode accelPrefix)
         else if lower = ''stream'' \<or> lower = ''auto'' \<or> lower = [] then Some StreamMode
         else None)"

subsection \<open>Properties of the stream transfer\<close>

text \<open>
  The state against the \<open>n\<close> bytes of \<open>part\<close> that were asked for and the statistics \<open>st\<close> after the
  start: blocks and then ends were written, the blocks are the part's beginning, and a finished
  transfer has answered once.
\<close>

definition stream_trace :: "string \<Rightarrow> int \<Rightarrow> transfer_state \<Rightarrow> string list \<Rightarrow> nat \<Rightarrow> bool" where
  "stream_trace part n s bs k \<longleftrightarrow>
     ts_writes s = map WriteBody bs @ replicate k WriterEnd \<and> part = concat bs @ ts_rest s \<and>
     ts_remaining s = n - int (length (concat bs)) \<and> 0 \<le> ts_remaining s \<and> (0 < k \<longrightarrow> ts_remaining s = 0)"

definition stream_answered :: "transfer_params \<Rightarrow> transfer_stats \<Rightarrow> transfer_state \<Rightarrow> nat \<Rightarrow> bool" where
  "stream_answered p st s k \<longleftrightarrow>
     (if ts_finished s
      then \<exists>ok. ts_answers s = complete p ok \<and> ts_stats s = recordEnd ok st \<and> (ok \<longrightarrow> 0 < k)
      else ts_answers s = [] \<and> ts_stats s = st \<and> k = 0)"

definition stream_inv :: "string \<Rightarrow> int \<Rightarrow> transfer_params \<Rightarrow> transfer_stats \<Rightarrow> transfer_state \<Rightarrow> bool" where
  "stream_inv part n p st s \<longleftrightarrow>
     ts_params s = p \<and> (\<exists>bs k. stream_trace part n s bs k \<and> stream_answered p st s k)"

lemma inv_depth [simp]: "stream_inv part n p st (s\<lparr>ts_depth := d\<rparr>) = stream_inv part n p st s"
  by (simp add: stream_inv_def stream_trace_def stream_answered_def)

lemma finish_simps [simp]:
  "stream_trace part n (ts_finish b s) bs k = stream_trace part n s bs k"
  "ts_params (ts_finish b s) = ts_params s"
  by (simp_all add: stream_trace_def ts_finish_def)

lemma answered_finish:
  "stream_answered p st s k \<Longrightarrow> ts_params s = p \<Longrightarrow> (b \<Longrightarrow> 0 < k') \<Longrightarrow> k \<le> k' \<Longrightarrow> stream_answered p st (ts_finish b s) k'"
  unfolding stream_answered_def ts_finish_def by (cases "ts_finished s") (fastforce, auto)

lemma inv_fail: "stream_inv part n p st s \<Longrightarrow> stream_inv part n p st (ts_finish False s)"
  unfolding stream_inv_def using answered_finish [of p st s _ False] by fastforce

lemma inv_end:
  assumes "stream_inv part n p st s" "ts_remaining s \<le> 0"
  shows "stream_inv part n p st (ts_finish True (s\<lparr>ts_writes := ts_writes s @ [WriterEnd]\<rparr>))"
proof -
  from assms(1) obtain bs k where t: "ts_params s = p" "stream_trace part n s bs k" "stream_answered p st s k"
    by (auto simp: stream_inv_def)
  let ?s = "s\<lparr>ts_writes := ts_writes s @ [WriterEnd]\<rparr>"
  have "stream_trace part n ?s bs (Suc k)"
    using t(2) assms(2) by (simp add: stream_trace_def replicate_append_same)
  moreover have "stream_answered p st (ts_finish True ?s) (Suc k)"
    using answered_finish [of p st s k True "Suc k"] t(1,3) by (auto simp: stream_answered_def ts_finish_def)
  ultimately show ?thesis unfolding stream_inv_def using t(1) by auto
qed

lemma inv_block:
  assumes "stream_inv part n p st s" "\<not> ts_finished s" "next_block s \<noteq> []"
  shows "stream_inv part n p st (take_block s)"
proof -
  from assms(1,2) obtain bs where t: "ts_params s = p" "stream_trace part n s bs 0" "stream_answered p st s 0"
    by (auto simp: stream_inv_def stream_answered_def)
  let ?buf = "next_block s"
  have r: "0 < ts_remaining s" using assms(3) t(2) by (auto simp: next_block_def stream_trace_def split: if_splits)
  have l: "int (length ?buf) \<le> ts_remaining s" using r by (auto simp: next_block_def kChunkSize_def)
  have d: "ts_rest s = ?buf @ drop (length ?buf) (ts_rest s)"
    unfolding next_block_def by (metis append_eq_conv_conj append_take_drop_id)
  have "stream_trace part n (take_block s) (bs @ [?buf]) 0"
    using t(2) l d by (simp add: stream_trace_def take_block_def Let_def)
  moreover have "stream_answered p st (take_block s) 0"
    using t(3) assms(2) by (simp add: stream_answered_def take_block_def Let_def)
  moreover have "ts_params (take_block s) = p" using t(1) by (simp add: take_block_def Let_def)
  ultimately show ?thesis unfolding stream_inv_def by blast
qed

lemma inv_pump: "stream_inv part n p st s \<Longrightarrow> stream_inv part n p st (snd (pump d es s))"
proof (induction d es s rule: pump.induct)
  case (1 d s)
  then show ?case by (simp add: pump.simps)
next
  case (2 d e es s0)
  let ?s = "s0\<lparr>ts_depth := max d (ts_depth s0)\<rparr>"
  let ?s1 = "take_block ?s"
  let ?r = "if pe_reenters e \<and> ts_onwrite ?s1 then pump (d + 1) es ?s1 else (es, ?s1)"
  have i: "stream_inv part n p st ?s" using "2.prems" by simp
  show ?case
  proof (cases "\<not> ts_finished ?s \<and> pe_connected e \<and> pe_drained e \<and> next_block ?s \<noteq> []")
    case False
    then show ?thesis using i inv_fail [OF i] by (auto simp: pump.simps(2) [of d e es s0] Let_def)
  next
    case True
    then have "stream_inv part n p st ?s1" using inv_block i by blast
    then have "stream_inv part n p st (snd ?r)" using "2.IH" True by auto
    then show ?thesis using True inv_fail inv_end
      by (cases ?r) (auto simp: pump.simps(2) [of d e es s0] Let_def)
  qed
qed

lemma stream_inv_run: "stream_inv part n p st s \<Longrightarrow> stream_inv part n p st (stream_run es s)"
proof (induction es s rule: stream_run.induct)
  case (1 es s)
  then show ?case using inv_pump by (subst stream_run.simps) auto
qed

definition stream_start :: "string \<Rightarrow> transfer_params \<Rightarrow> transfer_stats \<Rightarrow> transfer_state" where
  "stream_start content p st = \<lparr>ts_rest = drop (nat (sendStart p)) content, ts_remaining = sendLen p,
     ts_onwrite = True, ts_finished = False, ts_params = p, ts_writes = [], ts_answers = [],
     ts_stats = recordStart (sendLen p) st, ts_depth = 0\<rparr>"

lemma inv_start:
  "0 \<le> sendLen p \<Longrightarrow>
   stream_inv (drop (nat (sendStart p)) content) (sendLen p) p (recordStart (sendLen p) st) (stream_start content p st)"
  unfolding stream_inv_def stream_start_def
  by (auto simp: stream_trace_def stream_answered_def intro!: exI [of _ "[]"] exI [of _ "0::nat"])

lemma stream_send_state:
  assumes "stream_send result (Some (content, seekable)) p st c es = (Some s, answers, st', c')"
  shows "s = (if sendLen p = 0
      then ts_finish True ((stream_run es (stream_start content p st))\<lparr>ts_writes :=
             ts_writes (stream_run es (stream_start content p st)) @ [WriterEnd]\<rparr>)
      else stream_run es (stream_start content p st)) \<and> answers = ts_answers s"
  using assms by (auto simp: stream_send_def stream_start_def Let_def split: if_splits)

lemma stream_send_inv:
  assumes "stream_send result (Some (content, seekable)) p st c es0 = (Some s0, answers, st0, c')" and "0 \<le> sendLen p"
  shows "stream_inv (drop (nat (sendStart p)) content) (sendLen p) p (recordStart (sendLen p) st) s0"
proof -
  let ?inv = "stream_inv (drop (nat (sendStart p)) content) (sendLen p) p (recordStart (sendLen p) st)"
  let ?s = "stream_run es0 (stream_start content p st)"
  have i: "?inv ?s" using stream_inv_run inv_start assms(2) by blast
  show ?thesis
  proof (cases "sendLen p = 0")
    case True
    from i have "ts_remaining ?s \<le> 0" using True by (auto simp: stream_inv_def stream_trace_def)
    with inv_end [OF i this] stream_send_state [OF assms(1)] True show ?thesis by simp
  qed (use i stream_send_state [OF assms(1)] in simp)
qed

text \<open>
  C2: what a stream transfer sends. Whatever write events come, nested or not, the writer is given
  blocks that are together a prefix of the requested part of the file and never more than was
  asked for, and then only ends, and an end only behind the whole part; over its lifetime the
  transfer answers exactly once and leaves the statistics balanced; a positive answer means that the
  whole part was written and ended.
\<close>

theorem stream_delivers:
  assumes "stream_send result (Some (content, seekable)) p st c es0 = (Some s0, answers, st0, c')"
    and "s = stream_run es s0" and "0 \<le> sendLen p"
  shows "\<exists>bs k ok. ts_writes s = map WriteBody bs @ replicate k WriterEnd \<and>
    (\<exists>tail. drop (nat (sendStart p)) content = concat bs @ tail) \<and> int (length (concat bs)) \<le> sendLen p \<and>
    (0 < k \<longrightarrow> int (length (concat bs)) = sendLen p) \<and>
    ts_answers (ts_destroy s) = complete p ok \<and> ts_stats (ts_destroy s) = recordEnd ok (recordStart (sendLen p) st) \<and>
    (ok \<longrightarrow> 0 < k)"
proof -
  let ?inv = "stream_inv (drop (nat (sendStart p)) content) (sendLen p) p (recordStart (sendLen p) st)"
  have "?inv s0" using stream_send_inv [OF assms(1,3)] .
  then have "?inv s" unfolding assms(2) by (rule stream_inv_run)
  then obtain bs k where t: "ts_params s = p" "stream_trace (drop (nat (sendStart p)) content) (sendLen p) s bs k"
      "stream_answered p (recordStart (sendLen p) st) s k"
    by (auto simp: stream_inv_def)
  have "\<exists>ok. ts_answers (ts_destroy s) = complete p ok \<and>
      ts_stats (ts_destroy s) = recordEnd ok (recordStart (sendLen p) st) \<and> (ok \<longrightarrow> 0 < k)" (is "\<exists>ok. ?a ok")
  proof (cases "ts_finished s")
    case True
    then show ?thesis using t(3) by (simp add: stream_answered_def ts_destroy_def)
  next
    case False
    then show ?thesis using t(1,3) by (intro exI [of _ False]) (simp add: stream_answered_def ts_destroy_def)
  qed
  then obtain ok where "?a ok" ..
  then show ?thesis using t(2) unfolding stream_trace_def by (intro exI [of _ bs] exI [of _ k] exI [of _ ok]) auto
qed

definition willing_event :: "bool \<Rightarrow> pump_env" where
  "willing_event reenters = \<lparr>pe_connected = True, pe_drained = True, pe_ret = 0, pe_reenters = reenters\<rparr>"

lemma stream_delivers_witness:
  "\<exists>s0 c' ok. stream_send (\<lambda>_. 0) (Some (''hello'', True)) params0 stats0 (ctx0 True) [] = (Some s0, [], recordStart 5 stats0, c') \<and>
     ts_answers (ts_destroy (stream_run [willing_event False] s0)) = complete params0 ok \<and> ok"
proof -
  let ?s0 = "stream_start ''hello'' params0 stats0"
  have p: "sendLen params0 = 5" "sendStart params0 = 0" "\<not> isRange params0"
    by (simp_all add: sendLen_def sendStart_def isRange_def params0_def)
  obtain c' where r: "stream_send (\<lambda>_. 0) (Some (''hello'', True)) params0 stats0 (ctx0 True) [] =
      (Some ?s0, [], recordStart 5 stats0, c')"
    by (simp add: stream_send_def stream_start_def p ctx0_def ctx_new_def)
  let ?s = "stream_run [willing_event False] ?s0"
  have s: "ts_finished ?s" "ts_answers ?s = [True]"
    by code_simp+
  have "0 \<le> sendLen params0" by (simp add: p)
  from stream_delivers [OF r refl this, of "[willing_event False]"] obtain ok
    where "ts_answers (ts_destroy ?s) = complete params0 ok" by blast
  moreover have "ts_answers (ts_destroy ?s) = [True]" using s by (simp add: ts_destroy_def)
  ultimately have "ts_answers (ts_destroy ?s) = complete params0 ok \<and> ok" by (simp add: complete_def params0_def)
  with r show ?thesis by blast
qed

text \<open>
  Writes that complete at once. When \<open>WriteBody\<close> calls \<open>onwrite\<close> before it returns, \<open>pump\<close> runs inside
  \<open>pump\<close>, one level for each block.
\<close>

definition blocks_of :: "int \<Rightarrow> nat" where
  "blocks_of n = nat ((n + (kChunkSize - 1)) div kChunkSize)"

lemma blocks_of_last: "0 < n \<Longrightarrow> n \<le> kChunkSize \<Longrightarrow> blocks_of n = 1"
proof -
  assume n: "0 < n" "n \<le> kChunkSize"
  have "(n + (kChunkSize - 1)) div kChunkSize = (n - 1 + kChunkSize) div kChunkSize" by (simp add: algebra_simps)
  also have "\<dots> = (n - 1) div kChunkSize + 1" by (simp add: kChunkSize_def)
  also have "(n - 1) div kChunkSize = 0" using n by (intro div_pos_pos_trivial) auto
  finally show ?thesis by (simp add: blocks_of_def)
qed

lemma blocks_of_more: "kChunkSize < n \<Longrightarrow> blocks_of n = Suc (blocks_of (n - kChunkSize))"
proof -
  assume n: "kChunkSize < n"
  have "(n + (kChunkSize - 1)) div kChunkSize = (n - kChunkSize + (kChunkSize - 1)) div kChunkSize + 1"
    by (simp add: kChunkSize_def)
  moreover have "0 \<le> (n - kChunkSize + (kChunkSize - 1)) div kChunkSize"
    using n by (intro pos_imp_zdiv_nonneg_iff [THEN iffD2]) (auto simp: kChunkSize_def)
  ultimately show ?thesis by (simp add: blocks_of_def nat_add_distrib)
qed

lemma pump_nests:
  assumes "\<forall>e\<in>set es. e = willing_event True" "\<not> ts_finished s" "ts_onwrite s" "0 < ts_remaining s"
    "ts_remaining s \<le> int (length (ts_rest s))" "blocks_of (ts_remaining s) \<le> length es" "ts_depth s < d"
  shows "\<exists>es' s'. pump d es s = (es', s') \<and> ts_finished s' \<and> ts_remaining s' \<le> 0 \<and> \<not> ts_onwrite s' \<and>
    ts_answers s' = ts_answers s @ complete (ts_params s) True \<and>
    ts_depth s' + 1 = d + blocks_of (ts_remaining s) \<and>
    count_list (ts_writes s') WriterEnd = count_list (ts_writes s) WriterEnd + blocks_of (ts_remaining s)"
  using assms
proof (induction es arbitrary: d s)
  case Nil
  then have "ts_remaining s \<le> kChunkSize \<or> kChunkSize < ts_remaining s" by linarith
  then show ?case using Nil.prems(4,6) by (auto simp: blocks_of_last blocks_of_more)
next
  case (Cons e es)
  let ?r = "ts_remaining s"
  let ?s = "s\<lparr>ts_depth := max d (ts_depth s)\<rparr>"
  let ?n = "if ?r < kChunkSize then ?r else kChunkSize"
  have e: "e = willing_event True" using Cons.prems(1) by simp
  have n: "0 < ?n" "?n \<le> int (length (ts_rest s))" "?n \<le> ?r" using Cons.prems(4,5) by (auto simp: kChunkSize_def)
  have len: "int (length (next_block ?s)) = ?n" using n by (auto simp: next_block_def)
  then have ne: "next_block ?s \<noteq> []" using n(1) by auto
  let ?s1 = "take_block ?s"
  have s1: "ts_remaining ?s1 = ?r - ?n" "ts_finished ?s1 = False" "ts_params ?s1 = ts_params s"
      "ts_answers ?s1 = ts_answers s" "ts_depth ?s1 = d"
      "count_list (ts_writes ?s1) WriterEnd = count_list (ts_writes s) WriterEnd"
      "ts_onwrite ?s1 = (0 < ?r - ?n)" "int (length (ts_rest ?s1)) = int (length (ts_rest s)) - ?n"
    using Cons.prems len n by (simp_all add: take_block_def Let_def)
  show ?case
  proof (cases "?r \<le> kChunkSize")
    case True
    then have 0: "ts_remaining ?s1 = 0" "\<not> ts_onwrite ?s1" using s1 by auto
    have b: "blocks_of ?r = 1" using Cons.prems(4) True by (rule blocks_of_last)
    have "pump d (e # es) s = (es, ts_finish True (?s1\<lparr>ts_writes := ts_writes ?s1 @ [WriterEnd]\<rparr>))"
      using Cons.prems ne 0 by (simp add: pump.simps(2) Let_def e willing_event_def)
    then show ?thesis using s1 0 b by (simp add: ts_finish_def)
  next
    case False
    then have r: "ts_remaining ?s1 = ?r - kChunkSize" "ts_onwrite ?s1" using s1 by auto
    have b: "blocks_of ?r = Suc (blocks_of (?r - kChunkSize))" using False by (intro blocks_of_more) simp
    have "\<exists>es' s'. pump (d + 1) es ?s1 = (es', s') \<and> ts_finished s' \<and> ts_remaining s' \<le> 0 \<and> \<not> ts_onwrite s' \<and>
        ts_answers s' = ts_answers ?s1 @ complete (ts_params ?s1) True \<and>
        ts_depth s' + 1 = d + 1 + blocks_of (ts_remaining ?s1) \<and>
        count_list (ts_writes s') WriterEnd = count_list (ts_writes ?s1) WriterEnd + blocks_of (ts_remaining ?s1)"
      using Cons.prems False b r s1 by (intro Cons.IH) auto
    then obtain es' s' where p: "pump (d + 1) es ?s1 = (es', s')" "ts_finished s'" "ts_remaining s' \<le> 0" "\<not> ts_onwrite s'"
        "ts_answers s' = ts_answers ?s1 @ complete (ts_params ?s1) True"
        "ts_depth s' + 1 = d + 1 + blocks_of (ts_remaining ?s1)"
        "count_list (ts_writes s') WriterEnd = count_list (ts_writes ?s1) WriterEnd + blocks_of (ts_remaining ?s1)"
      by blast
    have "pump d (e # es) s = (es', ts_finish True (s'\<lparr>ts_writes := ts_writes s' @ [WriterEnd]\<rparr>))"
      using Cons.prems ne r p(1-3) by (simp add: pump.simps(2) Let_def e willing_event_def)
    then show ?thesis using p s1 b r by (simp add: ts_finish_def)
  qed
qed

text \<open>
  C27: the stack grows with the file. When every write completes at once, one write event drives the
  whole transfer: it succeeds, but \<open>pump\<close> is nested as deep as the part has blocks of 256 KB, each level
  with a buffer of that size on the stack, and the response is ended once on each level.
\<close>

theorem stream_recursion:
  assumes "stream_send result (Some (content, True)) p st c [] = (Some s0, answers, st0, c')"
    and "0 < sendLen p" and "0 \<le> sendStart p" and "sendStart p + sendLen p \<le> int (length content)"
    and "blocks_of (sendLen p) \<le> n" and "s = stream_run (replicate n (willing_event True)) s0"
  shows "ts_answers s = complete p True \<and> ts_depth s = blocks_of (sendLen p) \<and>
    count_list (ts_writes s) WriterEnd = blocks_of (sendLen p)"
proof -
  have s0: "s0 = stream_start content p st" using stream_send_state [OF assms(1)] assms(2) by simp
  let ?es = "replicate n (willing_event True)"
  have "\<exists>es' s'. pump 1 ?es s0 = (es', s') \<and> ts_finished s' \<and> ts_remaining s' \<le> 0 \<and> \<not> ts_onwrite s' \<and>
      ts_answers s' = ts_answers s0 @ complete (ts_params s0) True \<and> ts_depth s' + 1 = 1 + blocks_of (ts_remaining s0) \<and>
      count_list (ts_writes s') WriterEnd = count_list (ts_writes s0) WriterEnd + blocks_of (ts_remaining s0)"
    using assms(2-5) by (intro pump_nests) (auto simp: s0 stream_start_def)
  then obtain es' s' where p: "pump 1 ?es s0 = (es', s')" "\<not> ts_onwrite s'" "ts_answers s' = complete p True"
      "ts_depth s' = blocks_of (sendLen p)" "count_list (ts_writes s') WriterEnd = blocks_of (sendLen p)"
    by (auto simp: s0 stream_start_def)
  have "stream_run es' s' = s'" using p(2) by (subst stream_run.simps) simp
  moreover have "ts_onwrite s0" by (simp add: s0 stream_start_def)
  moreover have "?es \<noteq> []"
    using assms(2,5) blocks_of_last [of "sendLen p"] blocks_of_more [of "sendLen p"] by (cases "sendLen p \<le> kChunkSize") auto
  ultimately have "s = s'" unfolding assms(6) using p(1) by (subst stream_run.simps) simp
  with p show ?thesis by simp
qed

lemma stream_recursion_witness:
  "\<exists>s0 answers st0 c'. stream_send (\<lambda>_. 0) (Some (replicate 1000000 (CHR ''x''), True))
       (params0\<lparr>tp_fileSize := 1000000\<rparr>) stats0 (ctx0 True) [] = (Some s0, answers, st0, c') \<and>
     ts_depth (stream_run (replicate 4 (willing_event True)) s0) = 4"
proof -
  let ?p = "params0\<lparr>tp_fileSize := 1000000\<rparr>"
  let ?f = "replicate 1000000 (CHR ''x'')"
  have p: "sendLen ?p = 1000000" "sendStart ?p = 0" "\<not> isRange ?p"
    by (simp_all add: sendLen_def sendStart_def isRange_def params0_def)
  have b: "blocks_of 1000000 = 4" by (simp add: blocks_of_def kChunkSize_def)
  obtain s0 answers st0 c' where r: "stream_send (\<lambda>_. 0) (Some (?f, True)) ?p stats0 (ctx0 True) [] = (Some s0, answers, st0, c')"
    by (simp add: stream_send_def p ctx0_def ctx_new_def)
  have "ts_depth (stream_run (replicate 4 (willing_event True)) s0) = blocks_of (sendLen ?p)"
    using stream_recursion [OF r, of 4] p b by simp
  with r p b show ?thesis by (intro exI [of _ s0] exI [of _ answers] exI [of _ st0] exI [of _ c']) simp
qed

lemma run_empty:
  "ts_remaining s = 0 \<Longrightarrow> ts_onwrite s \<Longrightarrow> \<not> ts_finished s \<Longrightarrow>
   ts_finished (stream_run es s) = (\<exists>e\<in>set es. pe_connected e \<longrightarrow> pe_drained e) \<and>
   ts_answers (stream_run es s) = ts_answers s @ (if \<exists>e\<in>set es. pe_connected e \<longrightarrow> pe_drained e then complete (ts_params s) False else []) \<and>
   ts_params (stream_run es s) = ts_params s"
proof (induction es arbitrary: s)
  case (Cons e es)
  let ?s = "s\<lparr>ts_depth := max 1 (ts_depth s)\<rparr>"
  have nb: "next_block ?s = []" using Cons.prems by (simp add: next_block_def kChunkSize_def)
  show ?case
  proof (cases "pe_connected e \<longrightarrow> pe_drained e")
    case True
    have "pump 1 (e # es) s = (es, ts_finish False ?s)"
      using True Cons.prems nb by (auto simp: pump.simps(2) Let_def)
    moreover have "stream_run es (ts_finish False ?s) = ts_finish False ?s"
      using Cons.prems by (subst stream_run.simps) (simp add: ts_finish_def)
    ultimately have "stream_run (e # es) s = ts_finish False ?s"
      using Cons.prems by (simp add: stream_run_Cons)
    then show ?thesis using True Cons.prems by (simp add: ts_finish_def)
  next
    case False
    have "pump 1 (e # es) s = (es, ?s)" using False Cons.prems by (auto simp: pump.simps(2) Let_def)
    then have "stream_run (e # es) s = stream_run es ?s" using Cons.prems by (simp add: stream_run_Cons)
    then show ?thesis using Cons.IH [of ?s] Cons.prems False by simp
  qed
qed simp

text \<open>
  the empty file. The callback is installed before the header is written, so a write event that
  \<open>endHeaders\<close> causes reaches \<open>pump\<close>: it reads nothing and answers negatively, and the error is counted,
  although the empty file has been sent. The answer is positive exactly when each such event finds
  the writer connected and not drained yet.
\<close>

theorem stream_empty_file:
  assumes "sendLen p = 0"
    and "stream_send result (Some (content, seekable)) p st c es = (Some s, answers, st', c')"
  shows "answers = complete p (\<forall>e\<in>set es. pe_connected e \<and> \<not> pe_drained e)"
proof -
  let ?s = "stream_start content p st"
  have i: "ts_remaining ?s = 0" "ts_onwrite ?s" "\<not> ts_finished ?s" "ts_answers ?s = []" "ts_params ?s = p"
    using assms(1) by (simp_all add: stream_start_def)
  from stream_send_state [OF assms(2)] assms(1) have "answers = ts_answers (ts_finish True ((stream_run es ?s)\<lparr>ts_writes :=
      ts_writes (stream_run es ?s) @ [WriterEnd]\<rparr>))" by simp
  moreover have e: "(\<forall>e\<in>set es. pe_connected e \<and> \<not> pe_drained e) = (\<not> (\<exists>e\<in>set es. pe_connected e \<longrightarrow> pe_drained e))"
    by auto
  ultimately show ?thesis unfolding e using run_empty [OF i(1-3), of es] i(4,5)
    by (cases "\<exists>e\<in>set es. pe_connected e \<longrightarrow> pe_drained e") (simp_all add: ts_finish_def)
qed

lemma stream_empty_file_witness:
  "\<exists>s st' c'. stream_send (\<lambda>_. 0) (Some ([], True)) (params0\<lparr>tp_fileSize := 0\<rparr>) stats0 (ctx0 True) [willing_event False] =
     (Some s, [False], st', c')"
proof -
  let ?p = "params0\<lparr>tp_fileSize := 0\<rparr>"
  have p: "sendLen ?p = 0" "\<not> isRange ?p" by (simp_all add: sendLen_def isRange_def params0_def)
  obtain s a st' c' where r: "stream_send (\<lambda>_. 0) (Some ([], True)) ?p stats0 (ctx0 True) [willing_event False] = (Some s, a, st', c')"
    by (simp add: stream_send_def p ctx0_def ctx_new_def Let_def)
  from stream_empty_file [OF p(1) r] have "a = [False]" by (simp add: willing_event_def complete_def params0_def)
  with r show ?thesis by blast
qed

subsection \<open>Properties of the headers and of the accelerated transfer\<close>

lemma disposition_clean: "\<not> has_crlf (disposition p)"
  using safe_filename_chars [of "CHR 0x0D" "tp_displayName p"] safe_filename_chars [of "CHR 0x0A" "tp_displayName p"]
  by (auto simp: has_crlf_def disposition_def list_ex_iff is_crlf_def quote_def code_of_def)

lemma last_component_no_slash: "CHR ''/'' \<notin> set (last_component path)"
proof (cases "find_last (\<lambda>c. c = CHR ''/'') path")
  case None
  then have "last_component path = path" by (simp add: last_component_def)
  then show ?thesis using None by (auto simp: find_last_None)
next
  case (Some i)
  then have "last_component path = drop (Suc i) path" by (simp add: last_component_def)
  with find_last_Some [OF Some] show ?thesis by auto
qed

text \<open>
  what nginx is told. The accelerated transfer redirects to the prefix and the last component of
  the path, which has no slash, so no directory of the path can be reached through it; the download
  name cannot end its quotes or the header line, and is as long as the name given; the body is
  empty, the status 200, also for a range; and the callback gets its positive answer before \<open>send\<close>
  returns, before nginx has sent anything.
\<close>

theorem accel_redirect:
  assumes "accel_send pre p st c = (answers, st', c')" and "\<not> has_crlf (pre @ tp_physicalPath p)"
  shows "\<exists>x name. cx_calls c' = cx_calls c @ [SetHeader ''X-Accel-Redirect'' (pre @ x),
      SetContentTypeByFilename (c_str (tp_displayName p)),
      SetHeader ''Content-Disposition'' (''attachment; filename='' @ [quote] @ name @ [quote])] \<and>
    CHR ''/'' \<notin> set x \<and> (\<exists>dir. tp_physicalPath p = dir @ x) \<and> length name = length (tp_displayName p) \<and>
    quote \<notin> set name \<and> backslash \<notin> set name \<and> \<not> has_crlf name \<and>
    cx_status c' = 200 \<and> cx_body c' = [] \<and> answers = complete p True"
proof -
  let ?x = "last_component (tp_physicalPath p)"
  have d: "\<exists>dir. tp_physicalPath p = dir @ ?x"
    unfolding last_component_def by (auto split: option.splits intro: append_take_drop_id [symmetric])
  then obtain dir where "tp_physicalPath p = dir @ ?x" ..
  then have "\<not> has_crlf (pre @ dir @ ?x)" using assms(2) by simp
  then have "\<not> has_crlf (pre @ ?x)" by (simp add: has_crlf_def)
  moreover have "\<not> has_crlf (safeFilenameForHeader (tp_displayName p))"
    using disposition_clean [of p] by (simp add: has_crlf_def disposition_def)
  moreover have "quote \<notin> set (safeFilenameForHeader (tp_displayName p))" "backslash \<notin> set (safeFilenameForHeader (tp_displayName p))"
    using safe_filename_chars by blast+
  moreover have "length (safeFilenameForHeader (tp_displayName p)) = length (tp_displayName p)"
    by (simp add: safeFilenameForHeader_def)
  moreover have "cx_calls c' = cx_calls c @ [SetHeader ''X-Accel-Redirect'' (pre @ ?x),
      SetContentTypeByFilename (c_str (tp_displayName p)), SetHeader ''Content-Disposition'' (disposition p)]"
    "cx_status c' = 200" "cx_body c' = []" "answers = complete p True"
    using assms(1) calculation(1) disposition_clean [of p]
    by (auto simp: accel_send_def setHeader_def setBody_def setStatus_def setContentTypeByFilename_def resp_call_def)
  ultimately show ?thesis using last_component_no_slash d
    by (intro exI [of _ ?x] exI [of _ "safeFilenameForHeader (tp_displayName p)"]) (simp add: disposition_def)
qed

lemma accel_redirect_witness:
  "\<exists>st' c'. accel_send ''/int/'' (params0\<lparr>tp_displayName := [quote]\<rparr>) stats0 (ctx0 False) = ([True], st', c') \<and>
     (\<exists>x name. cx_calls c' = [SetHeader ''X-Accel-Redirect'' (''/int/'' @ x), SetContentTypeByFilename [quote],
        SetHeader ''Content-Disposition'' (''attachment; filename='' @ [quote] @ name @ [quote])] \<and> length name = 1 \<and> quote \<notin> set name)"
proof -
  let ?p = "params0\<lparr>tp_displayName := [quote]\<rparr>"
  obtain a st' c' where r: "accel_send ''/int/'' ?p stats0 (ctx0 False) = (a, st', c')" by (metis prod_cases3)
  have h: "\<not> has_crlf (''/int/'' @ tp_physicalPath ?p)" by (simp add: has_crlf_def is_crlf_def params0_def)
  have q: "c_str [quote] = [quote]" by (simp add: c_str_def quote_def)
  from accel_redirect [OF r h] r q show ?thesis by (auto simp: ctx0_def ctx_new_def complete_def params0_def)
qed

end
