(* ===== verification/Fw_Transfers.thy ===== *)
theory Fw_Transfers
  imports Fw_FileTransfer
begin

section \<open>Many downloads\<close>

text \<open>
  \<open>include/fw/IFileTransfer.hpp\<close>: what every transfer strategy promises for a whole download, as a locale, with what follows for a
  sequence of downloads by any strategy that the factory makes; and the stream transfer with any number of downloads under way at once,
  which share one set of counters.
\<close>

subsection \<open>The contract of a strategy\<close>

text \<open>
  A download to its end: what the callback got, the counters and the context. A download that is refused before it was counted is
  answered negatively; one that is abandoned (by an exception) was counted and is never answered.
\<close>

locale file_transfer =
  fixes download :: "'e \<Rightarrow> disk_file \<Rightarrow> transfer_params \<Rightarrow> transfer_stats \<Rightarrow> ctx \<Rightarrow> bool list \<times> transfer_stats \<times> ctx"
    and abandons :: "disk_file \<Rightarrow> transfer_params \<Rightarrow> bool"
  assumes settles: "\<not> abandons f p \<Longrightarrow> download e f p st c = (answers, st', c') \<Longrightarrow>
      \<exists>ok. answers = complete p ok \<and> (st' = recordEnd ok (recordStart (sendLen p) st) \<or> (\<not> ok \<and> st' = st))"
    and abandoned: "abandons f p \<Longrightarrow> download e f p st c = (answers, st', c') \<Longrightarrow> answers = [] \<and> st' = recordStart (sendLen p) st"

type_synonym 'e download_query = "'e \<times> disk_file \<times> transfer_params \<times> ctx"

fun downloads ::
  "('e \<Rightarrow> disk_file \<Rightarrow> transfer_params \<Rightarrow> transfer_stats \<Rightarrow> ctx \<Rightarrow> bool list \<times> transfer_stats \<times> ctx) \<Rightarrow>
   'e download_query list \<Rightarrow> transfer_stats \<Rightarrow> bool list \<times> transfer_stats" where
  "downloads download [] st = ([], st)"
| "downloads download ((e, f, p, c) # qs) st =
     (case download e f p st c of (answers, st1, _) \<Rightarrow>
        case downloads download qs st1 of (as, st2) \<Rightarrow> (answers @ as, st2))"

definition asked :: "'e download_query \<Rightarrow> bool" where
  "asked q \<longleftrightarrow> tp_onComplete (fst (snd (snd q)))"

definition given_up :: "(disk_file \<Rightarrow> transfer_params \<Rightarrow> bool) \<Rightarrow> 'e download_query list \<Rightarrow> nat" where
  "given_up abandons qs = length (filter (\<lambda>q. abandons (fst (snd q)) (fst (snd (snd q)))) qs)"

text \<open>What the counters say of downloads that were answered by \<open>as\<close> and \<open>n\<close> more that were abandoned.\<close>

definition accounts :: "bool list \<Rightarrow> nat \<Rightarrow> transfer_stats \<Rightarrow> transfer_stats \<Rightarrow> bool" where
  "accounts as n st st' \<longleftrightarrow> st_activeCount st' = st_activeCount st + of_nat n \<and>
     (\<exists>k\<le>count_list as False. st_errorCount st' = st_errorCount st + of_nat k \<and>
        st_totalCount st' = st_totalCount st + of_nat (count_list as True + k + n))"

lemma accounts_one:
  assumes "st' = recordEnd ok (recordStart b st) \<or> (\<not> ok \<and> st' = st)"
  shows "accounts [ok] 0 st st'"
proof (cases "\<not> ok \<and> st' = st")
  case True
  then show ?thesis unfolding accounts_def by (intro conjI exI [of _ 0]) simp_all
next
  case False
  with assms have "st' = recordEnd ok (recordStart b st)" by blast
  then show ?thesis unfolding accounts_def
    by (intro conjI exI [of _ "if ok then 0 else 1 :: nat"]) (simp_all add: recordEnd_def recordStart_def)
qed

lemma accounts_abandoned: "accounts [] 1 st (recordStart b st)"
  by (simp add: accounts_def recordStart_def)

lemma accounts_append:
  assumes "accounts as m st st1" and "accounts bs n st1 st2"
  shows "accounts (as @ bs) (m + n) st st2"
proof -
  from assms obtain k l where "k \<le> count_list as False" "l \<le> count_list bs False"
      "st_errorCount st1 = st_errorCount st + of_nat k" "st_errorCount st2 = st_errorCount st1 + of_nat l"
      "st_totalCount st1 = st_totalCount st + of_nat (count_list as True + k + m)"
      "st_totalCount st2 = st_totalCount st1 + of_nat (count_list bs True + l + n)"
    by (auto simp: accounts_def)
  then show ?thesis using assms unfolding accounts_def
    by (intro conjI exI [of _ "k + l"]) (simp_all add: algebra_simps)
qed

context file_transfer
begin

lemma downloads_account:
  "list_all asked qs \<Longrightarrow> downloads download qs st = (as, st') \<Longrightarrow>
   length as + given_up abandons qs = length qs \<and> accounts as (given_up abandons qs) st st'"
proof (induction qs arbitrary: st as)
  case Nil
  then show ?case by (simp add: accounts_def given_up_def)
next
  case (Cons q qs)
  obtain e f p c where q: "q = (e, f, p, c)" by (cases q)
  obtain answers st1 c1 where d: "download e f p st c = (answers, st1, c1)" by (metis prod_cases3)
  obtain bs where r: "downloads download qs st1 = (bs, st')" "as = answers @ bs"
    using Cons.prems(2) by (auto simp: q d split: prod.splits)
  let ?n = "if abandons f p then 1 else 0 :: nat"
  have one: "length answers + ?n = 1 \<and> accounts answers ?n st st1"
  proof (cases "abandons f p")
    case True
    then show ?thesis using abandoned [OF True d] accounts_abandoned by simp
  next
    case False
    obtain ok where "answers = complete p ok" "st1 = recordEnd ok (recordStart (sendLen p) st) \<or> (\<not> ok \<and> st1 = st)"
      using settles [OF False d] by blast
    moreover have "tp_onComplete p" using Cons.prems(1) by (simp add: q asked_def)
    ultimately show ?thesis using False accounts_one by (simp add: complete_def)
  qed
  have rest: "length bs + given_up abandons qs = length qs \<and> accounts bs (given_up abandons qs) st1 st'"
    using Cons.IH [OF _ r(1)] Cons.prems(1) by simp
  have "given_up abandons (q # qs) = ?n + given_up abandons qs" by (simp add: given_up_def q)
  moreover have "accounts as (?n + given_up abandons qs) st st'" unfolding r(2) using accounts_append one rest by blast
  ultimately show ?case using one rest unfolding r(2) by simp
qed

end

subsection \<open>What an event does to a stream transfer\<close>

text \<open>What an event does to a transfer: nothing to its answer and the counters, or it ends it with one answer and one \<open>recordEnd\<close>.\<close>

definition event_effect :: "transfer_state \<Rightarrow> transfer_state \<Rightarrow> bool \<Rightarrow> bool" where
  "event_effect s s' release \<longleftrightarrow> ts_params s' = ts_params s \<and>
     ((ts_finished s \<longleftrightarrow> ts_finished s' \<or> release) \<and> ts_stats s' = ts_stats s \<and> ts_answers s' = ts_answers s \<or>
      \<not> ts_finished s \<and> (ts_finished s' \<or> release) \<and>
        (\<exists>ok. ts_stats s' = recordEnd ok (ts_stats s) \<and> ts_answers s' = ts_answers s @ complete (ts_params s) ok))"

lemma effect_trans:
  "event_effect s s1 False \<Longrightarrow> event_effect s1 s2 release \<Longrightarrow> event_effect s s2 release"
  unfolding event_effect_def by (cases "ts_finished s"; cases "ts_finished s1") auto

lemma effect_same:
  "ts_params s' = ts_params s \<Longrightarrow> ts_finished s' = ts_finished s \<Longrightarrow> ts_stats s' = ts_stats s \<Longrightarrow> ts_answers s' = ts_answers s \<Longrightarrow>
   event_effect s s' False"
  by (simp add: event_effect_def)

lemma effect_finish: "event_effect s (ts_finish b s) False"
  by (auto simp: event_effect_def ts_finish_def)

lemma effect_pump: "event_effect s (snd (pump d es s)) False"
proof (induction d es s rule: pump.induct)
  case (1 d s)
  then show ?case by (simp add: pump.simps effect_same)
next
  case (2 d e es s0)
  let ?s = "s0\<lparr>ts_depth := max d (ts_depth s0)\<rparr>"
  let ?s1 = "take_block ?s"
  let ?r = "if pe_reenters e \<and> ts_onwrite ?s1 then pump (d + 1) es ?s1 else (es, ?s1)"
  have s: "event_effect s0 ?s False" by (simp add: effect_same)
  have b: "event_effect ?s ?s1 False" by (simp add: effect_same take_block_def Let_def)
  have fin: "event_effect x (ts_finish True (x\<lparr>ts_writes := ts_writes x @ [WriterEnd]\<rparr>)) False" for x
    using effect_trans [OF effect_same effect_finish, of "x\<lparr>ts_writes := ts_writes x @ [WriterEnd]\<rparr>" x True] by simp
  show ?case
  proof (cases "\<not> ts_finished ?s \<and> pe_connected e \<and> pe_drained e \<and> next_block ?s \<noteq> []")
    case False
    then show ?thesis using s effect_trans [OF s effect_finish] by (auto simp: pump.simps(2) [of d e es s0] Let_def)
  next
    case True
    have "event_effect ?s1 (snd ?r) False" using "2.IH" True by (auto simp: effect_same)
    then have r: "event_effect s0 (snd ?r) False" using effect_trans s b by blast
    then show ?thesis using True effect_trans [OF r effect_finish] effect_trans [OF r fin]
      by (cases ?r) (auto simp: pump.simps(2) [of d e es s0] Let_def)
  qed
qed

lemma effect_run: "event_effect s (stream_run es s) False"
proof (induction es s rule: stream_run.induct)
  case (1 es s)
  then show ?case using effect_trans [OF effect_pump] by (subst stream_run.simps) (auto simp: effect_same)
qed

lemma effect_destroy: "event_effect s (ts_destroy s) True"
  by (auto simp: event_effect_def ts_destroy_def)

text \<open>A new transfer, as the events during \<open>send\<close> leave it.\<close>

lemma begin_effect:
  assumes "stream_send result (Some (content, seekable)) p st c es = (Some s, answers, st', c')"
  shows "event_effect (stream_start content p st) s False"
proof -
  let ?s = "stream_run es (stream_start content p st)"
  have "event_effect ?s (?s\<lparr>ts_writes := ts_writes ?s @ [WriterEnd]\<rparr>) False" by (simp add: effect_same)
  from effect_trans [OF effect_trans [OF effect_run this] effect_finish] effect_run
  show ?thesis using stream_send_state [OF assms] by (cases "sendLen p = 0") simp_all
qed

subsection \<open>The three strategies\<close>

record download_env =
  fe_legacy :: legacy_env
  fe_result :: "writer_call \<Rightarrow> int"
  fe_start :: "pump_env list"
  fe_later :: "pump_env list"

definition legacy_download ::
  "download_env \<Rightarrow> disk_file \<Rightarrow> transfer_params \<Rightarrow> transfer_stats \<Rightarrow> ctx \<Rightarrow> bool list \<times> transfer_stats \<times> ctx" where
  "legacy_download e f p st c = snd (legacy_send (fe_legacy e) f p st c)"

definition accel_download ::
  "string \<Rightarrow> download_env \<Rightarrow> disk_file \<Rightarrow> transfer_params \<Rightarrow> transfer_stats \<Rightarrow> ctx \<Rightarrow> bool list \<times> transfer_stats \<times> ctx" where
  "accel_download pre e f p st c = accel_send pre p st c"

text \<open>A stream download: the events during \<open>send\<close>, those afterwards, and the end of the connection.\<close>

definition stream_download ::
  "download_env \<Rightarrow> disk_file \<Rightarrow> transfer_params \<Rightarrow> transfer_stats \<Rightarrow> ctx \<Rightarrow> bool list \<times> transfer_stats \<times> ctx" where
  "stream_download e f p st c =
     (case stream_send (fe_result e) f p st c (fe_start e) of
        (None, answers, st', c') \<Rightarrow> (answers, st', c')
      | (Some s, _, _, c') \<Rightarrow> let s' = ts_destroy (stream_run (fe_later e) s) in (ts_answers s', ts_stats s', c'))"

fun mode_download ::
  "transfer_mode \<Rightarrow> download_env \<Rightarrow> disk_file \<Rightarrow> transfer_params \<Rightarrow> transfer_stats \<Rightarrow> ctx \<Rightarrow> bool list \<times> transfer_stats \<times> ctx" where
  "mode_download LegacyMode = legacy_download"
| "mode_download (AccelMode pre) = accel_download pre"
| "mode_download StreamMode = stream_download"

text \<open>A range that ends more than one byte before it starts makes a legacy transfer throw once its file is open.\<close>

definition backwards :: "disk_file \<Rightarrow> transfer_params \<Rightarrow> bool" where
  "backwards f p \<longleftrightarrow> isRange p \<and> sendLen p < 0 \<and> (\<exists>content. f = Some (content, True))"

definition mode_abandons :: "transfer_mode \<Rightarrow> disk_file \<Rightarrow> transfer_params \<Rightarrow> bool" where
  "mode_abandons m f p \<longleftrightarrow> m = LegacyMode \<and> backwards f p"

lemma legacy_small_backwards:
  "sendLen p < kStreamThreshold \<Longrightarrow> fst (legacy_send env f p st c) = LengthError \<longleftrightarrow> backwards f p"
  by (auto simp: legacy_send_def legacy_small_def backwards_def Let_def split: option.splits bool.splits)

lemma backwards_small: "backwards f p \<Longrightarrow> sendLen p < kStreamThreshold"
  by (simp add: backwards_def kStreamThreshold_def)

interpretation legacy_dl: file_transfer legacy_download "mode_abandons LegacyMode"
proof
  fix e f p st c answers st' c'
  assume d: "legacy_download e f p st c = (answers, st', c')"
  obtain r where r: "legacy_send (fe_legacy e) f p st c = (r, answers, st', c')"
    using d by (cases "legacy_send (fe_legacy e) f p st c") (simp add: legacy_download_def)
  have e: "ended p (recordStart (sendLen p) st) (r, answers, st', c')"
    using legacy_send_ended [of p st "fe_legacy e" f c] by (simp add: r)
  {
    assume n: "\<not> mode_abandons LegacyMode f p"
    have "r = SendDone"
      using e legacy_small_backwards [where p = p and env = "fe_legacy e" and f = f and st = st and c = c] n by (auto simp: ended_def mode_abandons_def r kStreamThreshold_def)
    with e show "\<exists>ok. answers = complete p ok \<and> (st' = recordEnd ok (recordStart (sendLen p) st) \<or> (\<not> ok \<and> st' = st))"
      by (auto simp: ended_def)
  next
    assume "mode_abandons LegacyMode f p"
    then have "r = LengthError"
      using legacy_small_backwards [OF backwards_small, where p = p and env = "fe_legacy e" and f = f and st = st and c = c] by (simp add: mode_abandons_def r)
    with e show "answers = [] \<and> st' = recordStart (sendLen p) st" by (auto simp: ended_def)
  }
qed

interpretation accel_dl: file_transfer "accel_download pre" "mode_abandons (AccelMode pre)" for pre
  by unfold_locales (auto simp: accel_download_def accel_send_def mode_abandons_def)

interpretation stream_dl: file_transfer stream_download "mode_abandons StreamMode"
proof
  fix e f p st c answers st' c'
  assume d: "stream_download e f p st c = (answers, st', c')"
  obtain r as st1 c1 where s: "stream_send (fe_result e) f p st c (fe_start e) = (r, as, st1, c1)" by (metis prod_cases4)
  show "\<exists>ok. answers = complete p ok \<and> (st' = recordEnd ok (recordStart (sendLen p) st) \<or> (\<not> ok \<and> st' = st))"
  proof (cases r)
    case None
    then have "as = complete p False \<and> st1 = st" using s by (auto simp: stream_send_def Let_def split: if_splits option.splits)
    then show ?thesis using d s None by (auto simp: stream_download_def)
  next
    case (Some s0)
    then obtain content seekable where f: "f = Some (content, seekable)"
      using s by (cases f) (auto simp: stream_send_def Let_def split: if_splits)
    have "event_effect (stream_start content p st) (ts_destroy (stream_run (fe_later e) s0)) True"
      using begin_effect [OF s [unfolded f Some]] effect_run effect_destroy effect_trans by blast
    then show ?thesis using d s Some by (auto simp: event_effect_def stream_start_def stream_download_def Let_def)
  qed
qed (simp add: mode_abandons_def)

interpretation mode_dl: file_transfer "mode_download m" "mode_abandons m" for m
  by (cases m) (simp_all add: legacy_dl.file_transfer_axioms accel_dl.file_transfer_axioms stream_dl.file_transfer_axioms)

text \<open>
  C16: the counters tell the truth. For every strategy that the factory makes and every sequence of downloads with a callback, whatever becomes
  of each: every download is answered once, but for the legacy downloads of a range that ends more than one byte before it starts and whose file
  can be opened and positioned, which throw and are never answered. The active count is then up by exactly these; each answered download
  counts, as an error too unless it was answered positively, but for stream downloads that were refused at once, which do not count at all.
  So downloads counted less errors are those answered positively and those abandoned.
\<close>

theorem downloads_balanced:
  assumes "transfer_create name pre = Some m" "list_all asked qs" "downloads (mode_download m) qs st = (as, st')"
  shows "length as + given_up (mode_abandons m) qs = length qs \<and>
    st_activeCount st' = st_activeCount st + of_nat (given_up (mode_abandons m) qs) \<and>
    (\<exists>k\<le>count_list as False. st_errorCount st' = st_errorCount st + of_nat k \<and>
       st_totalCount st' = st_totalCount st + of_nat (count_list as True + k + given_up (mode_abandons m) qs)) \<and>
    (m \<noteq> LegacyMode \<or> list_all (\<lambda>q. 0 \<le> sendLen (fst (snd (snd q)))) qs \<longrightarrow> given_up (mode_abandons m) qs = 0)"
proof -
  have "given_up (mode_abandons m) qs = 0" if "m \<noteq> LegacyMode \<or> list_all (\<lambda>q. 0 \<le> sendLen (fst (snd (snd q)))) qs"
    using that by (auto simp: given_up_def mode_abandons_def backwards_def list_all_iff filter_empty_conv)
  then show ?thesis using mode_dl.downloads_account [OF assms(2,3)] by (simp add: accounts_def)
qed

definition download_env0 :: download_env where
  "download_env0 = \<lparr>fe_legacy = env0, fe_result = (\<lambda>_. 0), fe_start = [], fe_later = [willing_event False]\<rparr>"

text \<open>A download that is sent, one whose file does not open, and one of a backwards range.\<close>

lemma downloads_balanced_witness:
  "\<exists>as st'. downloads (mode_download LegacyMode) [(download_env0, Some (''hello'', True), params0, ctx0 True),
       (download_env0, None, params0\<lparr>tp_rangeStart := 4, tp_rangeEnd := 1\<rparr>, ctx0 True),
       (download_env0, Some (''hello'', True), params0\<lparr>tp_rangeStart := 4, tp_rangeEnd := 1\<rparr>, ctx0 True)] stats0 = (as, st') \<and>
     length as = 2 \<and> st_activeCount st' = 1 \<and> transfer_create ''LEGACY'' [] = Some LegacyMode"
proof -
  let ?qs = "[(download_env0, Some (''hello'', True), params0, ctx0 True),
       (download_env0, None, params0\<lparr>tp_rangeStart := 4, tp_rangeEnd := 1\<rparr>, ctx0 True),
       (download_env0, Some (''hello'', True), params0\<lparr>tp_rangeStart := 4, tp_rangeEnd := 1\<rparr>, ctx0 True)]"
  obtain as st' where r: "downloads (mode_download LegacyMode) ?qs stats0 = (as, st')" by fastforce
  have c: "transfer_create ''LEGACY'' [] = Some LegacyMode" by code_simp
  have a: "list_all asked ?qs" by (simp add: asked_def params0_def)
  have g: "given_up (mode_abandons LegacyMode) ?qs = 1"
    by (simp add: given_up_def mode_abandons_def backwards_def params0_def sendLen_def isRange_def)
  from downloads_balanced [OF c a r] r c show ?thesis by (simp add: g) (simp add: stats0_def)
qed

subsection \<open>Stream downloads at the same time\<close>

text \<open>
  A \<open>StreamTransfer\<close> with the downloads it has started, in order, each with whether its connection has given the callback up, and the
  counters they share. A write event of one download runs its \<open>pump\<close> on the counters as they are then; \<open>pump\<close> changes them by one
  \<open>recordEnd\<close> at most, so taking an event as one step leaves out no outcome.
\<close>

record stream_server =
  sm_transfers :: "(transfer_state \<times> bool) list"
  sm_stats :: transfer_stats

datatype stream_act =
    Begin "writer_call \<Rightarrow> int" disk_file transfer_params ctx "pump_env list"
  | WriteEvent nat "pump_env list"
  | Release nat

definition stream_server_new :: stream_server where
  "stream_server_new = \<lparr>sm_transfers = [], sm_stats = \<lparr>st_totalCount = 0, st_totalBytes = 0, st_activeCount = 0, st_errorCount = 0\<rparr>\<rparr>"

definition on_transfer :: "nat \<Rightarrow> (transfer_state \<Rightarrow> transfer_state) \<Rightarrow> bool \<Rightarrow> stream_server \<Rightarrow> stream_server" where
  "on_transfer i act release sv =
     (if length (sm_transfers sv) \<le> i \<or> snd (sm_transfers sv ! i) then sv
      else let s = act ((fst (sm_transfers sv ! i))\<lparr>ts_stats := sm_stats sv\<rparr>)
           in sv\<lparr>sm_transfers := (sm_transfers sv)[i := (s, release)], sm_stats := ts_stats s\<rparr>)"

fun stream_server_step :: "stream_act \<Rightarrow> stream_server \<Rightarrow> stream_server" where
  "stream_server_step (Begin result f p c es) sv =
     (case stream_send result f p (sm_stats sv) c es of
        (None, _, _, _) \<Rightarrow> sv
      | (Some s, _, _, _) \<Rightarrow> sv\<lparr>sm_transfers := sm_transfers sv @ [(s, False)], sm_stats := ts_stats s\<rparr>)"
| "stream_server_step (WriteEvent i es) sv = on_transfer i (stream_run es) False sv"
| "stream_server_step (Release i) sv = on_transfer i ts_destroy True sv"

text \<open>The invariant.\<close>

definition under_way :: "transfer_state \<times> bool \<Rightarrow> bool" where
  "under_way t \<longleftrightarrow> \<not> ts_finished (fst t) \<and> \<not> snd t"

definition has_failed :: "transfer_state \<times> bool \<Rightarrow> bool" where
  "has_failed t \<longleftrightarrow> ts_answers (fst t) = [False]"

definition answered_once :: "transfer_state \<times> bool \<Rightarrow> bool" where
  "answered_once t \<longleftrightarrow> tp_onComplete (ts_params (fst t)) \<and>
     (if under_way t then ts_answers (fst t) = [] else \<exists>ok. ts_answers (fst t) = [ok])"

definition server_ok :: "(transfer_state \<times> bool) list \<Rightarrow> transfer_stats \<Rightarrow> bool" where
  "server_ok ts st \<longleftrightarrow> list_all answered_once ts \<and> st_totalCount st = of_nat (length ts) \<and>
     st_activeCount st = of_nat (length (filter under_way ts)) \<and> st_errorCount st = of_nat (length (filter has_failed ts))"

lemma length_filter_update:
  "i < length xs \<Longrightarrow> (of_nat (length (filter P (xs[i := x]))) :: 64 word) =
     of_nat (length (filter P xs)) + (if P x then 1 else 0) - (if P (xs ! i) then 1 else 0)"
proof (induction xs arbitrary: i)
  case (Cons y ys)
  show ?case
  proof (cases i)
    case (Suc k)
    with Cons.prems Cons.IH [of k] show ?thesis by (cases "P x"; cases "P (ys ! k)"; simp)
  qed simp
qed simp

lemma server_ok_event:
  assumes ok: "server_ok ts st" and i: "i < length ts" "\<not> snd (ts ! i)"
    and e: "event_effect ((fst (ts ! i))\<lparr>ts_stats := st\<rparr>) s release"
  shows "server_ok (ts[i := (s, release)]) (ts_stats s)"
proof -
  have a: "answered_once (ts ! i)" using ok i(1) by (simp add: server_ok_def list_all_length)
  have one: "answered_once (s, release)" using a e i(2)
    by (auto simp: answered_once_def under_way_def event_effect_def complete_def split: if_splits)
  have counts: "st_totalCount (ts_stats s) = st_totalCount st \<and>
      st_activeCount (ts_stats s) = st_activeCount st + (if under_way (s, release) then 1 else 0) - (if under_way (ts ! i) then 1 else 0) \<and>
      st_errorCount (ts_stats s) = st_errorCount st + (if has_failed (s, release) then 1 else 0) - (if has_failed (ts ! i) then 1 else 0)"
    using a e i(2)
    by (auto simp: answered_once_def under_way_def has_failed_def event_effect_def complete_def recordEnd_def split: if_splits)
  from ok i(1) counts one show ?thesis
    by (simp add: server_ok_def length_filter_update list_all_length nth_list_update)
qed

lemma on_transfer_ok:
  assumes "server_ok (sm_transfers sv) (sm_stats sv)" and "\<And>s. event_effect s (act s) release"
  shows "server_ok (sm_transfers (on_transfer i act release sv)) (sm_stats (on_transfer i act release sv))"
  using assms(1) server_ok_event [OF assms(1) _ _ assms(2), of i] by (auto simp: on_transfer_def Let_def not_le)

lemma server_ok_begin:
  assumes ok: "server_ok ts st" and cb: "tp_onComplete p"
    and b: "stream_send result f p st c es = (Some s, answers, st', c')"
  shows "server_ok (ts @ [(s, False)]) (ts_stats s)"
proof -
  obtain content seekable where f: "f = Some (content, seekable)"
    using b by (cases f) (auto simp: stream_send_def Let_def split: if_splits)
  have "event_effect (stream_start content p st) s False" using begin_effect b f by blast
  then show ?thesis using ok cb
    by (auto simp: event_effect_def stream_start_def server_ok_def answered_once_def under_way_def has_failed_def complete_def
        recordStart_def recordEnd_def)
qed

fun has_callback :: "stream_act \<Rightarrow> bool" where
  "has_callback (Begin result f p c es) = tp_onComplete p"
| "has_callback _ = True"

lemma server_ok_run:
  "list_all has_callback acts \<Longrightarrow> server_ok (sm_transfers sv) (sm_stats sv) \<Longrightarrow>
   server_ok (sm_transfers (fold stream_server_step acts sv)) (sm_stats (fold stream_server_step acts sv))"
proof (induction acts arbitrary: sv)
  case (Cons a acts)
  have "server_ok (sm_transfers (stream_server_step a sv)) (sm_stats (stream_server_step a sv))"
    using Cons.prems by (cases a)
      (auto split: option.split prod.split intro: server_ok_begin on_transfer_ok effect_run effect_destroy)
  then show ?case using Cons by simp
qed simp

text \<open>A signed reader of a word sees a number below \<open>2 ^ 63\<close> as it is.\<close>

lemma sint_of_nat: "n < 2 ^ 63 \<Longrightarrow> sint (of_nat n :: 64 word) = int n"
proof -
  assume n: "n < 2 ^ 63"
  have "sint (of_nat n :: 64 word) = signed_take_bit 63 (int n)"
    by (simp add: sint_uint unsigned_of_nat signed_take_bit_take_bit flip: take_bit_of_nat)
  also have "\<dots> = int n" using n by (intro signed_take_bit_int_eq_self) simp_all
  finally show ?thesis .
qed

text \<open>
  C3: the counters of a stream transfer are exact at every moment. Whatever downloads are under way at the same time, however the events on
  their connections interleave and however many of these go away, the counters always are, as words of 64 bits: the downloads begun, those
  neither finished nor given up, and those answered negatively, and a reader sees just these numbers as long as fewer than \<open>2 ^ 63\<close> downloads
  were begun; and no callback is called twice, nor before its download is over, nor left out after it.
\<close>

theorem stream_counters_exact:
  assumes "sv = fold stream_server_step acts stream_server_new" "list_all has_callback acts"
  shows "st_totalCount (sm_stats sv) = of_nat (length (sm_transfers sv)) \<and>
    st_activeCount (sm_stats sv) = of_nat (length (filter under_way (sm_transfers sv))) \<and>
    st_errorCount (sm_stats sv) = of_nat (length (filter has_failed (sm_transfers sv))) \<and>
    list_all answered_once (sm_transfers sv) \<and>
    (length (sm_transfers sv) < 2 ^ 63 \<longrightarrow>
       sint (st_totalCount (sm_stats sv)) = int (length (sm_transfers sv)) \<and>
       sint (st_activeCount (sm_stats sv)) = int (length (filter under_way (sm_transfers sv))) \<and>
       sint (st_errorCount (sm_stats sv)) = int (length (filter has_failed (sm_transfers sv))))"
proof -
  have "server_ok (sm_transfers stream_server_new) (sm_stats stream_server_new)"
    by (simp add: stream_server_new_def server_ok_def)
  from server_ok_run [OF assms(2) this] have ok: "server_ok (sm_transfers sv) (sm_stats sv)" unfolding assms(1) .
  have "sint (of_nat (length (filter P (sm_transfers sv))) :: 64 word) = int (length (filter P (sm_transfers sv)))"
    if "length (sm_transfers sv) < 2 ^ 63" for P
    using that length_filter_le [of P "sm_transfers sv"] by (intro sint_of_nat) linarith
  with ok show ?thesis using sint_of_nat [of "length (sm_transfers sv)"] unfolding server_ok_def by simp
qed

text \<open>Two downloads begun; the second one's connection is lost, the first one is sent.\<close>

lemma stream_counters_exact_witness:
  "\<exists>sv. sv = fold stream_server_step [Begin (\<lambda>_. 0) (Some (''hello'', True)) params0 (ctx0 True) [],
       Begin (\<lambda>_. 0) (Some (''hello'', True)) params0 (ctx0 True) [], Release 1, WriteEvent 0 [willing_event False]] stream_server_new \<and>
     st_totalCount (sm_stats sv) = of_nat (length (sm_transfers sv)) \<and> st_activeCount (sm_stats sv) = of_nat (length (filter under_way (sm_transfers sv)))"
  using stream_counters_exact [OF refl, of "[Begin (\<lambda>_. 0) (Some (''hello'', True)) params0 (ctx0 True) [],
      Begin (\<lambda>_. 0) (Some (''hello'', True)) params0 (ctx0 True) [], Release 1, WriteEvent 0 [willing_event False]]"]
  by (simp add: params0_def)

end
