(* ===== verification/Fw_ThreadPool.thy ===== *)
theory Fw_ThreadPool
  imports Fw_Prelude
begin

section \<open>The supervised thread pool\<close>

text \<open>
  \<open>SupervisedThreadPool\<close> as a labelled transition system. A step is one access to shared state: a
  read or a write of \<open>m_running\<close>, taking a mutex, going to sleep on a condition variable, a
  notification, a join. Sections under a mutex that touch nothing but what the mutex guards are one
  step. Tasks are of any type; running one has no effect here and always comes back, because the
  worker catches what it throws. \<open>start\<close> and \<open>stop\<close> are called by one thread, the client; \<open>submit\<close> by
  any number of threads.
\<close>

subsection \<open>Threads and state\<close>

text \<open>\<open>workerLoop\<close>: the states from \<open>W_Test\<close> to \<open>W_Take\<close> hold \<open>m_tasksMutex\<close>, but for the sleep.\<close>

datatype 't worker_pc =
    W_Top | W_Lock | W_Test | W_Wait | W_Sleep | W_Wake | W_After | W_Take | W_Run 't | W_Exit | W_Done

text \<open>\<open>supervisorLoop\<close>; \<open>V_Test\<close>, \<open>V_Wait\<close> and \<open>V_After\<close> hold \<open>m_finishedMutex\<close>.\<close>

datatype supervisor_pc =
    V_Top | V_Lock | V_Test | V_Wait | V_Sleep | V_Wake | V_After | V_Join nat | V_Check nat | V_Spawn nat | V_Done

text \<open>The client inside \<open>stop\<close>.\<close>

datatype client_pc = C_Idle | C_NotifyTasks | C_NotifyFinished | C_Join nat | C_JoinSupervisor

text \<open>
  \<open>po_tasksOwner\<close>: the worker that holds \<open>m_tasksMutex\<close>; \<open>po_finishedHeld\<close>: whether the supervisor
  holds \<open>m_finishedMutex\<close>; \<open>po_next\<close>: the number of workers \<open>start\<close> wants once its own \<open>stop\<close> is through,
  0 for a plain \<open>stop\<close>; \<open>po_submits\<close>: tasks whose \<open>submit\<close> has read \<open>m_running\<close> as true and not yet
  taken the mutex; \<open>po_notify\<close>: calls of \<open>notify_one\<close> that are due. The last four record what
  happened: the tasks queued and the tasks started, in order, the answers of \<open>submit\<close>, and how many
  workers the supervisor has replaced.
\<close>

record 't pool =
  po_maxQueueSize :: nat
  po_running :: bool
  po_workers :: "'t worker_pc list"
  po_supervisor :: supervisor_pc
  po_tasks :: "'t list"
  po_tasksOwner :: "nat option"
  po_finished :: "nat list"
  po_finishedHeld :: bool
  po_client :: client_pc
  po_next :: nat
  po_submits :: "'t list"
  po_notify :: nat
  po_accepted :: "'t list"
  po_started :: "'t list"
  po_answers :: "('t option \<times> bool) list"
  po_replaced :: nat

definition pool_new :: "nat \<Rightarrow> 't pool" where
  "pool_new maxSize = \<lparr>po_maxQueueSize = maxSize, po_running = False, po_workers = [], po_supervisor = V_Done,
     po_tasks = [], po_tasksOwner = None, po_finished = [], po_finishedHeld = False, po_client = C_Idle, po_next = 0,
     po_submits = [], po_notify = 0, po_accepted = [], po_started = [], po_answers = [], po_replaced = 0\<rparr>"

subsection \<open>Steps\<close>

definition set_worker :: "nat \<Rightarrow> 't worker_pc \<Rightarrow> 't pool \<Rightarrow> 't pool" where
  "set_worker k w s = s\<lparr>po_workers := (po_workers s)[k := w]\<rparr>"

definition pushFinished :: "nat \<Rightarrow> 't pool \<Rightarrow> 't pool" where
  "pushFinished k s = s\<lparr>po_finished := po_finished s @ [k],
     po_supervisor := (if po_supervisor s = V_Sleep then V_Wake else po_supervisor s)\<rparr>"

definition worker_step :: "nat \<Rightarrow> 't pool \<Rightarrow> 't pool option" where
  "worker_step k s =
     (case po_workers s ! k of
        W_Top \<Rightarrow> Some (set_worker k (if po_running s then W_Lock else W_Exit) s)
      | W_Lock \<Rightarrow> if po_tasksOwner s = None then Some (set_worker k W_Test (s\<lparr>po_tasksOwner := Some k\<rparr>)) else None
      | W_Test \<Rightarrow> Some (set_worker k (if po_tasks s = [] \<and> po_running s then W_Wait else W_After) s)
      | W_Wait \<Rightarrow> Some (set_worker k W_Sleep (s\<lparr>po_tasksOwner := None\<rparr>))
      | W_Sleep \<Rightarrow> None
      | W_Wake \<Rightarrow> if po_tasksOwner s = None then Some (set_worker k W_Test (s\<lparr>po_tasksOwner := Some k\<rparr>)) else None
      | W_After \<Rightarrow> if po_running s then Some (set_worker k W_Take s)
                   else Some (set_worker k W_Exit (s\<lparr>po_tasksOwner := None\<rparr>))
      | W_Take \<Rightarrow> (case po_tasks s of
            [] \<Rightarrow> Some (set_worker k W_Top (s\<lparr>po_tasksOwner := None\<rparr>))
          | t # ts \<Rightarrow> Some (set_worker k (W_Run t)
                (s\<lparr>po_tasks := ts, po_tasksOwner := None, po_started := po_started s @ [t]\<rparr>)))
      | W_Run t \<Rightarrow> Some (set_worker k W_Top s)
      | W_Exit \<Rightarrow> if po_finishedHeld s then None else Some (set_worker k W_Done (pushFinished k s))
      | W_Done \<Rightarrow> None)"

definition supervisor_step :: "'t pool \<Rightarrow> 't pool option" where
  "supervisor_step s =
     (case po_supervisor s of
        V_Top \<Rightarrow> Some (s\<lparr>po_supervisor := (if po_running s then V_Lock else V_Done)\<rparr>)
      | V_Lock \<Rightarrow> if po_finishedHeld s then None else Some (s\<lparr>po_supervisor := V_Test, po_finishedHeld := True\<rparr>)
      | V_Test \<Rightarrow> Some (s\<lparr>po_supervisor := (if po_finished s = [] \<and> po_running s then V_Wait else V_After)\<rparr>)
      | V_Wait \<Rightarrow> Some (s\<lparr>po_supervisor := V_Sleep, po_finishedHeld := False\<rparr>)
      | V_Sleep \<Rightarrow> None
      | V_Wake \<Rightarrow> if po_finishedHeld s then None else Some (s\<lparr>po_supervisor := V_Test, po_finishedHeld := True\<rparr>)
      | V_After \<Rightarrow>
          if \<not> po_running s then Some (s\<lparr>po_supervisor := V_Done, po_finishedHeld := False\<rparr>)
          else (case po_finished s of
                  [] \<Rightarrow> Some (s\<lparr>po_supervisor := V_Top, po_finishedHeld := False\<rparr>)
                | i # is \<Rightarrow> Some (s\<lparr>po_finished := is, po_finishedHeld := False,
                      po_supervisor := (if length (po_workers s) \<le> i then V_Top else V_Join i)\<rparr>))
      | V_Join i \<Rightarrow> if po_workers s ! i = W_Done then Some (s\<lparr>po_supervisor := V_Check i\<rparr>) else None
      | V_Check i \<Rightarrow> Some (s\<lparr>po_supervisor := (if po_running s then V_Spawn i else V_Done)\<rparr>)
      | V_Spawn i \<Rightarrow> Some (set_worker i W_Top (s\<lparr>po_supervisor := V_Top, po_replaced := po_replaced s + 1\<rparr>))
      | V_Done \<Rightarrow> None)"

text \<open>\<open>submit\<close>: the test of \<open>m_running\<close>, the section under the mutex, the notification.\<close>

definition submit_test :: "'t option \<Rightarrow> 't pool \<Rightarrow> 't pool" where
  "submit_test task s =
     (case task of
        Some t \<Rightarrow> if po_running s then s\<lparr>po_submits := po_submits s @ [t]\<rparr> else s\<lparr>po_answers := po_answers s @ [(task, False)]\<rparr>
      | None \<Rightarrow> s\<lparr>po_answers := po_answers s @ [(None, False)]\<rparr>)"

definition drop_nth :: "nat \<Rightarrow> 'a list \<Rightarrow> 'a list" where
  "drop_nth i xs = take i xs @ drop (Suc i) xs"

definition submit_push :: "nat \<Rightarrow> 't pool \<Rightarrow> 't pool option" where
  "submit_push i s =
     (if length (po_submits s) \<le> i \<or> po_tasksOwner s \<noteq> None then None
      else let t = po_submits s ! i; s1 = s\<lparr>po_submits := drop_nth i (po_submits s)\<rparr>
      in if 0 < po_maxQueueSize s \<and> po_maxQueueSize s \<le> length (po_tasks s)
         then Some (s1\<lparr>po_answers := po_answers s @ [(Some t, False)]\<rparr>)
         else Some (s1\<lparr>po_tasks := po_tasks s @ [t], po_accepted := po_accepted s @ [t],
                       po_answers := po_answers s @ [(Some t, True)], po_notify := po_notify s + 1\<rparr>))"

text \<open>\<open>notify_one\<close> wakes some sleeping worker; it is lost only when none sleeps.\<close>

definition notify_one :: "nat option \<Rightarrow> 't pool \<Rightarrow> 't pool option" where
  "notify_one w s =
     (if po_notify s = 0 then None
      else case w of
             Some k \<Rightarrow> if k < length (po_workers s) \<and> po_workers s ! k = W_Sleep
                       then Some (set_worker k W_Wake (s\<lparr>po_notify := po_notify s - 1\<rparr>)) else None
           | None \<Rightarrow> if list_all (\<lambda>p. p \<noteq> W_Sleep) (po_workers s) then Some (s\<lparr>po_notify := po_notify s - 1\<rparr>) else None)"

definition wake_all :: "'t worker_pc list \<Rightarrow> 't worker_pc list" where
  "wake_all ws = map (\<lambda>p. if p = W_Sleep then W_Wake else p) ws"

text \<open>\<open>start\<close> without its \<open>stop\<close>: the threads are created before the client does anything else.\<close>

definition start_threads :: "nat \<Rightarrow> 't pool \<Rightarrow> 't pool" where
  "start_threads n s = s\<lparr>po_running := True, po_workers := replicate n W_Top, po_supervisor := V_Top,
     po_client := C_Idle, po_next := 0\<rparr>"

definition stop_begin :: "nat \<Rightarrow> 't pool \<Rightarrow> 't pool" where
  "stop_begin n s = s\<lparr>po_running := False, po_client := C_NotifyTasks, po_next := n\<rparr>"

definition pool_start :: "nat \<Rightarrow> 't pool \<Rightarrow> 't pool option" where
  "pool_start n s =
     (if po_client s \<noteq> C_Idle then None
      else if n = 0 then Some s
      else Some (if po_running s then stop_begin n s else start_threads n s))"

definition pool_stop :: "'t pool \<Rightarrow> 't pool option" where
  "pool_stop s =
     (if po_client s \<noteq> C_Idle then None
      else Some (if po_running s then stop_begin 0 s else s))"

definition client_step :: "'t pool \<Rightarrow> 't pool option" where
  "client_step s =
     (case po_client s of
        C_Idle \<Rightarrow> None
      | C_NotifyTasks \<Rightarrow> Some (s\<lparr>po_workers := wake_all (po_workers s), po_client := C_NotifyFinished\<rparr>)
      | C_NotifyFinished \<Rightarrow> Some (s\<lparr>po_supervisor := (if po_supervisor s = V_Sleep then V_Wake else po_supervisor s),
            po_client := C_Join 0\<rparr>)
      | C_Join k \<Rightarrow>
          if length (po_workers s) \<le> k then Some (s\<lparr>po_client := C_JoinSupervisor\<rparr>)
          else if po_workers s ! k = W_Done then Some (s\<lparr>po_client := C_Join (k + 1)\<rparr>) else None
      | C_JoinSupervisor \<Rightarrow>
          if po_supervisor s = V_Done
          then Some (if po_next s = 0 then s\<lparr>po_client := C_Idle\<rparr> else start_threads (po_next s) s) else None)"

text \<open>
  All steps of the system. A worker may also wake up without a notification, and so may the
  supervisor: condition variables allow it.
\<close>

datatype 't pool_act =
    Work nat | Supervise | Client | Start nat | Stop
  | SubmitTest "'t option" | SubmitPush nat | NotifyOne "nat option"
  | SpuriousWake nat | SpuriousSupervisor

fun pool_step :: "'t pool_act \<Rightarrow> 't pool \<Rightarrow> 't pool option" where
  "pool_step (Work k) s = (if k < length (po_workers s) then worker_step k s else None)"
| "pool_step Supervise s = supervisor_step s"
| "pool_step Client s = client_step s"
| "pool_step (Start n) s = pool_start n s"
| "pool_step Stop s = pool_stop s"
| "pool_step (SubmitTest t) s = Some (submit_test t s)"
| "pool_step (SubmitPush i) s = submit_push i s"
| "pool_step (NotifyOne w) s = notify_one w s"
| "pool_step (SpuriousWake k) s =
     (if k < length (po_workers s) \<and> po_workers s ! k = W_Sleep then Some (set_worker k W_Wake s) else None)"
| "pool_step SpuriousSupervisor s =
     (if po_supervisor s = V_Sleep then Some (s\<lparr>po_supervisor := V_Wake\<rparr>) else None)"

fun pool_run :: "'t pool_act list \<Rightarrow> 't pool \<Rightarrow> 't pool option" where
  "pool_run [] s = Some s"
| "pool_run (a # as) s = (case pool_step a s of None \<Rightarrow> None | Some s' \<Rightarrow> pool_run as s')"

lemma pool_run_append:
  "pool_run (as @ bs) s = (case pool_run as s of None \<Rightarrow> None | Some s' \<Rightarrow> pool_run bs s')"
  by (induction as arbitrary: s) (auto split: option.splits)

text \<open>What every step keeps, every run keeps; steps may be restricted to those allowed by \<open>P\<close>.\<close>

lemma pool_run_invariant:
  assumes "\<And>a s s'. P a \<Longrightarrow> pool_step a s = Some s' \<Longrightarrow> I s \<Longrightarrow> I s'"
    and "pool_run as s = Some s'" and "I s" and "list_all P as"
  shows "I s'"
  using assms(2-4)
proof (induction as arbitrary: s)
  case (Cons a as)
  then obtain s1 where "pool_step a s = Some s1" "pool_run as s1 = Some s'" by (auto split: option.splits)
  with Cons assms(1) show ?case by auto
qed simp

subsection \<open>Invariants\<close>

text \<open>Queue accounting for a pool with the limit \<open>m\<close>.\<close>

definition pool_account :: "nat \<Rightarrow> 't pool \<Rightarrow> bool" where
  "pool_account m s \<longleftrightarrow> po_maxQueueSize s = m \<and> po_accepted s = po_started s @ po_tasks s \<and>
     (0 < m \<longrightarrow> length (po_tasks s) \<le> m) \<and> map fst (filter snd (po_answers s)) = map Some (po_accepted s)"

lemma pred_optionD: "pred_option P x \<Longrightarrow> x = Some y \<Longrightarrow> P y"
  by simp

lemma worker_account: "pool_account m s \<Longrightarrow> pred_option (pool_account m) (worker_step k s)"
  unfolding worker_step_def
  by (cases "po_workers s ! k"; cases "po_tasks s"; simp add: pool_account_def set_worker_def pushFinished_def; linarith?)

lemma supervisor_account: "pool_account m s \<Longrightarrow> pred_option (pool_account m) (supervisor_step s)"
  unfolding supervisor_step_def
  by (cases "po_supervisor s"; cases "po_finished s"; simp add: pool_account_def set_worker_def)

lemma client_account: "pool_account m s \<Longrightarrow> pred_option (pool_account m) (client_step s)"
  unfolding client_step_def by (cases "po_client s"; simp add: pool_account_def start_threads_def)

lemma submit_account:
  "pool_account m s \<Longrightarrow> pred_option (pool_account m) (submit_push i s)" "pool_account m s \<Longrightarrow> pool_account m (submit_test t s)"
  by (simp_all add: submit_push_def submit_test_def pool_account_def Let_def split: option.split)

lemma account_step: "pool_account m s \<Longrightarrow> pred_option (pool_account m) (pool_step a s)"
  using worker_account [of m s] supervisor_account [of m s] client_account [of m s] submit_account [of m s]
  by (cases a) (simp_all add: pool_start_def pool_stop_def stop_begin_def start_threads_def notify_one_def
      set_worker_def pool_account_def split: option.split)

text \<open>Who holds the mutex of the tasks, and what a worker about to sleep has seen.\<close>

definition holds :: "'t worker_pc \<Rightarrow> bool" where
  "holds p \<longleftrightarrow> p = W_Test \<or> p = W_Wait \<or> p = W_After \<or> p = W_Take"

lemma holds_simps [simp]:
  "holds W_Test" "holds W_Wait" "holds W_After" "holds W_Take" "\<not> holds W_Top" "\<not> holds W_Lock" "\<not> holds W_Sleep"
  "\<not> holds W_Wake" "\<not> holds (W_Run t)" "\<not> holds W_Exit" "\<not> holds W_Done"
  by (simp_all add: holds_def)

definition lock_ok :: "'t worker_pc list \<Rightarrow> nat option \<Rightarrow> 't list \<Rightarrow> bool" where
  "lock_ok ws owner ts \<longleftrightarrow>
     (\<forall>k<length ws. holds (ws ! k) \<longleftrightarrow> owner = Some k) \<and> (\<forall>k. owner = Some k \<longrightarrow> k < length ws) \<and>
     (W_Wait \<in> set ws \<longrightarrow> ts = [])"

definition pool_lock :: "'t pool \<Rightarrow> bool" where
  "pool_lock s \<longleftrightarrow> lock_ok (po_workers s) (po_tasksOwner s) (po_tasks s)"

text \<open>The life of the threads.\<close>

definition alive :: "'t worker_pc \<Rightarrow> bool" where
  "alive p \<longleftrightarrow> p \<noteq> W_Exit \<and> p \<noteq> W_Done"

abbreviation all_done :: "'t worker_pc list \<Rightarrow> bool" where
  "all_done ws \<equiv> list_all (\<lambda>w. w = W_Done) ws"

definition client_ok :: "bool \<Rightarrow> 't worker_pc list \<Rightarrow> supervisor_pc \<Rightarrow> client_pc \<Rightarrow> bool" where
  "client_ok running ws v c =
     (case c of
        C_Idle \<Rightarrow> if running then ws \<noteq> [] \<and> list_all alive ws else all_done ws \<and> v = V_Done
      | C_NotifyTasks \<Rightarrow> \<not> running
      | C_NotifyFinished \<Rightarrow> \<not> running
      | C_Join j \<Rightarrow> \<not> running \<and> all_done (take j ws)
      | C_JoinSupervisor \<Rightarrow> \<not> running \<and> all_done ws)"

definition supervisor_ok :: "bool \<Rightarrow> nat \<Rightarrow> supervisor_pc \<Rightarrow> bool" where
  "supervisor_ok running n v =
     (case v of V_Join i \<Rightarrow> i < n | V_Check i \<Rightarrow> \<not> running | V_Spawn i \<Rightarrow> False | _ \<Rightarrow> True)"

definition life :: "bool \<Rightarrow> 't worker_pc list \<Rightarrow> client_pc \<Rightarrow> supervisor_pc \<Rightarrow> bool" where
  "life running ws c v \<longleftrightarrow> client_ok running ws v c \<and> supervisor_ok running (length ws) v"

definition pool_life :: "'t pool \<Rightarrow> bool" where
  "pool_life s \<longleftrightarrow> life (po_running s) (po_workers s) (po_client s) (po_supervisor s) \<and> po_replaced s = 0"

lemma list_all_upd: "list_all P xs \<Longrightarrow> (i < length xs \<Longrightarrow> P x) \<Longrightarrow> list_all P (xs[i := x])"
  by (cases "i < length xs") (auto simp: list_all_length nth_list_update)

lemma list_all_done_upd:
  assumes "list_all (\<lambda>w. w = W_Done) (take j ws)" "ws ! k \<noteq> W_Done"
  shows "list_all (\<lambda>w. w = W_Done) (take j (ws[k := p]))"
proof (cases "k < j \<and> k < length ws")
  case True
  then have "take j ws ! k = W_Done" using assms(1) by (simp add: list_all_length)
  with True assms(2) show ?thesis by simp
next
  case False
  then have "j \<le> k \<or> length ws \<le> k" by auto
  then have "take j (ws[k := p]) = take j ws" by (elim disjE) (simp_all add: list_update_beyond)
  with assms(1) show ?thesis by simp
qed

lemma life_worker:
  assumes l: "life r ws c v" and k: "k < length ws" "ws ! k \<noteq> W_Done" and a: "r \<Longrightarrow> alive (ws ! k) \<Longrightarrow> alive p"
    and v: "v' = v \<or> (v = V_Sleep \<and> v' = V_Wake)"
  shows "life r (ws[k := p]) c v'"
proof -
  have nd: "\<not> all_done ws" using k by (auto simp: list_all_length)
  have alive: "list_all alive (ws[k := p])" if "r" "list_all alive ws"
    using that k(1) a by (intro list_all_upd) (auto simp: list_all_length)
  have "supervisor_ok r (length ws) v'" using l v by (auto simp: life_def supervisor_ok_def)
  moreover have "client_ok r (ws[k := p]) v' c"
    using l nd alive list_all_done_upd [of _ ws k p] k
    by (cases c) (auto simp: life_def client_ok_def split: if_splits)
  ultimately show ?thesis by (simp add: life_def)
qed

lemma life_supervisor:
  "life r ws c V_Top \<Longrightarrow> life r ws c V_Lock" "\<not> r \<Longrightarrow> life r ws c V_Top \<Longrightarrow> life r ws c V_Done"
  "life r ws c V_Lock \<Longrightarrow> life r ws c V_Test" "life r ws c V_Wake \<Longrightarrow> life r ws c V_Test"
  "life r ws c V_Test \<Longrightarrow> life r ws c V_Wait" "life r ws c V_Test \<Longrightarrow> life r ws c V_After"
  "life r ws c V_Wait \<Longrightarrow> life r ws c V_Sleep" "life r ws c V_Sleep \<Longrightarrow> life r ws c V_Wake"
  "life r ws c V_After \<Longrightarrow> life r ws c V_Top" "life r ws c V_After \<Longrightarrow> life r ws c V_Done"
  "life r ws c V_After \<Longrightarrow> i < length ws \<Longrightarrow> life r ws c (V_Join i)"
  "life r ws c (V_Check i) \<Longrightarrow> life r ws c V_Done"
  by (cases c; auto simp: life_def client_ok_def supervisor_ok_def split: if_splits)+

lemma life_never: "life r ws c (V_Spawn i) \<Longrightarrow> P" "life r ws c (V_Check i) \<Longrightarrow> \<not> r"
  by (simp_all add: life_def supervisor_ok_def)

lemma life_join: "life r ws c (V_Join i) \<Longrightarrow> ws ! i = W_Done \<Longrightarrow> life r ws c (V_Check i)"
  by (cases c) (auto simp: life_def client_ok_def supervisor_ok_def list_all_length alive_def split: if_splits)

lemma list_all_join: "list_all P (take j ws) \<Longrightarrow> j < length ws \<Longrightarrow> P (ws ! j) \<Longrightarrow> list_all P (take (Suc j) ws)"
  by (simp add: take_Suc_conv_app_nth)

lemma life_client:
  "life r ws C_Idle v \<Longrightarrow> r \<Longrightarrow> life False ws C_NotifyTasks v"
  "life r ws C_NotifyFinished v \<Longrightarrow> life r ws (C_Join 0) v"
  "life r ws C_NotifyFinished V_Sleep \<Longrightarrow> life r ws (C_Join 0) V_Wake"
  "life r ws (C_Join j) v \<Longrightarrow> length ws \<le> j \<Longrightarrow> life r ws C_JoinSupervisor v"
  "life r ws (C_Join j) v \<Longrightarrow> j < length ws \<Longrightarrow> ws ! j = W_Done \<Longrightarrow> life r ws (C_Join (Suc j)) v"
  "life r ws C_JoinSupervisor V_Done \<Longrightarrow> life r ws C_Idle V_Done"
  by (simp_all add: life_def client_ok_def supervisor_ok_def list_all_join split: supervisor_pc.splits)

lemma life_notify_all: "life r ws C_NotifyTasks v \<Longrightarrow> life r (wake_all ws) C_NotifyFinished v"
  by (auto simp: life_def client_ok_def wake_all_def)

lemma life_started: "n \<noteq> 0 \<Longrightarrow> life True (replicate n W_Top) C_Idle V_Top"
  by (simp add: life_def client_ok_def supervisor_ok_def alive_def list_all_length)

definition worker_moves :: "nat \<Rightarrow> 't pool \<Rightarrow> 't pool \<Rightarrow> bool" where
  "worker_moves k s s' \<longleftrightarrow>
     po_workers s' = (po_workers s)[k := po_workers s' ! k] \<and> po_workers s ! k \<noteq> W_Done \<and>
     (po_running s \<and> alive (po_workers s ! k) \<longrightarrow> alive (po_workers s' ! k)) \<and>
     po_running s' = po_running s \<and> po_client s' = po_client s \<and> po_replaced s' = po_replaced s \<and>
     (po_supervisor s' = po_supervisor s \<or> (po_supervisor s = V_Sleep \<and> po_supervisor s' = V_Wake))"

lemma worker_effect: "k < length (po_workers s) \<Longrightarrow> pred_option (worker_moves k s) (worker_step k s)"
  unfolding worker_step_def
  by (cases "po_workers s ! k"; cases "po_tasks s"; simp add: worker_moves_def set_worker_def pushFinished_def alive_def)

lemma life_worker_moves: "worker_moves k s s' \<Longrightarrow> k < length (po_workers s) \<Longrightarrow> pool_life s \<Longrightarrow> pool_life s'"
  using life_worker [of "po_running s" "po_workers s" "po_client s" "po_supervisor s" k "po_workers s' ! k" "po_supervisor s'"]
  unfolding worker_moves_def pool_life_def by auto

lemma life_set_worker:
  "pool_life s \<Longrightarrow> k < length (po_workers s) \<Longrightarrow> po_workers s ! k = W_Sleep \<Longrightarrow> pool_life (set_worker k W_Wake s)"
  by (rule life_worker_moves [of k s]) (simp_all add: worker_moves_def set_worker_def alive_def)

lemma supervisor_life: "pool_life s \<Longrightarrow> pred_option pool_life (supervisor_step s)"
  unfolding supervisor_step_def
  by (cases "po_supervisor s"; cases "po_finished s"; simp add: pool_life_def;
      auto intro: life_supervisor life_join elim: life_never(1) dest: life_never(2))

lemma client_life: "pool_life s \<Longrightarrow> pred_option pool_life (client_step s)"
  unfolding client_step_def
  by (cases "po_client s"; simp add: pool_life_def start_threads_def; auto intro: life_client life_notify_all life_started)

lemma other_life:
  "pool_life s \<Longrightarrow> pred_option pool_life (submit_push i s)" "pool_life s \<Longrightarrow> pool_life (submit_test t s)"
  "pool_life s \<Longrightarrow> pred_option pool_life (pool_start n s)" "pool_life s \<Longrightarrow> pred_option pool_life (pool_stop s)"
  by (auto simp: submit_push_def submit_test_def pool_start_def pool_stop_def stop_begin_def start_threads_def Let_def
      pool_life_def intro: life_client life_started split: option.split)

lemma notify_life: "pool_life s \<Longrightarrow> pred_option pool_life (notify_one w s)"
  using life_set_worker [of "s\<lparr>po_notify := po_notify s - 1\<rparr>"] by (cases w) (simp_all add: notify_one_def pool_life_def)

lemma life_step: "pool_life s \<Longrightarrow> pred_option pool_life (pool_step a s)"
proof (cases a)
  case (Work k)
  assume "pool_life s"
  then show ?thesis using worker_effect [of k s] life_worker_moves [of k s] Work
    by (cases "k < length (po_workers s)"; cases "worker_step k s"; simp)
next
  case SpuriousSupervisor
  assume "pool_life s"
  then show ?thesis using SpuriousSupervisor by (auto simp: pool_life_def intro: life_supervisor)
qed (simp_all add: supervisor_life client_life other_life notify_life life_set_worker)

lemma no_holder: "lock_ok ws None ts \<Longrightarrow> w \<in> set ws \<Longrightarrow> \<not> holds w"
  by (auto simp: lock_ok_def in_set_conv_nth)

lemma lock_keep:
  "lock_ok ws ow ts \<Longrightarrow> k < length ws \<Longrightarrow> holds (ws ! k) \<longleftrightarrow> holds p \<Longrightarrow> p \<noteq> W_Wait \<or> ts = [] \<Longrightarrow> lock_ok (ws[k := p]) ow ts"
  unfolding lock_ok_def by (auto simp: nth_list_update dest!: subsetD [OF set_update_subset_insert])

lemma lock_acquire:
  assumes "lock_ok ws None ts" "k < length ws" "holds p" "p \<noteq> W_Wait"
  shows "lock_ok (ws[k := p]) (Some k) ts"
  using assms unfolding lock_ok_def by (auto simp: nth_list_update dest!: subsetD [OF set_update_subset_insert])

lemma lock_release:
  assumes l: "lock_ok ws ow ts" and k: "k < length ws" "holds (ws ! k)" and p: "\<not> holds p"
  shows "lock_ok (ws[k := p]) None ts'"
proof -
  have nh: "\<not> holds (ws[k := p] ! i)" if "i < length ws" for i
    using that l k p by (cases "i = k") (auto simp: lock_ok_def)
  then have "W_Wait \<notin> set (ws[k := p])" by (metis holds_simps(2) in_set_conv_nth length_list_update)
  with nh show ?thesis by (simp add: lock_ok_def)
qed

lemma waiting_empty: "lock_ok ws ow ts \<Longrightarrow> k < length ws \<Longrightarrow> ws ! k = W_Wait \<Longrightarrow> ts = []"
  using nth_mem [of k ws] by (simp add: lock_ok_def)

lemma lock_wake_all: "lock_ok ws ow ts \<Longrightarrow> lock_ok (wake_all ws) ow ts"
  by (auto simp: lock_ok_def wake_all_def)

lemma lock_push: "lock_ok ws None ts \<Longrightarrow> lock_ok ws None ts'"
  by (auto simp: lock_ok_def in_set_conv_nth)

lemma lock_started: "n \<noteq> 0 \<Longrightarrow> lock_ok (replicate n W_Top) None ts"
  by (simp add: lock_ok_def)

lemma all_done_unlocked: "lock_ok ws ow ts \<Longrightarrow> all_done ws \<Longrightarrow> ow = None"
  by (cases ow) (auto simp: lock_ok_def list_all_length)

lemma worker_lock: "pool_lock s \<Longrightarrow> k < length (po_workers s) \<Longrightarrow> pred_option pool_lock (worker_step k s)"
  unfolding worker_step_def
  by (cases "po_workers s ! k"; cases "po_tasks s"; simp add: pool_lock_def set_worker_def pushFinished_def;
      auto intro: lock_keep lock_acquire lock_release)

lemma supervisor_lock: "pool_lock s \<Longrightarrow> pool_life s \<Longrightarrow> pred_option pool_lock (supervisor_step s)"
  unfolding supervisor_step_def
  by (cases "po_supervisor s"; cases "po_finished s"; simp add: pool_lock_def pool_life_def; auto elim: life_never(1))

lemma start_threads_lock: "pool_lock s \<Longrightarrow> all_done (po_workers s) \<Longrightarrow> n \<noteq> 0 \<Longrightarrow> pool_lock (start_threads n s)"
  using all_done_unlocked [of "po_workers s" "po_tasksOwner s" "po_tasks s"]
  by (simp add: pool_lock_def start_threads_def lock_started)

lemma idle_done: "pool_life s \<Longrightarrow> po_client s = C_Idle \<Longrightarrow> \<not> po_running s \<Longrightarrow> all_done (po_workers s) \<and> po_supervisor s = V_Done"
  by (simp add: pool_life_def life_def client_ok_def)

lemma joined_done: "pool_life s \<Longrightarrow> po_client s = C_JoinSupervisor \<Longrightarrow> all_done (po_workers s) \<and> \<not> po_running s"
  by (simp add: pool_life_def life_def client_ok_def)

lemma client_lock: "pool_lock s \<Longrightarrow> pool_life s \<Longrightarrow> pred_option pool_lock (client_step s)"
  using start_threads_lock [of s "po_next s"] joined_done [of s] lock_wake_all [of "po_workers s" "po_tasksOwner s" "po_tasks s"]
  unfolding client_step_def by (cases "po_client s") (auto simp: pool_lock_def)

lemma other_lock:
  "pool_lock s \<Longrightarrow> pred_option pool_lock (submit_push i s)" "pool_lock s \<Longrightarrow> pool_lock (submit_test t s)"
  "pool_lock s \<Longrightarrow> pool_life s \<Longrightarrow> pred_option pool_lock (pool_start n s)" "pool_lock s \<Longrightarrow> pred_option pool_lock (pool_stop s)"
  using start_threads_lock [of s n] idle_done [of s]
  by (auto simp: submit_push_def submit_test_def pool_start_def pool_stop_def stop_begin_def Let_def
      pool_lock_def intro: lock_push split: option.split)

lemma wake_lock:
  "pool_lock s \<Longrightarrow> k < length (po_workers s) \<Longrightarrow> po_workers s ! k = W_Sleep \<Longrightarrow> pool_lock (set_worker k W_Wake s)"
  by (simp add: pool_lock_def set_worker_def lock_keep)

lemma notify_lock: "pool_lock s \<Longrightarrow> pred_option pool_lock (notify_one w s)"
  using wake_lock [of "s\<lparr>po_notify := po_notify s - 1\<rparr>"] by (cases w) (simp_all add: notify_one_def pool_lock_def)

lemma lock_step: "pool_lock s \<Longrightarrow> pool_life s \<Longrightarrow> pred_option pool_lock (pool_step a s)"
  by (cases a) (simp_all add: worker_lock supervisor_lock client_lock other_lock notify_lock wake_lock pool_lock_def [of "s\<lparr>po_supervisor := V_Wake\<rparr>"]
      pool_lock_def [of s, symmetric])

text \<open>The mutex of the finished workers and the sleep of the supervisor; the tasks nobody has been told of.\<close>

definition sync_ok :: "bool \<Rightarrow> supervisor_pc \<Rightarrow> 't worker_pc list \<Rightarrow> bool" where
  "sync_ok held v ws \<longleftrightarrow> (held \<longleftrightarrow> v = V_Test \<or> v = V_Wait \<or> v = V_After) \<and> (v = V_Wait \<or> v = V_Sleep \<longrightarrow> \<not> all_done ws)"

definition pool_sync :: "'t pool \<Rightarrow> bool" where
  "pool_sync s \<longleftrightarrow> sync_ok (po_finishedHeld s) (po_supervisor s) (po_workers s)"

abbreviation all_asleep :: "'t worker_pc list \<Rightarrow> bool" where
  "all_asleep ws \<equiv> list_all (\<lambda>w. w = W_Sleep) ws"

definition pool_awake :: "'t pool \<Rightarrow> bool" where
  "pool_awake s \<longleftrightarrow> (po_running s \<and> po_tasks s \<noteq> [] \<longrightarrow> 0 < po_notify s \<or> \<not> all_asleep (po_workers s))"

lemma not_all_upd: "k < length ws \<Longrightarrow> p \<noteq> q \<Longrightarrow> \<not> list_all (\<lambda>w. w = q) (ws[k := p])"
  by (auto simp: list_all_length)

lemma sync_keep: "sync_ok h v ws \<Longrightarrow> k < length ws \<Longrightarrow> p \<noteq> W_Done \<Longrightarrow> sync_ok h v (ws[k := p])"
  by (auto simp: sync_ok_def not_all_upd)

lemma worker_sync: "pool_sync s \<Longrightarrow> k < length (po_workers s) \<Longrightarrow> pred_option pool_sync (worker_step k s)"
  unfolding worker_step_def
  by (cases "po_workers s ! k"; cases "po_tasks s"; simp add: pool_sync_def set_worker_def pushFinished_def sync_keep;
      simp add: sync_ok_def)

lemma running_alive: "pool_life s \<Longrightarrow> po_running s \<Longrightarrow> po_workers s \<noteq> [] \<and> list_all alive (po_workers s) \<and> po_client s = C_Idle"
  by (auto simp: pool_life_def life_def client_ok_def split: client_pc.splits)

lemma running_not_done: "pool_life s \<Longrightarrow> po_running s \<Longrightarrow> \<not> all_done (po_workers s)"
  using running_alive [of s] by (cases "po_workers s") (auto simp: alive_def)

lemma supervisor_sync: "pool_sync s \<Longrightarrow> pool_life s \<Longrightarrow> pred_option pool_sync (supervisor_step s)"
  using running_not_done [of s] unfolding supervisor_step_def
  by (cases "po_supervisor s"; cases "po_finished s"; simp add: pool_sync_def sync_ok_def; auto simp: pool_life_def elim: life_never(1))

lemma all_done_wake_all: "all_done (wake_all ws) = all_done ws"
  by (auto simp: wake_all_def list_all_iff)

lemma start_threads_sync: "pool_sync s \<Longrightarrow> po_supervisor s = V_Done \<Longrightarrow> pool_sync (start_threads n s)"
  by (simp add: pool_sync_def start_threads_def sync_ok_def)

lemma client_sync: "pool_sync s \<Longrightarrow> pred_option pool_sync (client_step s)"
  using start_threads_sync [of s "po_next s"] unfolding client_step_def
  by (cases "po_client s") (auto simp: pool_sync_def sync_ok_def all_done_wake_all)

lemma other_sync:
  "pool_sync s \<Longrightarrow> pred_option pool_sync (submit_push i s)" "pool_sync s \<Longrightarrow> pool_sync (submit_test t s)"
  "pool_sync s \<Longrightarrow> pool_life s \<Longrightarrow> pred_option pool_sync (pool_start n s)" "pool_sync s \<Longrightarrow> pred_option pool_sync (pool_stop s)"
  "pool_sync s \<Longrightarrow> po_supervisor s = V_Sleep \<Longrightarrow> pool_sync (s\<lparr>po_supervisor := V_Wake\<rparr>)"
  using start_threads_sync [of s n] idle_done [of s]
  by (auto simp: submit_push_def submit_test_def pool_start_def pool_stop_def stop_begin_def Let_def
      pool_sync_def sync_ok_def split: option.split)

lemma wake_sync: "pool_sync s \<Longrightarrow> k < length (po_workers s) \<Longrightarrow> pool_sync (set_worker k W_Wake s)"
  by (simp add: pool_sync_def set_worker_def sync_keep)

lemma notify_sync: "pool_sync s \<Longrightarrow> pred_option pool_sync (notify_one w s)"
  using wake_sync [of "s\<lparr>po_notify := po_notify s - 1\<rparr>"] by (cases w) (simp_all add: notify_one_def pool_sync_def)

lemma sync_step: "pool_sync s \<Longrightarrow> pool_life s \<Longrightarrow> pred_option pool_sync (pool_step a s)"
  by (cases a) (simp_all add: worker_sync supervisor_sync client_sync other_sync notify_sync wake_sync)

lemma worker_awake:
  assumes "pool_awake s" "pool_lock s" "k < length (po_workers s)"
  shows "pred_option pool_awake (worker_step k s)"
proof -
  have "po_tasks s = []" if "po_workers s ! k = W_Wait"
    using that assms(2,3) waiting_empty [of "po_workers s"] by (simp add: pool_lock_def)
  with assms(1,3) show ?thesis unfolding worker_step_def
    by (cases "po_workers s ! k"; cases "po_tasks s"; simp add: pool_awake_def set_worker_def pushFinished_def not_all_upd)
qed

lemma supervisor_awake: "pool_awake s \<Longrightarrow> pool_life s \<Longrightarrow> pred_option pool_awake (supervisor_step s)"
  unfolding supervisor_step_def
  by (cases "po_supervisor s"; cases "po_finished s"; simp add: pool_awake_def; auto simp: pool_life_def elim: life_never(1))

lemma start_threads_awake: "n \<noteq> 0 \<Longrightarrow> pool_awake (start_threads n s)"
  by (simp add: pool_awake_def start_threads_def list_all_iff)

lemma client_awake: "pool_awake s \<Longrightarrow> pool_life s \<Longrightarrow> pred_option pool_awake (client_step s)"
  using start_threads_awake [of "po_next s" s] running_alive [of s] unfolding client_step_def
  by (cases "po_client s") (auto simp: pool_awake_def)

lemma other_awake:
  "pool_awake s \<Longrightarrow> pred_option pool_awake (submit_push i s)" "pool_awake s \<Longrightarrow> pool_awake (submit_test t s)"
  "pool_awake s \<Longrightarrow> pred_option pool_awake (pool_start n s)" "pool_awake s \<Longrightarrow> pred_option pool_awake (pool_stop s)"
  "pool_awake (s\<lparr>po_supervisor := v\<rparr>) = pool_awake s"
  using start_threads_awake [of n s]
  by (auto simp: submit_push_def submit_test_def pool_start_def pool_stop_def stop_begin_def Let_def
      pool_awake_def split: option.split)

lemma wake_awake: "k < length (po_workers s) \<Longrightarrow> pool_awake (set_worker k W_Wake s)"
  by (simp add: pool_awake_def set_worker_def not_all_upd)

lemma notify_awake: "pool_awake s \<Longrightarrow> pool_life s \<Longrightarrow> pred_option pool_awake (notify_one w s)"
  using wake_awake [of _ "s\<lparr>po_notify := po_notify s - 1\<rparr>"] running_alive [of s]
  by (cases w) (auto simp: notify_one_def pool_awake_def list_all_iff)

lemma awake_step: "pool_awake s \<Longrightarrow> pool_lock s \<Longrightarrow> pool_life s \<Longrightarrow> pred_option pool_awake (pool_step a s)"
  by (cases a) (simp_all add: worker_awake supervisor_awake client_awake other_awake notify_awake wake_awake)

text \<open>All of it, for every state a pool can reach.\<close>

definition pool_inv :: "nat \<Rightarrow> 't pool \<Rightarrow> bool" where
  "pool_inv m s \<longleftrightarrow> pool_account m s \<and> pool_life s \<and> pool_lock s \<and> pool_sync s \<and> pool_awake s"

definition pool_reach :: "nat \<Rightarrow> 't pool \<Rightarrow> bool" where
  "pool_reach m s \<longleftrightarrow> (\<exists>as. pool_run as (pool_new m) = Some s)"

lemma inv_step: "pool_step a s = Some s' \<Longrightarrow> pool_inv m s \<Longrightarrow> pool_inv m s'"
  using account_step [of m s a] life_step [of s a] lock_step [of s a] sync_step [of s a] awake_step [of s a]
  by (simp add: pool_inv_def)

lemma inv_new: "pool_inv m (pool_new m)"
  by (simp add: pool_inv_def pool_new_def pool_account_def pool_life_def life_def client_ok_def supervisor_ok_def
      pool_lock_def lock_ok_def pool_sync_def sync_ok_def pool_awake_def)

lemma pool_inv_run: "pool_run as s = Some s' \<Longrightarrow> pool_inv m s \<Longrightarrow> pool_inv m s'"
  using pool_run_invariant [of "\<lambda>_. True" "pool_inv m" as s s'] inv_step by (auto simp: list_all_length)

lemma reach_inv: "pool_reach m s \<Longrightarrow> pool_inv m s"
  unfolding pool_reach_def using pool_inv_run inv_new by blast

subsection \<open>What the pool promises\<close>

text \<open>
  C4: tasks are started in the order in which they were queued, each once and none that was not
  accepted; the queue never exceeds its limit, and \<open>submit\<close> answers true for the queued tasks and for
  no other.\<close>

theorem pool_tasks_in_order:
  assumes "pool_reach m s"
  shows "po_accepted s = po_started s @ po_tasks s \<and> (0 < m \<longrightarrow> length (po_tasks s) \<le> m) \<and>
    map fst (filter snd (po_answers s)) = map Some (po_accepted s)"
  using reach_inv [OF assms] by (simp add: pool_inv_def pool_account_def)

text \<open>
  C25: the supervisor never replaces a worker, in no run of the pool: while the pool runs, none of
  its workers has left its loop, so there is nothing to replace; when \<open>stop\<close> has returned, every worker
  and the supervisor have ended.\<close>

theorem pool_never_restarts:
  assumes "pool_reach m s"
  shows "po_replaced s = 0 \<and> (po_running s \<longrightarrow> po_workers s \<noteq> [] \<and> list_all alive (po_workers s)) \<and>
    (\<not> po_running s \<and> po_client s = C_Idle \<longrightarrow> all_done (po_workers s) \<and> po_supervisor s = V_Done)"
proof -
  have l: "pool_life s" using reach_inv [OF assms] by (simp add: pool_inv_def)
  then have "po_replaced s = 0" by (simp add: pool_life_def)
  with running_alive [OF l] idle_done [OF l] show ?thesis by blast
qed

text \<open>
  \<open>m_tasksMutex\<close> excludes: of two workers at most one is between taking it and letting it go, and
  a worker about to sleep has seen the queue empty and it still is.\<close>

theorem pool_mutual_exclusion:
  assumes "pool_reach m s" "i < length (po_workers s)" "j < length (po_workers s)"
    "holds (po_workers s ! i)" "holds (po_workers s ! j)"
  shows "i = j \<and> (po_workers s ! i = W_Wait \<longrightarrow> po_tasks s = [])"
proof -
  have "pool_lock s" using reach_inv [OF assms(1)] by (simp add: pool_inv_def)
  then have l: "lock_ok (po_workers s) (po_tasksOwner s) (po_tasks s)" by (simp add: pool_lock_def)
  have "i = j" using l assms(2-5) by (auto simp: lock_ok_def)
  with waiting_empty [OF l assms(2)] show ?thesis by blast
qed

paragraph \<open>Queued tasks are started\<close>

fun pool_own :: "'t pool_act \<Rightarrow> bool" where
  "pool_own (Work k) = True"
| "pool_own (NotifyOne w) = True"
| "pool_own a = False"

fun start_rank :: "'t worker_pc \<Rightarrow> nat" where
  "start_rank W_Take = 1"
| "start_rank W_After = 2"
| "start_rank W_Test = 3"
| "start_rank W_Wake = 4"
| "start_rank W_Lock = 4"
| "start_rank W_Sleep = 5"
| "start_rank W_Top = 5"
| "start_rank (W_Run t) = 6"
| "start_rank p = 6"

lemma sum_list_less_upd: "k < length ws \<Longrightarrow> (f p :: nat) < f (ws ! k) \<Longrightarrow> sum_list (map f (ws[k := p])) < sum_list (map f ws)"
  by (induction ws arbitrary: k) (auto split: nat.splits)

lemma sum_list_bound: "(\<And>p. f p \<le> (c::nat)) \<Longrightarrow> sum_list (map f ws) \<le> c * length ws"
  by (induction ws) (auto simp: add_mono)

definition start_wait :: "'t pool \<Rightarrow> nat" where
  "start_wait s = sum_list (map start_rank (po_workers s)) + po_notify s"

definition nearer :: "'t pool \<Rightarrow> 't pool \<Rightarrow> bool" where
  "nearer s s' \<longleftrightarrow> po_accepted s' = po_accepted s \<and> po_running s' = po_running s \<and> 
     (length (po_started s) < length (po_started s') \<or>
     (po_started s' = po_started s \<and> po_tasks s' = po_tasks s \<and> start_wait s' < start_wait s))"

lemma worker_nearer:
  assumes "pool_lock s" "pool_life s" "po_running s" "po_tasks s \<noteq> []" "k < length (po_workers s)"
  shows "pred_option (nearer s) (worker_step k s)"
proof -
  have w: "po_workers s ! k \<noteq> W_Wait" using assms(1,4,5) waiting_empty [of "po_workers s"] by (auto simp: pool_lock_def)
  have a: "alive (po_workers s ! k)" using running_alive [of s] assms(2,3,5) by (auto simp: list_all_length)
  show ?thesis using assms(3-5) w a sum_list_less_upd [OF assms(5), of start_rank]
    unfolding worker_step_def
    by (cases "po_workers s ! k"; cases "po_tasks s"; simp add: nearer_def start_wait_def set_worker_def alive_def)
qed

lemma notify_nearer: "pred_option (nearer s) (notify_one w s)"
proof (cases w)
  case (Some k)
  then show ?thesis using sum_list_less_upd [of k "po_workers s" start_rank W_Wake]
    by (cases "k < length (po_workers s) \<and> po_workers s ! k = W_Sleep")
      (auto simp: notify_one_def nearer_def start_wait_def set_worker_def)
qed (auto simp: notify_one_def nearer_def start_wait_def)

lemma own_nearer:
  assumes "pool_inv m s" "po_running s" "po_tasks s \<noteq> []" "pool_own a"
  shows "pred_option (nearer s) (pool_step a s)"
proof (cases a)
  case (Work k)
  with assms worker_nearer [of s k] show ?thesis by (simp add: pool_inv_def)
next
  case (NotifyOne w)
  with notify_nearer show ?thesis by simp
qed (use assms(4) in simp_all)

lemma worker_enabled:
  "po_workers s ! k \<noteq> W_Sleep \<Longrightarrow> alive (po_workers s ! k) \<Longrightarrow>
   (\<not> holds (po_workers s ! k) \<longrightarrow> po_tasksOwner s = None) \<Longrightarrow> worker_step k s \<noteq> None"
  unfolding worker_step_def by (cases "po_workers s ! k"; simp add: alive_def split: list.split)

lemma own_enabled:
  assumes "pool_inv m s" "po_running s" "po_tasks s \<noteq> []"
  shows "\<exists>a. pool_own a \<and> pool_step a s \<noteq> None"
proof -
  have l: "pool_lock s" and aw: "pool_awake s" and ne: "po_workers s \<noteq> []"
    and al: "k < length (po_workers s) \<Longrightarrow> alive (po_workers s ! k)" for k
    using assms(1,2) running_alive [of s] by (auto simp: pool_inv_def list_all_length)
  have work: ?thesis if "k < length (po_workers s)" "worker_step k s \<noteq> None" for k
    using that by (intro exI [of _ "Work k"]) simp
  show ?thesis
  proof (cases "po_tasksOwner s")
    case (Some k)
    then have k: "k < length (po_workers s)" "holds (po_workers s ! k)" using l by (auto simp: pool_lock_def lock_ok_def)
    then have "po_workers s ! k \<noteq> W_Sleep" by auto
    then show ?thesis using k work worker_enabled [of s k] al [of k] by blast
  next
    case None
    show ?thesis
    proof (cases "all_asleep (po_workers s)")
      case True
      then have "pool_step (NotifyOne (Some 0)) s \<noteq> None" using aw assms(2,3) ne
        by (simp add: pool_awake_def notify_one_def list_all_length)
      then show ?thesis by (intro exI [of _ "NotifyOne (Some 0)"]) simp
    next
      case False
      then obtain k where "k < length (po_workers s)" "po_workers s ! k \<noteq> W_Sleep" by (auto simp: list_all_length)
      then show ?thesis using work worker_enabled [of s k] al [of k] None by blast
    qed
  qed
qed

lemma own_run_nearer:
  assumes "pool_run bs s = Some s'" "list_all pool_own bs" "pool_inv m s" "po_running s" "po_tasks s \<noteq> []"
    "start_wait s < length bs"
  shows "\<exists>ds s1. pool_run ds s1 = Some s' \<and> list_all pool_own ds \<and> pool_inv m s1 \<and> po_accepted s1 = po_accepted s \<and>
    length (po_started s) < length (po_started s1)"
  using assms
proof (induction bs arbitrary: s)
  case (Cons b bs)
  from Cons.prems(1) obtain s1 where s1: "pool_step b s = Some s1" "pool_run bs s1 = Some s'" by (auto split: option.splits)
  have n: "nearer s s1" using own_nearer [OF Cons.prems(3-5), of b] Cons.prems(2) s1(1) by simp
  have i: "pool_inv m s1" using inv_step s1(1) Cons.prems(3) .
  show ?case
  proof (cases "length (po_started s) < length (po_started s1)")
    case True
    with n i s1(2) Cons.prems(2) show ?thesis by (intro exI [of _ bs] exI [of _ s1]) (simp add: nearer_def)
  next
    case False
    with n Cons.IH [OF s1(2) _ i] Cons.prems(2,4-6) show ?thesis by (auto simp: nearer_def)
  qed
qed simp

definition started_on :: "'t pool \<Rightarrow> 't pool \<Rightarrow> bool" where
  "started_on s s' \<longleftrightarrow> po_accepted s' = po_accepted s \<and> length (po_started s) \<le> length (po_started s')"

lemma worker_started: "pred_option (started_on s) (worker_step k s)"
  unfolding worker_step_def
  by (cases "po_workers s ! k"; cases "po_tasks s"; simp add: started_on_def set_worker_def pushFinished_def)

lemma own_started: "pool_own a \<Longrightarrow> pred_option (started_on s) (pool_step a s)"
  using worker_started [of s] by (cases a) (simp_all add: notify_one_def set_worker_def started_on_def split: option.split)

lemma own_run_started:
  assumes "pool_run bs s = Some s'" "list_all pool_own bs"
  shows "started_on s s'"
proof (rule pool_run_invariant [of pool_own "started_on s" bs s s'])
  show "started_on s s2" if "pool_own a" "pool_step a s1 = Some s2" "started_on s s1" for a s1 s2
    using own_started [of a s1] that by (simp add: started_on_def)
qed (use assms in \<open>simp_all add: started_on_def\<close>)

lemma start_rank_le: "start_rank p \<le> 6"
  by (cases p) simp_all

text \<open>
  C5: while the pool runs and tasks are queued, it is not stuck: one of its workers can move, or a
  notification of a \<open>submit\<close> is due; and after finitely many such moves, whichever they are, the task at the
  head of the queue has been started. No wakeup for a queued task is lost.\<close>

theorem pool_progress:
  assumes "pool_reach m s" "po_running s" "po_tasks s \<noteq> []"
  shows "(\<exists>a. pool_own a \<and> pool_step a s \<noteq> None) \<and>
    (list_all pool_own bs \<and> 6 * length (po_workers s) + po_notify s < length bs \<and> pool_run bs s = Some s' \<longrightarrow>
     (\<exists>later. po_started s' = po_started s @ hd (po_tasks s) # later))"
proof (intro conjI impI)
  have i: "pool_inv m s" by (rule reach_inv [OF assms(1)])
  then show "\<exists>a. pool_own a \<and> pool_step a s \<noteq> None" using own_enabled assms(2,3) by blast
  assume b: "list_all pool_own bs \<and> 6 * length (po_workers s) + po_notify s < length bs \<and> pool_run bs s = Some s'"
  have "start_wait s < length bs"
    using b sum_list_bound [of start_rank 6 "po_workers s", OF start_rank_le] by (simp add: start_wait_def)
  then obtain ds s1 where "pool_run ds s1 = Some s'" "list_all pool_own ds" "length (po_started s) < length (po_started s1)"
    using own_run_nearer [of bs s s' m] b i assms(2,3) by blast
  then have more: "length (po_started s) < length (po_started s')" using own_run_started by (fastforce simp: started_on_def)
  have "po_started s' @ po_tasks s' = po_started s @ po_tasks s"
    using pool_inv_run [of bs s s' m] own_run_started [of bs s s'] b i
    by (simp add: pool_inv_def pool_account_def started_on_def)
  then have t: "po_started s' = take (length (po_started s')) (po_started s @ po_tasks s)"
    by (metis append_eq_conv_conj)
  obtain d where "length (po_started s') = length (po_started s) + Suc d" using more less_imp_Suc_add by fastforce
  with t have "po_started s' = po_started s @ take (Suc d) (po_tasks s)" by simp
  then show "\<exists>later. po_started s' = po_started s @ hd (po_tasks s) # later"
    using assms(3) by (cases "po_tasks s") simp_all
qed

paragraph \<open>Stopping\<close>

fun pool_thread :: "'t pool_act \<Rightarrow> bool" where
  "pool_thread (Work k) = True"
| "pool_thread Supervise = True"
| "pool_thread Client = True"
| "pool_thread a = False"

definition no_sleeper :: "'t worker_pc list \<Rightarrow> bool" where
  "no_sleeper ws \<longleftrightarrow> list_all (\<lambda>w. w \<noteq> W_Wait \<and> w \<noteq> W_Sleep) ws"

definition pool_stopping :: "'t pool \<Rightarrow> bool" where
  "pool_stopping s \<longleftrightarrow> \<not> po_running s \<and> po_next s = 0 \<and> po_client s \<noteq> C_NotifyTasks \<and> no_sleeper (po_workers s)"

fun exit_rank :: "'t worker_pc \<Rightarrow> nat" where
  "exit_rank W_Done = 0"
| "exit_rank W_Exit = 1"
| "exit_rank W_After = 2"
| "exit_rank W_Test = 3"
| "exit_rank W_Wake = 4"
| "exit_rank W_Lock = 4"
| "exit_rank W_Top = 5"
| "exit_rank (W_Run t) = 6"
| "exit_rank p = 7"

fun supervisor_rank :: "supervisor_pc \<Rightarrow> nat" where
  "supervisor_rank V_Done = 0"
| "supervisor_rank V_Top = 1"
| "supervisor_rank V_After = 2"
| "supervisor_rank V_Test = 3"
| "supervisor_rank (V_Check i) = 2"
| "supervisor_rank (V_Join i) = 3"
| "supervisor_rank V_Lock = 4"
| "supervisor_rank V_Wake = 4"
| "supervisor_rank V_Sleep = 5"
| "supervisor_rank v = 6"

fun client_rank :: "nat \<Rightarrow> client_pc \<Rightarrow> nat" where
  "client_rank n C_Idle = 0"
| "client_rank n C_JoinSupervisor = 1"
| "client_rank n (C_Join j) = n - j + 2"
| "client_rank n c = n + 3"

definition stop_rank :: "'t pool \<Rightarrow> nat" where
  "stop_rank s = sum_list (map exit_rank (po_workers s)) + supervisor_rank (po_supervisor s) +
     client_rank (length (po_workers s)) (po_client s)"

definition closer :: "'t pool \<Rightarrow> 't pool \<Rightarrow> bool" where
  "closer s s' \<longleftrightarrow> pool_stopping s' \<and> length (po_workers s') = length (po_workers s) \<and> stop_rank s' < stop_rank s"

lemma worker_closer:
  assumes "pool_stopping s" "k < length (po_workers s)"
  shows "pred_option (closer s) (worker_step k s)"
proof -
  have k: "po_workers s ! k \<noteq> W_Wait" using assms by (auto simp: pool_stopping_def no_sleeper_def list_all_length)
  have n: "no_sleeper ((po_workers s)[k := p])" if "p \<noteq> W_Wait" "p \<noteq> W_Sleep" for p
    using that assms by (auto simp: pool_stopping_def no_sleeper_def intro: list_all_upd)
  show ?thesis using assms k n sum_list_less_upd [OF assms(2), of exit_rank]
    unfolding worker_step_def
    by (cases "po_workers s ! k"; cases "po_tasks s";
        simp add: closer_def pool_stopping_def stop_rank_def set_worker_def pushFinished_def add_less_mono)
qed

lemma supervisor_closer: "pool_stopping s \<Longrightarrow> pool_life s \<Longrightarrow> pred_option (closer s) (supervisor_step s)"
  unfolding supervisor_step_def
  by (cases "po_supervisor s"; cases "po_finished s"; simp add: closer_def pool_stopping_def stop_rank_def;
      auto simp: pool_life_def elim: life_never(1))

lemma client_closer: "pool_stopping s \<Longrightarrow> pred_option (closer s) (client_step s)"
  unfolding client_step_def by (cases "po_client s"; simp add: closer_def pool_stopping_def stop_rank_def; linarith?)

lemma supervisor_enabled:
  "pool_life s \<Longrightarrow> pool_sync s \<Longrightarrow> all_done (po_workers s) \<Longrightarrow> po_supervisor s \<noteq> V_Done \<Longrightarrow> supervisor_step s \<noteq> None"
  unfolding supervisor_step_def
  by (cases "po_supervisor s"; cases "po_finished s";
      simp add: pool_sync_def sync_ok_def pool_life_def life_def supervisor_ok_def; simp add: list_all_length)

lemma client_enabled:
  "all_done (po_workers s) \<Longrightarrow> po_client s \<noteq> C_Idle \<Longrightarrow> po_client s = C_JoinSupervisor \<longrightarrow> po_supervisor s = V_Done \<Longrightarrow>
   client_step s \<noteq> None"
  unfolding client_step_def by (cases "po_client s"; simp add: list_all_length)

lemma supervisor_holding_enabled: "pool_sync s \<Longrightarrow> po_finishedHeld s \<Longrightarrow> supervisor_step s \<noteq> None"
  unfolding supervisor_step_def by (auto simp: pool_sync_def sync_ok_def split: list.split)

lemma worker_not_done_enabled:
  assumes "pool_lock s" "\<not> po_finishedHeld s" "no_sleeper (po_workers s)" "\<not> all_done (po_workers s)"
  shows "\<exists>k<length (po_workers s). worker_step k s \<noteq> None"
proof -
  have ns: "k < length (po_workers s) \<Longrightarrow> po_workers s ! k \<noteq> W_Sleep" for k
    using assms(3) by (auto simp: no_sleeper_def list_all_length)
  show ?thesis
  proof (cases "po_tasksOwner s")
    case (Some k)
    then have k: "k < length (po_workers s)" "holds (po_workers s ! k)" using assms(1) by (auto simp: pool_lock_def lock_ok_def)
    then have "alive (po_workers s ! k)" by (auto simp: alive_def)
    with k worker_enabled [of s k] ns show ?thesis by blast
  next
    case None
    obtain k where k: "k < length (po_workers s)" "po_workers s ! k \<noteq> W_Done" using assms(4) by (auto simp: list_all_length)
    then have "worker_step k s \<noteq> None"
    proof (cases "po_workers s ! k = W_Exit")
      case True
      then show ?thesis using assms(2) by (simp add: worker_step_def)
    next
      case False
      then show ?thesis using k ns None by (intro worker_enabled) (simp_all add: alive_def)
    qed
    with k show ?thesis by blast
  qed
qed

lemma stopping_enabled:
  assumes "pool_inv m s" "pool_stopping s" "po_client s \<noteq> C_Idle"
  shows "\<exists>a. pool_thread a \<and> pool_step a s \<noteq> None"
proof -
  have i: "pool_lock s" "pool_life s" "pool_sync s" using assms(1) by (simp_all add: pool_inv_def)
  have sup: ?thesis if "supervisor_step s \<noteq> None" using that by (intro exI [of _ Supervise]) simp
  show ?thesis
  proof (cases "all_done (po_workers s)")
    case True
    show ?thesis
    proof (cases "po_supervisor s = V_Done")
      case True
      with \<open>all_done (po_workers s)\<close> have "client_step s \<noteq> None" using assms(3) by (intro client_enabled) simp_all
      then show ?thesis by (intro exI [of _ Client]) simp
    qed (use True supervisor_enabled [OF i(2,3)] sup in blast)
  next
    case False
    show ?thesis
    proof (cases "po_finishedHeld s")
      case True
      then show ?thesis using supervisor_holding_enabled [OF i(3)] sup by blast
    next
      case nh: False
      then obtain k where "k < length (po_workers s)" "worker_step k s \<noteq> None"
        using worker_not_done_enabled [OF i(1)] False assms(2) by (auto simp: pool_stopping_def)
      then show ?thesis by (intro exI [of _ "Work k"]) simp
    qed
  qed
qed

lemma thread_closer: "pool_inv m s \<Longrightarrow> pool_stopping s \<Longrightarrow> pool_thread a \<Longrightarrow> pred_option (closer s) (pool_step a s)"
  using worker_closer [of s] supervisor_closer [of s] client_closer [of s] by (cases a) (simp_all add: pool_inv_def)

lemma thread_run_closer:
  "pool_run bs s = Some s' \<Longrightarrow> list_all pool_thread bs \<Longrightarrow> pool_inv m s \<Longrightarrow> pool_stopping s \<Longrightarrow>
   pool_inv m s' \<and> pool_stopping s' \<and> length bs + stop_rank s' \<le> stop_rank s"
proof (induction bs arbitrary: s)
  case (Cons b bs)
  from Cons.prems(1) obtain s1 where s1: "pool_step b s = Some s1" "pool_run bs s1 = Some s'" by (auto split: option.splits)
  have "closer s s1" using thread_closer [OF Cons.prems(3,4), of b] Cons.prems(2) s1(1) by simp
  moreover have "pool_inv m s1" using inv_step s1(1) Cons.prems(3) .
  ultimately show ?case using Cons.IH [OF s1(2)] Cons.prems(2) by (auto simp: closer_def)
qed simp

lemma exit_rank_le: "exit_rank p \<le> 7"
  by (cases p) simp_all

lemma stop_rank_le: "stop_rank s \<le> 8 * length (po_workers s) + 9"
proof -
  have "supervisor_rank (po_supervisor s) \<le> 6" by (cases "po_supervisor s") simp_all
  moreover have "client_rank (length (po_workers s)) (po_client s) \<le> length (po_workers s) + 3" by (cases "po_client s") simp_all
  ultimately show ?thesis using sum_list_bound [of exit_rank 7 "po_workers s", OF exit_rank_le] by (simp add: stop_rank_def)
qed

text \<open>
  C10: \<open>stop\<close> returns when its \<open>notify_all\<close> met no worker between the test of its wait loop and the
  sleep: from then on the steps of the threads end, after at most \<open>8 n + 9\<close> of them for \<open>n\<close> workers in
  whatever order they come, and where they end \<open>stop\<close> has returned and all threads have ended.\<close>

theorem pool_stop_returns:
  assumes "pool_reach m s" "pool_stopping s" "list_all pool_thread bs" "pool_run bs s = Some s'"
  shows "length bs \<le> 8 * length (po_workers s) + 9 \<and>
    ((\<forall>a. pool_thread a \<longrightarrow> pool_step a s' = None) \<longrightarrow>
     po_client s' = C_Idle \<and> all_done (po_workers s') \<and> po_supervisor s' = V_Done)"
proof -
  have r: "pool_inv m s' \<and> pool_stopping s' \<and> length bs + stop_rank s' \<le> stop_rank s"
    using thread_run_closer [OF assms(4,3) reach_inv [OF assms(1)] assms(2)] .
  then have "pool_life s'" "\<not> po_running s'" by (simp_all add: pool_inv_def pool_stopping_def)
  with r stop_rank_le [of s] stopping_enabled [of m s'] idle_done [of s'] show ?thesis by fastforce
qed

text \<open>
  A worker that sleeps while \<open>stop\<close>, past its notifications, has not joined it yet; and a pool in which no submission is in flight
  and no notification pending.
\<close>

definition overslept :: "nat \<Rightarrow> 't pool \<Rightarrow> bool" where
  "overslept k s \<longleftrightarrow> \<not> po_running s \<and> k < length (po_workers s) \<and> po_workers s ! k = W_Sleep \<and>
     (\<exists>j\<le>k. po_client s = C_Join j)"

definition pool_quiet :: "'t pool \<Rightarrow> bool" where
  "pool_quiet s \<longleftrightarrow> po_submits s = [] \<and> po_notify s = 0"

lemma worker_overslept: "overslept k s \<Longrightarrow> pred_option (\<lambda>s'. overslept k s' \<and> (pool_quiet s \<longrightarrow> pool_quiet s')) (worker_step i s)"
  unfolding worker_step_def pool_quiet_def
  by (cases "i = k"; cases "po_workers s ! i"; cases "po_tasks s"; simp add: overslept_def set_worker_def pushFinished_def)

lemma supervisor_overslept:
  "overslept k s \<Longrightarrow> pool_life s \<Longrightarrow> pred_option (\<lambda>s'. overslept k s' \<and> (pool_quiet s \<longrightarrow> pool_quiet s')) (supervisor_step s)"
  unfolding supervisor_step_def pool_quiet_def
  by (cases "po_supervisor s"; cases "po_finished s"; simp add: overslept_def; auto simp: pool_life_def elim: life_never(1))

lemma client_overslept: "overslept k s \<Longrightarrow> pred_option (\<lambda>s'. overslept k s' \<and> (pool_quiet s \<longrightarrow> pool_quiet s')) (client_step s)"
  unfolding client_step_def pool_quiet_def by (cases "po_client s") (auto simp: overslept_def le_eq_less_or_eq)

lemma notify_overslept:
  "overslept k s \<Longrightarrow> w \<noteq> Some k \<Longrightarrow> pred_option (overslept k) (notify_one w s)"
  by (auto simp: notify_one_def overslept_def set_worker_def split: option.split)

lemma overslept_step:
  assumes "overslept k s" "pool_life s" "a \<noteq> SpuriousWake k" "pool_quiet s \<or> a \<noteq> NotifyOne (Some k)"
  shows "pred_option (\<lambda>s'. overslept k s' \<and> (pool_quiet s \<longrightarrow> pool_quiet s')) (pool_step a s)"
proof (cases a)
  case (SpuriousWake i)
  then show ?thesis using assms by (auto simp: overslept_def set_worker_def pool_quiet_def)
next
  case (NotifyOne w)
  then show ?thesis using assms notify_overslept [of k s w]
    by (cases "pool_quiet s"; cases "notify_one w s") (auto simp: notify_one_def pool_quiet_def)
qed (use assms worker_overslept [of k s] supervisor_overslept [of k s] client_overslept [of k s] in
     \<open>auto simp: overslept_def pool_quiet_def pool_start_def pool_stop_def submit_test_def submit_push_def Let_def split: option.split\<close>)

lemma overslept_run:
  "pool_run bs s = Some s' \<Longrightarrow> list_all (\<lambda>a. a \<noteq> SpuriousWake k) bs \<Longrightarrow> pool_inv m s \<Longrightarrow>
   pool_quiet s \<or> list_all (\<lambda>a. a \<noteq> NotifyOne (Some k)) bs \<Longrightarrow> overslept k s \<Longrightarrow> overslept k s'"
proof (induction bs arbitrary: s)
  case (Cons b bs)
  from Cons.prems(1) obtain s1 where s1: "pool_step b s = Some s1" "pool_run bs s1 = Some s'" by (auto split: option.splits)
  have o: "overslept k s1 \<and> (pool_quiet s \<longrightarrow> pool_quiet s1)"
    using overslept_step [OF Cons.prems(5), of b] Cons.prems(2-4) s1(1) by (auto simp: pool_inv_def)
  show ?case
    by (rule Cons.IH [OF s1(2)]) (use inv_step [OF s1(1) Cons.prems(3)] Cons.prems(2,4) o in auto)
qed simp

text \<open>
  C24: \<open>stop\<close> can hang. \<open>stop\<close> clears \<open>m_running\<close> and notifies without holding \<open>m_tasksMutex\<close>; a worker that
  had just seen \<open>m_running\<close> true goes to sleep after it. If then no submission that had also seen it true is in flight and no
  notification pending, or none of these notifications goes to this worker, then whatever happens, other threads and later calls
  of \<open>submit\<close>, \<open>stop\<close> and \<open>start\<close> included, short of a spurious wakeup: the worker sleeps and \<open>stop\<close> has not joined it, and at its join
  \<open>stop\<close> cannot step. The witness is a run that gets there with one worker.\<close>

theorem pool_stop_hangs:
  assumes "pool_reach m s" "\<not> po_running s" "k < length (po_workers s)" "po_workers s ! k = W_Sleep" "po_client s = C_Join j" "j \<le> k"
    and "po_submits s = [] \<and> po_notify s = 0 \<or> list_all (\<lambda>a. a \<noteq> NotifyOne (Some k)) bs"
    and "list_all (\<lambda>a. a \<noteq> SpuriousWake k) bs" "pool_run bs s = Some s'"
  shows "\<not> po_running s' \<and> po_workers s' ! k = W_Sleep \<and>
    (\<exists>j\<le>k. po_client s' = C_Join j \<and> (j = k \<longrightarrow> client_step s' = None))"
proof -
  have "overslept k s" using assms(2-6) by (auto simp: overslept_def)
  with overslept_run [OF assms(9,8) reach_inv [OF assms(1)]] assms(7) have o: "overslept k s'" by (simp add: pool_quiet_def)
  then obtain j' where j: "j' \<le> k" "po_client s' = C_Join j'" by (auto simp: overslept_def)
  with o have "j' = k \<longrightarrow> client_step s' = None" by (auto simp: client_step_def overslept_def)
  with j o show ?thesis by (auto simp: overslept_def)
qed

text \<open>The supervisor after a restart of the pool.\<close>

definition no_stop :: "'t pool_act \<Rightarrow> bool" where
  "no_stop a \<longleftrightarrow> (case a of Start n \<Rightarrow> False | Stop \<Rightarrow> False | _ \<Rightarrow> True)"

definition joins_live :: "nat \<Rightarrow> 't pool \<Rightarrow> bool" where
  "joins_live i s \<longleftrightarrow> po_running s \<and> po_supervisor s = V_Join i \<and> po_client s = C_Idle"

lemma worker_joins_live: "joins_live i s \<Longrightarrow> pred_option (joins_live i) (worker_step k s)"
  unfolding worker_step_def
  by (cases "po_workers s ! k"; cases "po_tasks s"; simp add: joins_live_def set_worker_def pushFinished_def)

lemma live_not_done: "joins_live i s \<Longrightarrow> pool_life s \<Longrightarrow> i < length (po_workers s) \<and> po_workers s ! i \<noteq> W_Done"
  using running_alive [of s] by (auto simp: joins_live_def pool_life_def life_def supervisor_ok_def list_all_length alive_def)

lemma joins_live_step:
  assumes "joins_live i s" "pool_life s" "no_stop a"
  shows "pred_option (joins_live i) (pool_step a s)"
  using assms worker_joins_live [of i s] live_not_done [of i s]
  by (cases a) (simp_all add: joins_live_def no_stop_def supervisor_step_def client_step_def submit_test_def
      submit_push_def notify_one_def set_worker_def Let_def split: option.split)

lemma joins_live_run:
  "pool_run bs s = Some s' \<Longrightarrow> list_all no_stop bs \<Longrightarrow> pool_inv m s \<Longrightarrow> joins_live i s \<Longrightarrow> pool_inv m s' \<and> joins_live i s'"
proof (induction bs arbitrary: s)
  case (Cons b bs)
  from Cons.prems(1) obtain s1 where s1: "pool_step b s = Some s1" "pool_run bs s1 = Some s'" by (auto split: option.splits)
  have "joins_live i s1" using joins_live_step [OF Cons.prems(4), of b] Cons.prems(2,3) s1(1) by (simp add: pool_inv_def)
  with Cons.IH [OF s1(2)] inv_step [OF s1(1) Cons.prems(3)] Cons.prems(2) show ?case by simp
qed simp

text \<open>
  C26: a supervisor that joins a worker of a running pool joins one that lives, and is blocked until the next
  \<open>stop\<close> or \<open>start\<close>. The witness is a run that gets there: \<open>stop\<close> leaves the ids of its workers in
  \<open>m_finishedIds\<close>, and the supervisor of the next \<open>start\<close> takes one of them.\<close>

theorem pool_supervisor_blocked:
  assumes "pool_reach m s" "po_running s" "po_supervisor s = V_Join i" "list_all no_stop bs" "pool_run bs s = Some s'"
  shows "po_supervisor s' = V_Join i \<and> po_workers s' ! i \<noteq> W_Done \<and> supervisor_step s' = None"
proof -
  have l: "pool_inv m s" by (rule reach_inv [OF assms(1)])
  then have "joins_live i s" using running_alive [of s] assms(2,3) by (simp add: joins_live_def pool_inv_def)
  then have j: "pool_inv m s' \<and> joins_live i s'" using joins_live_run [OF assms(5,4) l] by blast
  with live_not_done [of i s'] show ?thesis by (simp add: joins_live_def pool_inv_def supervisor_step_def)
qed

subsection \<open>Examples\<close>

lemmas pool_eval = pool_new_def pool_start_def pool_stop_def start_threads_def stop_begin_def worker_step_def
  supervisor_step_def client_step_def submit_test_def submit_push_def notify_one_def set_worker_def pushFinished_def
  wake_all_def drop_nth_def

text \<open>One worker asleep, one task queued: the notification wakes it, and six steps later the task runs.\<close>

definition run_queued :: "nat pool_act list" where
  "run_queued = [Start 1, Work 0, Work 0, Work 0, Work 0, SubmitTest (Some 7), SubmitPush 0]"

lemma run_queued_state:
  "pool_run run_queued (pool_new 2) = Some \<lparr>po_maxQueueSize = 2, po_running = True, po_workers = [W_Sleep],
     po_supervisor = V_Top, po_tasks = [7], po_tasksOwner = None, po_finished = [], po_finishedHeld = False,
     po_client = C_Idle, po_next = 0, po_submits = [], po_notify = 1, po_accepted = [7], po_started = [],
     po_answers = [(Some 7, True)], po_replaced = 0\<rparr>"
  by (simp add: run_queued_def pool_eval)

lemma reach_run: "pool_run as (pool_new m) = Some s \<Longrightarrow> pool_reach m s"
  by (auto simp: pool_reach_def)

lemma pool_tasks_in_order_witness:
  "\<exists>s. pool_reach 2 s \<and> po_tasks s = [7 :: nat] \<and> po_accepted s = po_started s @ po_tasks s"
  using pool_tasks_in_order [OF reach_run [OF run_queued_state]] reach_run [OF run_queued_state] by fastforce

lemma pool_never_restarts_witness:
  "\<exists>s. pool_reach 2 (s :: nat pool) \<and> po_running s \<and> list_all alive (po_workers s)"
  using pool_never_restarts [OF reach_run [OF run_queued_state]] reach_run [OF run_queued_state] by fastforce

definition run_two :: "nat pool_act list" where
  "run_two = [Start 2, Work 0, Work 1, Work 1, Work 1]"

lemma pool_mutual_exclusion_witness:
  "\<exists>s. pool_reach 0 (s :: nat pool) \<and> po_workers s = [W_Lock, W_Wait] \<and> po_tasks s = []"
proof -
  obtain s where s: "pool_run run_two (pool_new 0) = Some s" "po_workers s = [W_Lock, W_Wait]"
    by (simp add: run_two_def pool_eval numeral_2_eq_2)
  with pool_mutual_exclusion [OF reach_run [OF s(1)], of 1 1] reach_run [OF s(1)] show ?thesis by auto
qed

lemma pool_progress_witness:
  "\<exists>s s'. pool_reach 2 (s :: nat pool) \<and> (\<exists>a. pool_own a \<and> pool_step a s \<noteq> None) \<and>
     pool_run (NotifyOne (Some 0) # replicate 7 (Work 0)) s = Some s' \<and> (\<exists>later. po_started s' = 7 # later)"
proof -
  obtain s where s: "pool_reach 2 s" "po_running s" "po_tasks s = [7 :: nat]" "po_started s = []" "po_notify s = 1"
    "length (po_workers s) = 1" "\<exists>s'. pool_run (NotifyOne (Some 0) # replicate 7 (Work 0)) s = Some s'"
    using reach_run [OF run_queued_state] by (fastforce simp: pool_eval numeral_eq_Suc)
  then obtain s' where "pool_run (NotifyOne (Some 0) # replicate 7 (Work 0)) s = Some s'" by blast
  moreover have "list_all pool_own (NotifyOne (Some 0) # replicate 7 (Work 0))" by (simp add: list_all_iff)
  ultimately show ?thesis using pool_progress [OF s(1,2), of "NotifyOne (Some 0) # replicate 7 (Work 0)" s'] s by auto
qed

definition run_stopping :: "nat pool_act list" where
  "run_stopping = [Start 1, Work 0, Stop, Client]"

definition run_stopped :: "nat pool_act list" where
  "run_stopped = [Work 0, Work 0, Work 0, Client, Work 0, Supervise, Client, Client, Client]"

text \<open>A pool with one worker in the state \<open>w\<close> and the given supervisor, client and finished workers.\<close>

definition one_worker :: "bool \<Rightarrow> nat worker_pc \<Rightarrow> supervisor_pc \<Rightarrow> client_pc \<Rightarrow> nat list \<Rightarrow> nat pool" where
  "one_worker r w v c fin = (pool_new 0)\<lparr>po_running := r, po_workers := [w], po_supervisor := v, po_client := c, po_finished := fin\<rparr>"

lemma run_stopping_state: "pool_run run_stopping (pool_new 0) = Some (one_worker False W_Lock V_Top C_NotifyFinished [])"
  by (simp add: run_stopping_def pool_eval one_worker_def)

lemma run_stopped_state:
  "pool_run run_stopped (one_worker False W_Lock V_Top C_NotifyFinished []) = Some (one_worker False W_Done V_Done C_Idle [0])"
  by (simp add: run_stopped_def pool_eval one_worker_def)

lemma pool_stop_returns_witness:
  "length run_stopped \<le> 17 \<and> po_client (one_worker False W_Done V_Done C_Idle [0]) = C_Idle"
proof -
  have "pool_stopping (one_worker False W_Lock V_Top C_NotifyFinished [])"
    by (simp add: one_worker_def pool_stopping_def no_sleeper_def pool_new_def)
  moreover have "list_all pool_thread run_stopped" by (simp add: run_stopped_def)
  ultimately show ?thesis
    using pool_stop_returns [OF reach_run [OF run_stopping_state] _ _ run_stopped_state] by (simp add: one_worker_def)
qed

text \<open>The worker has seen the pool running; \<open>stop\<close> notifies; the worker goes to sleep.\<close>

definition run_hang :: "nat pool_act list" where
  "run_hang = [Start 1, Work 0, Work 0, Work 0, Stop, Client, Work 0, Client]"

lemma run_hang_state: "pool_run run_hang (pool_new 0) = Some (one_worker False W_Sleep V_Top (C_Join 0) [])"
  by (simp add: run_hang_def pool_eval one_worker_def)

lemma pool_stop_hangs_witness:
  "\<exists>s. pool_run [Supervise, SubmitTest (Some 5)] (one_worker False W_Sleep V_Top (C_Join 0) []) = Some s \<and>
     po_workers s ! 0 = W_Sleep \<and> client_step s = None"
proof -
  obtain s where s: "pool_run [Supervise, SubmitTest (Some 5)] (one_worker False W_Sleep V_Top (C_Join 0) []) = Some s"
    by (simp add: one_worker_def pool_eval)
  have "po_workers s ! 0 = W_Sleep \<and> (\<exists>j\<le>0. po_client s = C_Join j \<and> (j = 0 \<longrightarrow> client_step s = None))"
    using pool_stop_hangs [OF reach_run [OF run_hang_state] _ _ _ _ _ _ _ s, of 0 0] by (simp add: one_worker_def pool_new_def)
  with s show ?thesis by auto
qed

text \<open>Stop and start again: the id 0 of the first generation is still queued.\<close>

definition run_restart :: "nat pool_act list" where
  "run_restart = run_stopping @ run_stopped @ [Start 1, Supervise, Supervise, Supervise, Supervise]"

lemma run_restart_state: "pool_run run_restart (pool_new 0) = Some (one_worker True W_Top (V_Join 0) C_Idle [])"
  unfolding run_restart_def pool_run_append run_stopping_state option.case run_stopped_state
  by (simp add: one_worker_def pool_eval)

lemma pool_supervisor_blocked_witness:
  "\<exists>s. pool_run [Work 0, Work 0] (one_worker True W_Top (V_Join 0) C_Idle []) = Some s \<and> supervisor_step s = None"
proof -
  obtain s where s: "pool_run [Work 0, Work 0] (one_worker True W_Top (V_Join 0) C_Idle []) = Some s"
    by (simp add: one_worker_def pool_eval)
  with pool_supervisor_blocked [OF reach_run [OF run_restart_state], of 0 "[Work 0, Work 0]" s] show ?thesis
    by (simp add: no_stop_def one_worker_def)
qed

end
