(* ===== verification/Fw_Router.thy ===== *)
theory Fw_Router
  imports Fw_Context
begin

section \<open>Middleware chain and router\<close>

text \<open>
  \<open>src/Middleware.cpp\<close>, \<open>src/Router.cpp\<close> and their headers. A handler or middleware is a
  computation on a state (the context): a result and the new state, where the result \<open>None\<close> is an
  exception. \<open>next\<close> is such a computation; a middleware may run it never, once or more often.
\<close>

subsection \<open>The chain\<close>

type_synonym 's comp = "'s \<Rightarrow> int option \<times> 's"
type_synonym 's middleware = "'s comp \<Rightarrow> 's comp"

record 's entry =
  en_name :: string
  en_fn :: "'s middleware"

type_synonym 's chain = "'s entry list"

definition use_named :: "string \<Rightarrow> 's middleware \<Rightarrow> 's chain \<Rightarrow> 's chain" where
  "use_named name fn chain = chain @ [\<lparr>en_name = name, en_fn = fn\<rparr>]"

definition use_fn :: "'s middleware \<Rightarrow> 's chain \<Rightarrow> 's chain" where
  "use_fn fn chain = chain @ [\<lparr>en_name = [], en_fn = fn\<rparr>]"

function run_chain :: "'s chain \<Rightarrow> nat \<Rightarrow> 's comp \<Rightarrow> 's comp" where
  "run_chain chain idx finalHandler =
     (if length chain \<le> idx then finalHandler
      else en_fn (chain ! idx) (run_chain chain (idx + 1) finalHandler))"
  by pat_completeness auto
termination by (relation "measure (\<lambda>(chain, idx, _). length chain - idx)") auto

declare run_chain.simps [simp del]

definition execute :: "'s chain \<Rightarrow> 's comp \<Rightarrow> 's comp" where
  "execute chain finalHandler = run_chain chain 0 finalHandler"

lemma run_chain_foldr: "idx \<le> length chain \<Longrightarrow> run_chain chain idx h = foldr en_fn (drop idx chain) h"
proof (induction "length chain - idx" arbitrary: idx)
  case 0
  then show ?case by (subst run_chain.simps) simp
next
  case (Suc n)
  then have "idx < length chain" by simp
  moreover from this have "run_chain chain (idx + 1) h = foldr en_fn (drop (idx + 1) chain) h"
    using Suc(1) [of "idx + 1"] Suc(2) by simp
  ultimately show ?case by (subst run_chain.simps) (simp flip: Cons_nth_drop_Suc)
qed

lemma execute_foldr: "execute chain h = foldr en_fn chain h"
  using run_chain_foldr [of 0 chain h] by (simp add: execute_def)

text \<open>
  the recursion by index is the composition of the middleware. Executing a chain is the handler
  wrapped by the middleware in order, the first one outermost; so chains compose: executing one
  chain after another is executing the first around the second.
\<close>

theorem execute_composition:
  "execute chain h = foldr en_fn chain h \<and> execute (chain @ chain') h = execute chain (execute chain' h) \<and>
   execute (use_named name fn chain) h = execute chain (fn h)"
  by (simp add: execute_foldr use_named_def)

text \<open>A middleware with code before and after the inner call; an exception skips the code after.\<close>

definition around :: "('s \<Rightarrow> 's) \<Rightarrow> ('s \<Rightarrow> 's) \<Rightarrow> 's middleware" where
  "around before after nxt s =
     (case nxt (before s) of (Some r, s') \<Rightarrow> (Some r, after s') | (None, s') \<Rightarrow> (None, s'))"

lemma around_chain:
  "foldr en_fn (map (\<lambda>(b, a). \<lparr>en_name = [], en_fn = around b a\<rparr>) bas) h s =
     (case h (fold (\<lambda>(b, a) t. b t) bas s) of
        (Some r, s') \<Rightarrow> (Some r, foldr (\<lambda>(b, a) t. a t) bas s')
      | (None, s') \<Rightarrow> (None, s'))"
  by (induction bas arbitrary: s) (auto simp: around_def split: prod.splits option.splits)

text \<open>
  C23: the onion. For middleware that call \<open>next\<close> once, all code before it runs first, in the order
  of registration, then the handler, then all code after it in reverse order, and the handler's
  result is the chain's. When the handler throws, no code after \<open>next\<close> runs.
\<close>

theorem onion_order:
  "execute (map (\<lambda>(b, a). \<lparr>en_name = [], en_fn = around b a\<rparr>) bas) h s =
     (case h (fold (\<lambda>(b, a) t. b t) bas s) of
        (Some r, s') \<Rightarrow> (Some r, foldr (\<lambda>(b, a) t. a t) bas s')
      | (None, s') \<Rightarrow> (None, s'))"
  unfolding execute_foldr by (rule around_chain)

text \<open>
  stopping early. A middleware that does not call \<open>next\<close> decides alone: neither the middleware
  after it nor the handler has any effect, and the chain's result is what the outer layers make of
  its own result.
\<close>

theorem short_circuit:
  assumes "\<And>n1 n2. en_fn stop n1 = en_fn stop n2"
  shows "execute (pre @ stop # post) h = execute (pre @ stop # post') h' \<and>
    execute (pre @ stop # post) h = execute pre (en_fn stop undefined_next)"
  unfolding execute_foldr using assms by (metis foldr.simps(2) foldr_append o_apply)

lemma short_circuit_witness:
  "fst (execute [\<lparr>en_name = ''auth'', en_fn = (\<lambda>nxt c. (Some 401, c))\<rparr>] (\<lambda>c :: nat. (Some 200, c + 1)) 0) = Some 401 \<and>
   execute ([] @ \<lparr>en_name = ''auth'', en_fn = (\<lambda>nxt c. (Some 401, c))\<rparr> # []) (\<lambda>c :: nat. (Some 200, c + 1)) =
   execute ([] @ \<lparr>en_name = ''auth'', en_fn = (\<lambda>nxt c. (Some 401, c))\<rparr> # []) (\<lambda>c. (None, c))"
  using short_circuit [of "\<lparr>en_name = ''auth'', en_fn = (\<lambda>nxt c. (Some 401, c))\<rparr>" "[]" "[]" "\<lambda>c :: nat. (Some 200, c + 1)" "[]"
      "\<lambda>c. (None, c)"]
  by (simp add: execute_foldr)

subsection \<open>The router\<close>

text \<open>A handler returns nothing; \<open>False\<close> is an exception.\<close>

type_synonym handler = "ctx \<Rightarrow> bool \<times> ctx"

datatype route_method = GET | POST | PUT | DEL | PATCH

record route =
  rt_method :: route_method
  rt_path :: string
  rt_handler :: handler
  rt_async :: bool

record router =
  ro_middlewares :: "ctx chain"
  ro_routes :: "route list"
  ro_postprocessor :: "ctx comp option"
  ro_errorHandler :: "ctx comp option"
  ro_dispatcher :: bool
  ro_tracker :: bool

definition router_new :: router where
  "router_new = \<lparr>ro_middlewares = [], ro_routes = [], ro_postprocessor = None, ro_errorHandler = None,
     ro_dispatcher = False, ro_tracker = False\<rparr>"

definition add_route :: "route_method \<Rightarrow> bool \<Rightarrow> string \<Rightarrow> handler \<Rightarrow> router \<Rightarrow> router" where
  "add_route m async path h r =
     r\<lparr>ro_routes := ro_routes r @ [\<lparr>rt_method = m, rt_path = path, rt_handler = h, rt_async = async\<rparr>]\<rparr>"

definition router_use :: "string \<Rightarrow> ctx middleware \<Rightarrow> router \<Rightarrow> router" where
  "router_use name fn r = r\<lparr>ro_middlewares := use_named name fn (ro_middlewares r)\<rparr>"

datatype router_op =
    Use string "ctx middleware"
  | Route route_method string handler
  | GetAsync string handler
  | SetDispatcher bool
  | SetTracker bool
  | SetPostprocessor "ctx comp option"
  | SetErrorHandler "ctx comp option"

fun router_step :: "router_op \<Rightarrow> router \<Rightarrow> router" where
  "router_step (Use name fn) r = router_use name fn r"
| "router_step (Route m path h) r = add_route m False path h r"
| "router_step (GetAsync path h) r = add_route GET True path h r"
| "router_step (SetDispatcher b) r = r\<lparr>ro_dispatcher := b\<rparr>"
| "router_step (SetTracker b) r = r\<lparr>ro_tracker := b\<rparr>"
| "router_step (SetPostprocessor f) r = r\<lparr>ro_postprocessor := f\<rparr>"
| "router_step (SetErrorHandler f) r = r\<lparr>ro_errorHandler := f\<rparr>"

subsection \<open>Handlers as libhv sees them\<close>

definition status_or_200 :: "ctx \<Rightarrow> int" where
  "status_or_200 c = (if cx_status c \<noteq> 0 then cx_status c else 200)"

definition wrap_handler :: "handler \<Rightarrow> ctx comp" where
  "wrap_handler h c = (case h c of (ok, c') \<Rightarrow> (if ok then Some (status_or_200 c') else None, c'))"

text \<open>
  A new \<open>Context\<close> around the request and the response of another: it sees what was written to them, has
  no writer, and its store is empty. Each callback of the service gets one.
\<close>

definition fresh_context :: "ctx \<Rightarrow> ctx" where
  "fresh_context c = c\<lparr>cx_writer := False, cx_data := Map.empty, cx_streamingHandoff := False\<rparr>"

definition app_callback :: "ctx comp \<Rightarrow> ctx comp" where
  "app_callback fn c = fn (fresh_context c)"

text \<open>The result of the chain is not used: the answer is the status of the context afterwards.\<close>

definition sync_handler :: "handler \<Rightarrow> ctx chain \<Rightarrow> ctx comp" where
  "sync_handler h chain c0 =
     (case execute chain (wrap_handler h) (fresh_context c0) of
        (None, c) \<Rightarrow> (None, c)
      | (Some _, c) \<Rightarrow> (Some (status_or_200 c), c))"

datatype async_act = MarkAsync | Track int | RunChain | EndResponse

text \<open>A new \<open>Context\<close> around a whole connection has its writer; the request is marked as asynchronous before.\<close>

definition conn_context :: "ctx \<Rightarrow> ctx" where
  "conn_context c = c\<lparr>cx_data := Map.empty, cx_streamingHandoff := False\<rparr>"

definition mark_async :: "ctx \<Rightarrow> ctx" where
  "mark_async c = c\<lparr>cx_req := (cx_req c)\<lparr>sq_set := sq_set (cx_req c) @ [(''X-Internal-Async'', ''1'')]\<rparr>\<rparr>"

text \<open>The task an async handler submits: the acts, and the context afterwards.\<close>

definition async_task :: "handler \<Rightarrow> ctx chain \<Rightarrow> bool \<Rightarrow> ctx \<Rightarrow> async_act list \<times> ctx" where
  "async_task h chain tracker c0 =
     (case execute chain (wrap_handler h) (conn_context c0) of (result, c) \<Rightarrow>
        let streamingHandoff = (if result = None then False else cx_streamingHandoff c)
        in ([RunChain] @ (if \<not> streamingHandoff \<and> cx_writer c then [EndResponse] else []) @
              (if tracker then [Track (- 1)] else []), c))"

text \<open>
  With a dispatcher the task runs if and when the dispatcher runs it (\<open>runs\<close>); without one at once.
  The handler's own result is 0.
\<close>

definition async_handler ::
  "handler \<Rightarrow> ctx chain \<Rightarrow> bool \<Rightarrow> bool \<Rightarrow> bool \<Rightarrow> ctx \<Rightarrow> int \<times> async_act list \<times> ctx" where
  "async_handler h chain dispatcher tracker runs c0 =
     (let c1 = mark_async c0; acts0 = [MarkAsync] @ (if tracker then [Track 1] else [])
      in if dispatcher \<and> \<not> runs then (0, acts0, c1)
         else case async_task h chain tracker c1 of (acts, c) \<Rightarrow> (0, acts0 @ acts, c))"

datatype bound_handler = Sync handler "ctx chain" | Async handler "ctx chain" bool bool

record hv_service =
  sv_routes :: "(route_method \<times> string \<times> bound_handler) list"
  sv_postprocessor :: "ctx comp option"
  sv_errorHandler :: "ctx comp option"

text \<open>Routes are registered with libhv's service in order; unset handlers leave its own.\<close>

definition bind_route :: "router \<Rightarrow> ctx chain \<Rightarrow> route \<Rightarrow> route_method \<times> string \<times> bound_handler" where
  "bind_route r chain rt =
     (if rt_async rt then (GET, rt_path rt, Async (rt_handler rt) chain (ro_dispatcher r) (ro_tracker r))
      else (rt_method rt, rt_path rt, Sync (rt_handler rt) chain))"

definition router_bind :: "router \<Rightarrow> hv_service \<Rightarrow> hv_service" where
  "router_bind r sv =
     (let chain = ro_middlewares r
      in sv\<lparr>sv_routes := sv_routes sv @ map (bind_route r chain) (ro_routes r),
            sv_postprocessor := (case ro_postprocessor r of Some f \<Rightarrow> Some (app_callback f) | None \<Rightarrow> sv_postprocessor sv),
            sv_errorHandler := (case ro_errorHandler r of Some f \<Rightarrow> Some (app_callback f) | None \<Rightarrow> sv_errorHandler sv)\<rparr>)"

subsection \<open>Properties of the router\<close>

fun op_routes :: "router_op list \<Rightarrow> route list" where
  "op_routes [] = []"
| "op_routes (Route m path h # ops) = \<lparr>rt_method = m, rt_path = path, rt_handler = h, rt_async = False\<rparr> # op_routes ops"
| "op_routes (GetAsync path h # ops) = \<lparr>rt_method = GET, rt_path = path, rt_handler = h, rt_async = True\<rparr> # op_routes ops"
| "op_routes (_ # ops) = op_routes ops"

fun op_chain :: "router_op list \<Rightarrow> ctx chain" where
  "op_chain [] = []"
| "op_chain (Use name fn # ops) = \<lparr>en_name = name, en_fn = fn\<rparr> # op_chain ops"
| "op_chain (_ # ops) = op_chain ops"

text \<open>What was set last, if anything was.\<close>

fun op_dispatcher :: "router_op list \<Rightarrow> bool \<Rightarrow> bool" where
  "op_dispatcher [] b = b"
| "op_dispatcher (SetDispatcher b' # ops) b = op_dispatcher ops b'"
| "op_dispatcher (_ # ops) b = op_dispatcher ops b"

fun op_tracker :: "router_op list \<Rightarrow> bool \<Rightarrow> bool" where
  "op_tracker [] b = b"
| "op_tracker (SetTracker b' # ops) b = op_tracker ops b'"
| "op_tracker (_ # ops) b = op_tracker ops b"

fun op_postprocessor :: "router_op list \<Rightarrow> ctx comp option \<Rightarrow> ctx comp option" where
  "op_postprocessor [] f = f"
| "op_postprocessor (SetPostprocessor f' # ops) f = op_postprocessor ops f'"
| "op_postprocessor (_ # ops) f = op_postprocessor ops f"

fun op_errorHandler :: "router_op list \<Rightarrow> ctx comp option \<Rightarrow> ctx comp option" where
  "op_errorHandler [] f = f"
| "op_errorHandler (SetErrorHandler f' # ops) f = op_errorHandler ops f'"
| "op_errorHandler (_ # ops) f = op_errorHandler ops f"

lemma router_run:
  "ro_routes (fold router_step ops r) = ro_routes r @ op_routes ops \<and>
   ro_middlewares (fold router_step ops r) = ro_middlewares r @ op_chain ops"
proof (induction ops arbitrary: r)
  case (Cons op ops)
  from Cons [of "router_step op r"] show ?case
    by (cases op) (simp_all add: add_route_def router_use_def use_named_def)
qed simp

lemma router_run_settings:
  "ro_dispatcher (fold router_step ops r) = op_dispatcher ops (ro_dispatcher r)"
  "ro_tracker (fold router_step ops r) = op_tracker ops (ro_tracker r)"
  "ro_postprocessor (fold router_step ops r) = op_postprocessor ops (ro_postprocessor r)"
  "ro_errorHandler (fold router_step ops r) = op_errorHandler ops (ro_errorHandler r)"
proof -
  have "ro_dispatcher (fold router_step ops r) = op_dispatcher ops (ro_dispatcher r) \<and>
      ro_tracker (fold router_step ops r) = op_tracker ops (ro_tracker r) \<and>
      ro_postprocessor (fold router_step ops r) = op_postprocessor ops (ro_postprocessor r) \<and>
      ro_errorHandler (fold router_step ops r) = op_errorHandler ops (ro_errorHandler r)"
  proof (induction ops arbitrary: r)
    case (Cons op ops)
    from Cons [of "router_step op r"] show ?case by (cases op) (simp_all add: add_route_def router_use_def)
  qed simp
  then show "ro_dispatcher (fold router_step ops r) = op_dispatcher ops (ro_dispatcher r)"
    "ro_tracker (fold router_step ops r) = op_tracker ops (ro_tracker r)"
    "ro_postprocessor (fold router_step ops r) = op_postprocessor ops (ro_postprocessor r)"
    "ro_errorHandler (fold router_step ops r) = op_errorHandler ops (ro_errorHandler r)" by simp_all
qed

lemma async_is_get: "rt \<in> set (op_routes ops) \<Longrightarrow> rt_async rt \<Longrightarrow> rt_method rt = GET"
  by (induction ops rule: op_routes.induct) auto

text \<open>What libhv calls for a route, from the registrations alone.\<close>

definition expected_handler :: "router_op list \<Rightarrow> route \<Rightarrow> bound_handler" where
  "expected_handler ops rt =
     (if rt_async rt then Async (rt_handler rt) (op_chain ops) (op_dispatcher ops False) (op_tracker ops False)
      else Sync (rt_handler rt) (op_chain ops))"

text \<open>
  C22: what \<open>bind\<close> hands to libhv. However routes, middleware and settings are interleaved, libhv gets, behind what it had, every route
  once and in order of registration: under its method and path, with its own handler, synchronous or asynchronous as it was registered, and
  with all middleware registered before \<open>bind\<close>, in order, also those registered after the route; an asynchronous route with the dispatcher and the
  tracker set last. The postprocessor and the error handler set last are installed, each on a context of its own; those of libhv stay when
  none was set.
\<close>

theorem bind_complete:
  "sv_routes (router_bind (fold router_step ops router_new) sv) =
     sv_routes sv @ map (\<lambda>rt. (rt_method rt, rt_path rt, expected_handler ops rt)) (op_routes ops) \<and>
   sv_postprocessor (router_bind (fold router_step ops router_new) sv) =
     (case op_postprocessor ops None of None \<Rightarrow> sv_postprocessor sv | Some f \<Rightarrow> Some (\<lambda>c. f (fresh_context c))) \<and>
   sv_errorHandler (router_bind (fold router_step ops router_new) sv) =
     (case op_errorHandler ops None of None \<Rightarrow> sv_errorHandler sv | Some f \<Rightarrow> Some (\<lambda>c. f (fresh_context c)))"
proof -
  let ?r = "fold router_step ops router_new"
  have r: "ro_routes ?r = op_routes ops" "ro_middlewares ?r = op_chain ops"
    using router_run [of ops router_new] by (simp_all add: router_new_def)
  have set: "ro_dispatcher ?r = op_dispatcher ops False" "ro_tracker ?r = op_tracker ops False"
      "ro_postprocessor ?r = op_postprocessor ops None" "ro_errorHandler ?r = op_errorHandler ops None"
    using router_run_settings [of ops router_new] by (simp_all add: router_new_def)
  have "map (bind_route ?r (op_chain ops)) (op_routes ops) = map (\<lambda>rt. (rt_method rt, rt_path rt, expected_handler ops rt)) (op_routes ops)"
    using async_is_get [of _ ops] by (simp add: bind_route_def expected_handler_def set)
  moreover have "app_callback f = (\<lambda>c. f (fresh_context c))" for f by (rule ext) (simp add: app_callback_def)
  ultimately show ?thesis by (simp add: router_bind_def Let_def r set split: option.split)
qed

lemma bind_complete_witness:
  "map (\<lambda>(m, p, _). (m, p)) (sv_routes (router_bind (fold router_step
      [Route POST ''/a'' (\<lambda>c. (True, c)), Use ''log'' (\<lambda>n. n), SetTracker True, GetAsync ''/b'' (\<lambda>c. (True, c))] router_new)
      \<lparr>sv_routes = [], sv_postprocessor = None, sv_errorHandler = None\<rparr>)) = [(POST, ''/a''), (GET, ''/b'')]"
  using bind_complete [THEN conjunct1, of "[Route POST ''/a'' (\<lambda>c. (True, c)), Use ''log'' (\<lambda>n. n), SetTracker True, GetAsync ''/b'' (\<lambda>c. (True, c))]"
      "\<lparr>sv_routes = [], sv_postprocessor = None, sv_errorHandler = None\<rparr>"] by simp

text \<open>
  C21: an asynchronous request is accounted for and ended. Whatever the middleware and the handler
  do, exceptions included, once the task has run the tracker was told +1 first and -1 last and
  nothing else, and the response is ended at most once: exactly when the connection has a writer and
  the handler did not hand the response over, or threw. (So a handler that starts a stream and then
  throws has its response ended under the stream.)
\<close>

theorem async_balanced:
  assumes "async_handler h chain dispatcher tracker runs c0 = (ret, acts, c)" and "dispatcher \<longrightarrow> runs"
  shows "ret = 0 \<and>
    filter (\<lambda>a. \<exists>d. a = Track d) acts = (if tracker then [Track 1, Track (- 1)] else []) \<and>
    count_list acts RunChain = 1 \<and>
    count_list acts EndResponse =
      (if cx_writer c \<and> (fst (execute chain (wrap_handler h) (conn_context (mark_async c0))) = None \<or> \<not> cx_streamingHandoff c) then 1 else 0)"
  using assms
  by (auto simp: async_handler_def async_task_def Let_def split: prod.splits if_splits)

lemma async_balanced_witness:
  "fst (snd (async_handler (\<lambda>c. (False, markStreamingHandoff c)) [] True True True
     (ctx_new sreq0 200 True)))
   = [MarkAsync, Track 1, RunChain, EndResponse, Track (- 1)] \<and>
   count_list [MarkAsync, Track 1, RunChain, EndResponse, Track (- 1)] EndResponse = 1"
proof -
  let ?c = "ctx_new sreq0 200 True"
  let ?h = "\<lambda>c. (False, markStreamingHandoff c)"
  have r: "async_handler ?h [] True True True ?c =
      (0, [MarkAsync, Track 1, RunChain, EndResponse, Track (- 1)], markStreamingHandoff (conn_context (mark_async ?c)))"
    by (simp add: async_handler_def async_task_def execute_foldr wrap_handler_def markStreamingHandoff_def ctx_new_def
        conn_context_def mark_async_def Let_def)
  from async_balanced [OF r] r show ?thesis by simp
qed

text \<open>
  the chain's result is ignored for synchronous routes. The documentation of the chain promises
  that a non-zero result aborts with that status code; the router answers with the status in the
  context instead: two chains that leave the context the same give the same answer, whatever codes
  they return, and a chain that stops with 401 without setting the status answers 200.
\<close>

theorem sync_ignores_result:
  assumes "execute chain (wrap_handler h) (fresh_context c0) = (Some r, c)"
    and "execute chain' (wrap_handler h') (fresh_context c0) = (Some r', c)"
  shows "sync_handler h chain c0 = sync_handler h' chain' c0 \<and>
    fst (sync_handler h chain c0) = Some (if cx_status c = 0 then 200 else cx_status c)"
  using assms by (simp add: sync_handler_def status_or_200_def)

lemma sync_ignores_result_witness:
  "fst (sync_handler (\<lambda>c. (True, c)) [\<lparr>en_name = ''auth'', en_fn = (\<lambda>nxt c. (Some 401, c))\<rparr>]
     (ctx_new sreq0 200 False)) = Some 200"
proof -
  let ?c = "ctx_new sreq0 200 False"
  have 1: "execute [\<lparr>en_name = ''auth'', en_fn = (\<lambda>nxt c. (Some 401, c))\<rparr>] (wrap_handler (\<lambda>c. (True, c))) (fresh_context ?c) =
      (Some 401, fresh_context ?c)"
    by (simp add: execute_foldr)
  from sync_ignores_result [OF 1 1] show ?thesis by (simp add: ctx_new_def fresh_context_def)
qed

end
