(* ===== verification/Fw_Application.thy ===== *)
theory Fw_Application
  imports Fw_Router
begin

section \<open>The application and the server transport\<close>

text \<open>
  \<open>src/Application.cpp\<close> and \<open>src/HvTransport.cpp\<close>: what they assign in libhv's service and server,
  and the server names that \<open>isAllowedHost\<close> accepts. The fields that libhv reads are fields here; whether
  libhv takes a certificate, starts, and how large its \<open>host\<close> array is are parameters.
\<close>

subsection \<open>State\<close>

text \<open>The part of \<open>hv::HttpServer\<close> the sources assign.\<close>

record hv_server =
  se_host :: string
  se_port :: int
  se_https_port :: int
  se_threads :: int
  se_ssl :: "(string \<times> string) option"
  se_started :: nat

record application =
  ap_service :: hv_service
  ap_headerHandler :: "ctx comp option"
  ap_middleware :: "ctx comp list"
  ap_document_root :: string
  ap_statics :: "(string \<times> string) list"
  ap_proxies :: "(string \<times> string) list"
  ap_keepalive :: int
  ap_limit_rate :: int
  ap_proxy_timeouts :: "int \<times> int \<times> int"
  ap_server :: hv_server
  ap_httpsPort :: int
  ap_names :: "string set"

text \<open>A new application is libhv's new service and server.\<close>

definition app_new :: "application \<Rightarrow> application" where
  "app_new defaults = defaults\<lparr>ap_httpsPort := 0, ap_names := {}\<rparr>"

subsection \<open>Callbacks\<close>

definition setHeaderHandler :: "ctx comp \<Rightarrow> application \<Rightarrow> application" where
  "setHeaderHandler fn a = a\<lparr>ap_headerHandler := Some (app_callback fn)\<rparr>"

definition app_use :: "ctx comp \<Rightarrow> application \<Rightarrow> application" where
  "app_use fn a = a\<lparr>ap_middleware := ap_middleware a @ [app_callback fn]\<rparr>"

definition setErrorHandler :: "ctx comp \<Rightarrow> application \<Rightarrow> application" where
  "setErrorHandler fn a = a\<lparr>ap_service := (ap_service a)\<lparr>sv_errorHandler := Some (app_callback fn)\<rparr>\<rparr>"

definition setPostprocessor :: "ctx comp \<Rightarrow> application \<Rightarrow> application" where
  "setPostprocessor fn a = a\<lparr>ap_service := (ap_service a)\<lparr>sv_postprocessor := Some (app_callback fn)\<rparr>\<rparr>"

definition app_mount :: "router \<Rightarrow> application \<Rightarrow> application" where
  "app_mount r a = a\<lparr>ap_service := router_bind r (ap_service a)\<rparr>"

subsection \<open>Settings\<close>

text \<open>\<open>c_str\<close>: up to the first zero byte.\<close>

definition zstr :: "string \<Rightarrow> string" where
  "zstr s = takeWhile (\<lambda>c. code_of c \<noteq> 0) s"

definition setDocumentRoot :: "string \<Rightarrow> application \<Rightarrow> application" where
  "setDocumentRoot path a = a\<lparr>ap_document_root := path\<rparr>"

definition mountStatic :: "string \<Rightarrow> string \<Rightarrow> application \<Rightarrow> application" where
  "mountStatic urlPrefix dir a = a\<lparr>ap_statics := ap_statics a @ [(zstr urlPrefix, zstr dir)]\<rparr>"

definition app_proxy :: "string \<Rightarrow> string \<Rightarrow> application \<Rightarrow> application" where
  "app_proxy urlPrefix targetUrl a = a\<lparr>ap_proxies := ap_proxies a @ [(zstr urlPrefix, zstr targetUrl)]\<rparr>"

text \<open>\<open>strncpy\<close> into an array of \<open>n\<close> bytes, the last of them set to zero.\<close>

definition setHost :: "nat \<Rightarrow> string \<Rightarrow> application \<Rightarrow> application" where
  "setHost n host a = a\<lparr>ap_server := (ap_server a)\<lparr>se_host := take (n - 1) (zstr host)\<rparr>\<rparr>"

definition setPort :: "int \<Rightarrow> application \<Rightarrow> application" where
  "setPort port a = a\<lparr>ap_server := (ap_server a)\<lparr>se_port := port\<rparr>\<rparr>"

definition setHttpsPort :: "int \<Rightarrow> application \<Rightarrow> application" where
  "setHttpsPort port a = a\<lparr>ap_httpsPort := port\<rparr>"

definition setWorkerThreads :: "int \<Rightarrow> application \<Rightarrow> application" where
  "setWorkerThreads n a = a\<lparr>ap_server := (ap_server a)\<lparr>se_threads := n\<rparr>\<rparr>"

definition setKeepaliveTimeout :: "int \<Rightarrow> application \<Rightarrow> application" where
  "setKeepaliveTimeout ms a = a\<lparr>ap_keepalive := ms\<rparr>"

definition setLimitRate :: "int \<Rightarrow> application \<Rightarrow> application" where
  "setLimitRate kbps a = a\<lparr>ap_limit_rate := kbps\<rparr>"

definition setProxyTimeout :: "int \<Rightarrow> int \<Rightarrow> int \<Rightarrow> application \<Rightarrow> application" where
  "setProxyTimeout connectMs readMs writeMs a = a\<lparr>ap_proxy_timeouts := (connectMs, readMs, writeMs)\<rparr>"

definition serverNames :: "application \<Rightarrow> string set" where
  "serverNames a = ap_names a"

definition workerThreadsCount :: "application \<Rightarrow> int" where
  "workerThreadsCount a = se_threads (ap_server a)"

text \<open>\<open>newSslCtx\<close> is libhv's answer for a certificate and a key file.\<close>

definition enableSsl :: "(string \<Rightarrow> string \<Rightarrow> bool) \<Rightarrow> string \<Rightarrow> string \<Rightarrow> application \<Rightarrow> bool \<times> application" where
  "enableSsl newSslCtx certFile keyFile a =
     (let s1 = (ap_server a)\<lparr>se_port := 0\<rparr>;
          s2 = s1\<lparr>se_https_port := (if 0 < ap_httpsPort a then ap_httpsPort a else se_port s1)\<rparr>;
          ok = newSslCtx (zstr certFile) (zstr keyFile)
      in (ok, a\<lparr>ap_server := (if ok then s2\<lparr>se_ssl := Some (zstr certFile, zstr keyFile)\<rparr> else s2)\<rparr>))"

definition app_start :: "(hv_server \<Rightarrow> int) \<Rightarrow> application \<Rightarrow> int \<times> application" where
  "app_start libStart a =
     (libStart (ap_server a), a\<lparr>ap_server := (ap_server a)\<lparr>se_started := se_started (ap_server a) + 1\<rparr>\<rparr>)"

subsection \<open>Server names\<close>

text \<open>\<open>std::getline(iss, token, d)\<close> until it fails: a separator at the end starts no further token.\<close>

function getlines :: "char \<Rightarrow> string \<Rightarrow> string list" where
  "getlines d s =
     (if s = [] then []
      else takeWhile (\<lambda>c. c \<noteq> d) s #
        (case dropWhile (\<lambda>c. c \<noteq> d) s of [] \<Rightarrow> [] | c # r \<Rightarrow> getlines d r))"
  by pat_completeness auto
termination
proof (relation "measure (length \<circ> snd)")
  fix d :: char and s c r
  assume "dropWhile (\<lambda>c. c \<noteq> d) s = c # r"
  then have "length (c # r) \<le> length s" by (metis length_dropWhile_le)
  then show "((d, r), d, s) \<in> measure (length \<circ> snd)" by simp
qed simp

declare getlines.simps [simp del]

definition is_blank :: "char \<Rightarrow> bool" where
  "is_blank c \<longleftrightarrow> c = CHR '' '' \<or> c = CHR 0x09"

text \<open>One token: blanks and tabs trimmed, in lower case; nothing when only they are in it.\<close>

definition server_token :: "string \<Rightarrow> string set \<Rightarrow> string set" where
  "server_token token names =
     (case find_index (\<lambda>c. \<not> is_blank c) token of
        None \<Rightarrow> names
      | Some start \<Rightarrow>
          (case find_last (\<lambda>c. \<not> is_blank c) token of
             None \<Rightarrow> names
           | Some end \<Rightarrow>
               let t = to_lower (substr token start (end - start + 1))
               in if t = [] then names else insert t names))"

definition setServerName :: "string \<Rightarrow> application \<Rightarrow> application" where
  "setServerName names a =
     a\<lparr>ap_names := (if names = [] then {} else fold server_token (getlines (CHR '','') names) {})\<rparr>"

text \<open>The port is cut off at the last colon, unless that is inside brackets.\<close>

definition strip_port :: "string \<Rightarrow> string" where
  "strip_port host =
     (case find_last (\<lambda>c. c = CHR '':'') host of
        None \<Rightarrow> host
      | Some colonPos \<Rightarrow>
          (case find_last (\<lambda>c. c = CHR '']'') host of
             None \<Rightarrow> take colonPos host
           | Some b \<Rightarrow> if b < colonPos then take colonPos host else host))"

definition isAllowedHost :: "string \<Rightarrow> application \<Rightarrow> bool" where
  "isAllowedHost hostHeader a \<longleftrightarrow> ap_names a = {} \<or> to_lower (strip_port hostHeader) \<in> ap_names a"

subsection \<open>HvServerTransport\<close>

record hv_transport =
  tr_server :: hv_server
  tr_service :: hv_service
  tr_document_root :: string
  tr_router :: "router option"
  tr_port :: int
  tr_https :: bool
  tr_certPath :: string
  tr_keyPath :: string

definition transport_new :: "nat \<Rightarrow> hv_server \<Rightarrow> hv_service \<Rightarrow> string \<Rightarrow> hv_transport" where
  "transport_new n server service root =
     \<lparr>tr_server = server\<lparr>se_host := take (n - 1) ''0.0.0.0''\<rparr>, tr_service = service, tr_document_root = root,
      tr_router = None, tr_port = 8080, tr_https = False, tr_certPath = [], tr_keyPath = []\<rparr>"

definition tr_setHost :: "nat \<Rightarrow> string \<Rightarrow> hv_transport \<Rightarrow> hv_transport" where
  "tr_setHost n host t = t\<lparr>tr_server := (tr_server t)\<lparr>se_host := take (n - 1) (zstr host)\<rparr>\<rparr>"

definition tr_setPort :: "int \<Rightarrow> hv_transport \<Rightarrow> hv_transport" where
  "tr_setPort port t = t\<lparr>tr_port := port\<rparr>"

definition tr_setHttps :: "string \<Rightarrow> string \<Rightarrow> hv_transport \<Rightarrow> hv_transport" where
  "tr_setHttps certPath keyPath t = t\<lparr>tr_https := True, tr_certPath := certPath, tr_keyPath := keyPath\<rparr>"

definition tr_setDocumentRoot :: "string \<Rightarrow> hv_transport \<Rightarrow> hv_transport" where
  "tr_setDocumentRoot docRoot t = t\<lparr>tr_document_root := docRoot\<rparr>"

definition tr_setRouter :: "router option \<Rightarrow> hv_transport \<Rightarrow> hv_transport" where
  "tr_setRouter r t = t\<lparr>tr_router := r\<rparr>"

definition tr_start :: "(string \<Rightarrow> string \<Rightarrow> bool) \<Rightarrow> (hv_server \<Rightarrow> int) \<Rightarrow> hv_transport \<Rightarrow> int \<times> hv_transport" where
  "tr_start newSslCtx libStart t =
     (let t1 = t\<lparr>tr_service := (case tr_router t of None \<Rightarrow> tr_service t | Some r \<Rightarrow> router_bind r (tr_service t))\<rparr>;
          run = (\<lambda>s. (libStart s, t1\<lparr>tr_server := s\<lparr>se_started := se_started s + 1\<rparr>\<rparr>))
      in if tr_https t
         then let s = (tr_server t)\<lparr>se_port := 0, se_https_port := tr_port t\<rparr>
              in if newSslCtx (zstr (tr_certPath t)) (zstr (tr_keyPath t))
                 then run (s\<lparr>se_ssl := Some (zstr (tr_certPath t), zstr (tr_keyPath t))\<rparr>)
                 else (- 1, t1\<lparr>tr_server := s\<rparr>)
         else run ((tr_server t)\<lparr>se_port := tr_port t, se_https_port := 0\<rparr>))"

definition tr_type :: "hv_transport \<Rightarrow> string" where
  "tr_type t = (if tr_https t then ''https/1.1'' else ''http/1.1'')"

subsection \<open>Which hosts are allowed\<close>

text \<open>A name as an operator writes it: no comma, no blank at either end, not empty.\<close>

definition clean_name :: "string \<Rightarrow> bool" where
  "clean_name n \<longleftrightarrow> n \<noteq> [] \<and> CHR '','' \<notin> set n \<and> \<not> is_blank (hd n) \<and> \<not> is_blank (last n)"

fun comma_join :: "string list \<Rightarrow> string" where
  "comma_join [] = []"
| "comma_join [n] = n"
| "comma_join (n # ns) = n @ CHR '','' # comma_join ns"

lemma getlines_one: "n \<noteq> [] \<Longrightarrow> d \<notin> set n \<Longrightarrow> getlines d n = [n]"
proof -
  assume n: "n \<noteq> []" "d \<notin> set n"
  then have d: "\<forall>c\<in>set n. c \<noteq> d" by auto
  then have t: "takeWhile (\<lambda>c. c \<noteq> d) n = n" by (simp add: takeWhile_eq_all_conv)
  have e: "dropWhile (\<lambda>c. c \<noteq> d) n = []" using d by (simp add: dropWhile_eq_Nil_conv)
  show ?thesis using n(1) by (subst getlines.simps) (simp add: t e del: dropWhile_eq_Nil_conv)
qed

lemma getlines_cons: "d \<notin> set n \<Longrightarrow> getlines d (n @ d # r) = n # getlines d r"
proof -
  assume "d \<notin> set n"
  then have "\<forall>c\<in>set n. c \<noteq> d" by auto
  then have "takeWhile (\<lambda>c. c \<noteq> d) (n @ d # r) = n" "dropWhile (\<lambda>c. c \<noteq> d) (n @ d # r) = d # r"
    by (simp_all add: takeWhile_append dropWhile_append)
  then show ?thesis by (subst getlines.simps) simp
qed

lemma getlines_join: "list_all clean_name ns \<Longrightarrow> getlines (CHR '','') (comma_join ns) = ns"
proof (induction ns rule: comma_join.induct)
  case 1
  show ?case by (subst getlines.simps) simp
next
  case (2 n)
  then show ?case by (simp add: getlines_one clean_name_def)
next
  case (3 n m ns)
  then show ?case by (simp add: getlines_cons clean_name_def)
qed

lemma server_token_clean: "clean_name n \<Longrightarrow> server_token n names = insert (to_lower n) names"
proof -
  assume n: "clean_name n"
  then obtain x xs where c: "n = x # xs" "\<not> is_blank x" by (cases n) (auto simp: clean_name_def)
  have i: "find_index (\<lambda>c. \<not> is_blank c) n = Some 0" using c by simp
  have "find_last (\<lambda>c. \<not> is_blank c) (butlast n @ [last n]) = Some (length (butlast n))"
    using n by (intro find_last_at) (auto simp: clean_name_def)
  moreover have "butlast n @ [last n] = n" using c(1) by (intro append_butlast_last_id) simp
  ultimately have l: "find_last (\<lambda>c. \<not> is_blank c) n = Some (length n - 1)" by (simp only: length_butlast)
  show ?thesis unfolding server_token_def i l using c by (simp add: substr_def to_lower_def Let_def)
qed

lemma server_tokens_clean:
  "list_all clean_name ns \<Longrightarrow> fold server_token ns names = names \<union> to_lower ` set ns"
  by (induction ns arbitrary: names) (auto simp: server_token_clean)

lemma names_set:
  assumes "list_all clean_name ns"
  shows "ap_names (setServerName (comma_join ns) a) = to_lower ` set ns"
proof (cases "ns = []")
  case False
  then have "comma_join ns \<noteq> []" using assms by (cases ns rule: comma_join.cases) (auto simp: clean_name_def)
  then show ?thesis by (simp add: setServerName_def getlines_join [OF assms] server_tokens_clean [OF assms])
qed (simp add: setServerName_def)

text \<open>A host as a \<open>Host\<close> header has it: a name or IPv4 address, or an IPv6 address in brackets.\<close>

definition plain_host :: "string \<Rightarrow> bool" where
  "plain_host h \<longleftrightarrow> CHR '':'' \<notin> set h \<and> CHR '']'' \<notin> set h"

definition bracketed_host :: "string \<Rightarrow> bool" where
  "bracketed_host h \<longleftrightarrow> (\<exists>addr. h = CHR ''['' # addr @ '']'' \<and> CHR '']'' \<notin> set addr)"

definition port_text :: "string \<Rightarrow> bool" where
  "port_text p \<longleftrightarrow> CHR '':'' \<notin> set p \<and> CHR '']'' \<notin> set p"

lemma strip_port_host:
  assumes "plain_host h \<or> bracketed_host h"
  shows "strip_port h = h"
  using assms
proof
  assume "plain_host h"
  then have "find_last (\<lambda>c. c = CHR '':'') h = None" by (auto simp: plain_host_def find_last_None)
  then show ?thesis by (simp add: strip_port_def)
next
  assume "bracketed_host h"
  then obtain addr where h: "h = (CHR ''['' # addr) @ CHR '']'' # []" by (auto simp: bracketed_host_def)
  then have b: "find_last (\<lambda>c. c = CHR '']'') h = Some (length addr + 1)"
    by (simp only: h) (subst find_last_at; simp)
  show ?thesis
  proof (cases "find_last (\<lambda>c. c = CHR '':'') h")
    case (Some k)
    from find_last_Some [OF Some] have "k < length h" "h ! k = CHR '':''" by simp_all
    then have "\<not> length addr + 1 < k" using h by simp
    with Some b show ?thesis by (simp add: strip_port_def)
  qed (simp add: strip_port_def)
qed

lemma strip_port_port:
  assumes "plain_host h \<or> bracketed_host h" "port_text p"
  shows "strip_port (h @ CHR '':'' # p) = h"
proof -
  have c: "find_last (\<lambda>c. c = CHR '':'') (h @ CHR '':'' # p) = Some (length h)"
    using assms(2) by (intro find_last_at) (auto simp: port_text_def)
  have "find_last (\<lambda>c. c = CHR '']'') (h @ CHR '':'' # p) = None \<or>
     (\<exists>b<length h. find_last (\<lambda>c. c = CHR '']'') (h @ CHR '':'' # p) = Some b)"
  proof (cases "find_last (\<lambda>c. c = CHR '']'') (h @ CHR '':'' # p)")
    case (Some b)
    from find_last_Some [OF Some]
    have b: "b < length (h @ CHR '':'' # p)" "(h @ CHR '':'' # p) ! b = CHR '']''" by simp_all
    have "b < length h"
    proof (rule ccontr)
      assume "\<not> b < length h"
      then have "(CHR '':'' # p) ! (b - length h) = CHR '']''" "b - length h < length (CHR '':'' # p)"
        using b by (auto simp: nth_append)
      then have "CHR '']'' \<in> set (CHR '':'' # p)" by (metis nth_mem)
      with assms(2) show False by (simp add: port_text_def)
    qed
    then show ?thesis using Some by blast
  qed simp
  with c show ?thesis by (auto simp: strip_port_def)
qed

text \<open>An application and a transport on libhv's defaults, for the examples.\<close>

definition server0 :: hv_server where
  "server0 = \<lparr>se_host = ''0.0.0.0'', se_port = 0, se_https_port = 0, se_threads = 0, se_ssl = None, se_started = 0\<rparr>"

definition service0 :: hv_service where
  "service0 = \<lparr>sv_routes = [], sv_postprocessor = None, sv_errorHandler = None\<rparr>"

definition application0 :: application where
  "application0 = \<lparr>ap_service = service0, ap_headerHandler = None, ap_middleware = [], ap_document_root = [], ap_statics = [],
     ap_proxies = [], ap_keepalive = 75000, ap_limit_rate = - 1, ap_proxy_timeouts = (0, 0, 0), ap_server = server0,
     ap_httpsPort = 0, ap_names = {}\<rparr>"

text \<open>
  C31: which hosts are allowed. For a comma-separated list of names, a \<open>Host\<close> header, with or without
  a port, is accepted exactly when its host is one of the names but for upper and lower case; the host
  may be a name, an IPv4 address or an IPv6 address in brackets. An empty list accepts every host.
\<close>

theorem allowed_hosts:
  assumes "list_all clean_name ns" "ns \<noteq> []" "plain_host h \<or> bracketed_host h" "port_text p"
  shows "isAllowedHost h (setServerName (comma_join ns) a) = (to_lower h \<in> to_lower ` set ns) \<and>
    isAllowedHost (h @ '':'' @ p) (setServerName (comma_join ns) a) = (to_lower h \<in> to_lower ` set ns) \<and>
    isAllowedHost h (setServerName [] a)"
proof -
  have "isAllowedHost h (setServerName [] a)" by (simp add: isAllowedHost_def setServerName_def)
  then show ?thesis using strip_port_host [OF assms(3)] strip_port_port [OF assms(3,4)] assms(2)
    by (simp add: isAllowedHost_def names_set [OF assms(1)])
qed

lemma allowed_hosts_witness:
  "isAllowedHost ''WWW.example.com:9339'' (setServerName ''localhost,www.Example.com'' application0) \<and>
   isAllowedHost ''[::1]:9339'' (setServerName ''[::1]'' application0) \<and> \<not> isAllowedHost ''evil.com'' (setServerName ''localhost'' application0)"
proof -
  have "list_all clean_name [''localhost'', ''www.Example.com'']" "list_all clean_name [''[::1]'']" "list_all clean_name [''localhost'']"
    by (simp_all add: clean_name_def is_blank_def)
  moreover have "plain_host ''WWW.example.com''" "plain_host ''evil.com''" "port_text ''9339''" by (simp_all add: plain_host_def port_text_def)
  moreover have "bracketed_host ''[::1]''" by (auto simp: bracketed_host_def intro: exI [of _ "''::1''"])
  ultimately show ?thesis
    using allowed_hosts [of "[''localhost'', ''www.Example.com'']" "''WWW.example.com''" "''9339''" application0]
      allowed_hosts [of "[''[::1]'']" "''[::1]''" "''9339''" application0]
      allowed_hosts [of "[''localhost'']" "''evil.com''" "''9339''" application0]
    by (simp add: to_lower_def lower_char_def is_upper_def code_of_def char_of_def bit_0)
qed

lemma lower_char_eq: "\<not> is_upper d \<Longrightarrow> \<not> is_lower d \<Longrightarrow> lower_char c = d \<longleftrightarrow> c = d"
  by (auto simp: lower_char_def is_upper_def is_lower_def)

lemma punctuation: "\<not> is_upper (CHR '':'')" "\<not> is_lower (CHR '':'')" "\<not> is_upper (CHR '']'')" "\<not> is_lower (CHR '']'')"
  by (simp_all add: is_upper_def is_lower_def code_of_def)

lemma lower_mem: "CHR '':'' \<in> set (to_lower s) \<longleftrightarrow> CHR '':'' \<in> set s" "CHR '']'' \<in> set (to_lower s) \<longleftrightarrow> CHR '']'' \<in> set s"
  by (auto simp: to_lower_def image_iff lower_char_eq punctuation eq_commute [of _ "lower_char _"])

text \<open>
  a name with a port is dead. The port of the \<open>Host\<close> header is cut off, the port of a configured name
  is not: an application whose names all carry a port refuses every host, also the host and port that is
  configured.
\<close>

theorem names_with_port_refuse_all:
  assumes "list_all clean_name ns" "ns \<noteq> []" "list_all (\<lambda>n. CHR '':'' \<in> set n \<and> CHR '']'' \<notin> set n) ns"
    "plain_host h \<or> bracketed_host h" "port_text p"
  shows "\<not> isAllowedHost h (setServerName (comma_join ns) a) \<and> \<not> isAllowedHost (h @ '':'' @ p) (setServerName (comma_join ns) a)"
proof -
  have "to_lower h \<noteq> to_lower n" if "n \<in> set ns" for n
  proof -
    have n: "CHR '':'' \<in> set (to_lower n)" "CHR '']'' \<notin> set (to_lower n)" using assms(3) that by (auto simp: list_all_iff lower_mem)
    have "CHR '':'' \<notin> set h \<or> CHR '']'' \<in> set h" using assms(4) by (auto simp: plain_host_def bracketed_host_def)
    with n lower_mem [of h] show ?thesis by metis
  qed
  then show ?thesis using strip_port_host [OF assms(4)] strip_port_port [OF assms(4,5)] assms(2)
    by (auto simp: isAllowedHost_def names_set [OF assms(1)])
qed

lemma names_with_port_refuse_all_witness:
  "\<not> isAllowedHost ''a.com:80'' (setServerName ''a.com:80'' application0)"
  using names_with_port_refuse_all [of "[''a.com:80'']" "''a.com''" "''80''" application0]
  by (simp add: clean_name_def is_blank_def plain_host_def port_text_def)

subsection \<open>Ports\<close>

text \<open>
  HTTPS without its port. When \<open>setHttpsPort\<close> was not called before, \<open>enableSsl\<close> leaves libhv's server
  with neither an HTTP nor an HTTPS port, whatever \<open>setPort\<close> gave: the port it falls back to is the one it
  has just set to 0. When it was called, HTTPS gets that port and HTTP none.
\<close>

theorem ssl_ports:
  "se_port (ap_server (snd (enableSsl ctx cert key (setPort p a)))) = 0 \<and>
   (ap_httpsPort a \<le> 0 \<longrightarrow> se_https_port (ap_server (snd (enableSsl ctx cert key (setPort p a)))) = 0) \<and>
   (0 < q \<longrightarrow> se_https_port (ap_server (snd (enableSsl ctx cert key (setHttpsPort q (setPort p a))))) = q)"
  by (simp add: enableSsl_def setPort_def setHttpsPort_def Let_def)

lemma ssl_ports_witness:
  "ap_httpsPort (app_new application0) \<le> 0 \<and> se_https_port (ap_server (snd (enableSsl (\<lambda>_ _. True) ''c'' ''k'' (setPort 8443 (app_new application0))))) = 0"
  using ssl_ports [of "\<lambda>_ _. True" "''c''" "''k''" 8443 "app_new application0"] by (simp add: app_new_def)

text \<open>
  C32: the two server front ends agree. Starting an \<open>HvServerTransport\<close> on a port gives libhv the same
  server, and the same answer, as an \<open>Application\<close> set up for that port and started: over HTTPS with
  \<open>setHttpsPort\<close> and then \<open>enableSsl\<close>, and \<open>start\<close> only when that succeeds; over HTTP with \<open>setPort\<close>. A
  certificate that libhv refuses keeps the transport from starting and answers -1.
\<close>

theorem transport_equals_application:
  assumes "tr_server t = ap_server a" "0 < tr_port t" "se_https_port (ap_server a) = 0"
  shows "(tr_https t \<longrightarrow>
      (case enableSsl ctx (tr_certPath t) (tr_keyPath t) (setHttpsPort (tr_port t) a) of (ok, a') \<Rightarrow>
         (fst (tr_start ctx libStart t), tr_server (snd (tr_start ctx libStart t))) =
         (if ok then (fst (app_start libStart a'), ap_server (snd (app_start libStart a'))) else (- 1, ap_server a')))) \<and>
    (\<not> tr_https t \<longrightarrow>
      (fst (tr_start ctx libStart t), tr_server (snd (tr_start ctx libStart t))) =
      (fst (app_start libStart (setPort (tr_port t) a)), ap_server (snd (app_start libStart (setPort (tr_port t) a)))))"
proof -
  have http: "(ap_server a)\<lparr>se_port := tr_port t, se_https_port := 0\<rparr> = (ap_server a)\<lparr>se_port := tr_port t\<rparr>"
    using assms(3) by (cases "ap_server a") simp
  show ?thesis
  proof (intro conjI impI)
    assume "tr_https t"
    with assms(1,2) show "case enableSsl ctx (tr_certPath t) (tr_keyPath t) (setHttpsPort (tr_port t) a) of (ok, a') \<Rightarrow>
         (fst (tr_start ctx libStart t), tr_server (snd (tr_start ctx libStart t))) =
         (if ok then (fst (app_start libStart a'), ap_server (snd (app_start libStart a'))) else (- 1, ap_server a'))"
      by (simp add: tr_start_def enableSsl_def app_start_def setHttpsPort_def Let_def)
  next
    assume "\<not> tr_https t"
    then show "(fst (tr_start ctx libStart t), tr_server (snd (tr_start ctx libStart t))) =
      (fst (app_start libStart (setPort (tr_port t) a)), ap_server (snd (app_start libStart (setPort (tr_port t) a))))"
      unfolding tr_start_def app_start_def setPort_def Let_def assms(1) http by simp
  qed
qed

lemma transport_equals_application_witness:
  "fst (tr_start (\<lambda>_ _. True) (\<lambda>s. se_https_port s) (tr_setHttps ''c'' ''k'' (transport_new 64 server0 service0 []))) = 8080"
  using transport_equals_application [of "tr_setHttps ''c'' ''k'' (transport_new 64 server0 service0 [])" application0
      "\<lambda>_ _. True" "\<lambda>s. se_https_port s"]
  by (simp add: tr_setHttps_def transport_new_def server0_def application0_def app_start_def enableSsl_def setHttpsPort_def Let_def)

fun tr_starts :: "(string \<Rightarrow> string \<Rightarrow> bool) \<Rightarrow> (hv_server \<Rightarrow> int) \<Rightarrow> nat \<Rightarrow> hv_transport \<Rightarrow> hv_transport" where
  "tr_starts ctx libStart 0 t = t"
| "tr_starts ctx libStart (Suc n) t = tr_starts ctx libStart n (snd (tr_start ctx libStart t))"

lemma tr_start_router: "tr_router (snd (tr_start ctx libStart t)) = tr_router t"
  by (simp add: tr_start_def Let_def)

lemma tr_start_routes:
  "tr_router t = Some r \<Longrightarrow> sv_routes (tr_service (snd (tr_start ctx libStart t))) =
     sv_routes (tr_service t) @ map (bind_route r (ro_middlewares r)) (ro_routes r)"
  by (simp add: tr_start_def Let_def router_bind_def)

text \<open>
  every start binds the routes again. Starting a transport that has a router a number of times, whatever
  libhv answers, leaves its service with the routes of the router that many times over.
\<close>

theorem restart_duplicates_routes:
  "tr_router t = Some r \<Longrightarrow>
   sv_routes (tr_service (tr_starts ctx libStart n t)) =
     sv_routes (tr_service t) @ concat (replicate n (map (bind_route r (ro_middlewares r)) (ro_routes r)))"
  by (induction n arbitrary: t) (simp_all add: tr_start_router tr_start_routes)

lemma restart_duplicates_routes_witness:
  "map (\<lambda>(m, p, _). p) (sv_routes (tr_service (tr_starts (\<lambda>_ _. True) (\<lambda>_. 0) 2
     (tr_setRouter (Some (add_route GET False ''/a'' (\<lambda>c. (True, c)) router_new)) (transport_new 64 server0 service0 []))))) = [''/a'', ''/a'']"
  using restart_duplicates_routes [of "tr_setRouter (Some (add_route GET False ''/a'' (\<lambda>c. (True, c)) router_new)) (transport_new 64 server0 service0 [])"
      "add_route GET False ''/a'' (\<lambda>c. (True, c)) router_new" "\<lambda>_ _. True" "\<lambda>_. 0" 2]
  by (simp add: tr_setRouter_def transport_new_def service0_def add_route_def router_new_def bind_route_def numeral_2_eq_2)

subsection \<open>Middleware of the application and handlers of the router\<close>

text \<open>
  what \<open>Application::use\<close> middleware stores is lost. A callback, a synchronous route and the task of an asynchronous one make a context of
  their own, so whatever the context before had in its store, they do the same without it: \<open>set\<close> hands data over only between the middleware
  of the router and its handlers. (Status, body and headers are kept: they are in the request and the response.)
\<close>

theorem application_store_lost:
  "app_callback fn (c\<lparr>cx_data := d\<rparr>) = app_callback fn c \<and>
   sync_handler h chain (c\<lparr>cx_data := d\<rparr>) = sync_handler h chain c \<and>
   async_task h chain tracker (c\<lparr>cx_data := d\<rparr>) = async_task h chain tracker c \<and>
   sync_handler h [\<lparr>en_name = [], en_fn = (\<lambda>nxt c. nxt (ctx_set k v c))\<rparr>] c = sync_handler (\<lambda>c. h (ctx_set k v c)) [] c"
  by (simp add: app_callback_def sync_handler_def async_task_def fresh_context_def conn_context_def execute_foldr wrap_handler_def)

lemma application_store_lost_example:
  "fst (sync_handler (\<lambda>c. (ctx_has ''user'' c, c)) []
     (snd (app_callback (\<lambda>c. (Some 0, ctx_set ''user'' ''bob'' c)) (ctx_new sreq0 200 False)))) = None"
  by (simp add: sync_handler_def execute_foldr wrap_handler_def ctx_has_def fresh_context_def app_callback_def)

end
