(* ===== verification/Fw_Pipeline.thy ===== *)
theory Fw_Pipeline
  imports Fw_Application
begin

section \<open>What user code can do to a response\<close>

text \<open>
  Handlers and middleware are code of the application; all they can do to a request's context is to call the operations of
  \<open>include/fw/Context.hpp\<close>. Such code is a program here, registered with routers and the application as the code registers it. Which of
  the registered functions libhv calls for a request, in which order and how often is libhv's: here it is any sequence of calls. What every
  operation keeps, every response keeps.
\<close>

subsection \<open>Programs over a context\<close>

text \<open>
  A program ends with a result or an exception, calls an operation, looks at the context, calls \<open>next\<close> and goes on with its result,
  or runs a program and goes on, also when that threw (\<open>None\<close>). An exception of \<open>next\<close> passes through.
\<close>

datatype program =
    Return int | Raise | Do ctx_op program | Look "ctx \<Rightarrow> program" | CallNext "int \<Rightarrow> program"
  | Catch program "int option \<Rightarrow> program"

primrec run_program :: "(writer_call \<Rightarrow> int) \<Rightarrow> program \<Rightarrow> ctx middleware" where
  "run_program w (Return n) = (\<lambda>nxt c. (Some n, c))"
| "run_program w Raise = (\<lambda>nxt c. (None, c))"
| "run_program w (Do op p) = (\<lambda>nxt c. run_program w p nxt (ctx_step w op c))"
| "run_program w (Look f) = (\<lambda>nxt c. run_program w (f c) nxt c)"
| "run_program w (CallNext k) =
     (\<lambda>nxt c. case nxt c of (None, c') \<Rightarrow> (None, c') | (Some r, c') \<Rightarrow> run_program w (k r) nxt c')"
| "run_program w (Catch p k) = (\<lambda>nxt c. case run_program w p nxt c of (r, c') \<Rightarrow> run_program w (k r) nxt c')"

definition program_entry :: "(writer_call \<Rightarrow> int) \<Rightarrow> string \<times> program \<Rightarrow> ctx entry" where
  "program_entry w m = \<lparr>en_name = fst m, en_fn = run_program w (snd m)\<rparr>"

text \<open>Handlers and the callbacks of the application have no \<open>next\<close>.\<close>

definition no_next :: "ctx comp" where
  "no_next c = (Some 0, c)"

definition program_handler :: "(writer_call \<Rightarrow> int) \<Rightarrow> program \<Rightarrow> handler" where
  "program_handler w p c = (case run_program w p no_next c of (r, c') \<Rightarrow> (r \<noteq> None, c'))"

definition program_callback :: "(writer_call \<Rightarrow> int) \<Rightarrow> program \<Rightarrow> ctx comp" where
  "program_callback w p = run_program w p no_next"

text \<open>What code registers with a router, and with an application, in any order; a mounted router is one that was built so.\<close>

datatype site_op =
    SiteUse string program | SiteRoute route_method string program | SiteAsync string program
  | SitePostprocessor program | SiteErrorHandler program | SiteDispatcher bool | SiteTracker bool

fun register :: "(writer_call \<Rightarrow> int) \<Rightarrow> site_op \<Rightarrow> router_op" where
  "register w (SiteUse name p) = Use name (run_program w p)"
| "register w (SiteRoute m path p) = Route m path (program_handler w p)"
| "register w (SiteAsync path p) = GetAsync path (program_handler w p)"
| "register w (SitePostprocessor p) = SetPostprocessor (Some (program_callback w p))"
| "register w (SiteErrorHandler p) = SetErrorHandler (Some (program_callback w p))"
| "register w (SiteDispatcher b) = SetDispatcher b"
| "register w (SiteTracker b) = SetTracker b"

datatype app_op =
    AppUse program | AppHeaderHandler program | AppPostprocessor program | AppErrorHandler program | AppMount "site_op list"

fun app_step :: "(writer_call \<Rightarrow> int) \<Rightarrow> app_op \<Rightarrow> application \<Rightarrow> application" where
  "app_step w (AppUse p) a = app_use (program_callback w p) a"
| "app_step w (AppHeaderHandler p) a = setHeaderHandler (program_callback w p) a"
| "app_step w (AppPostprocessor p) a = setPostprocessor (program_callback w p) a"
| "app_step w (AppErrorHandler p) a = setErrorHandler (program_callback w p) a"
| "app_step w (AppMount ops) a = app_mount (fold router_step (map (register w) ops) router_new) a"

subsection \<open>What libhv can call\<close>

datatype callee = Callback "ctx comp" | Bound bound_handler

definition registered :: "application \<Rightarrow> callee set" where
  "registered a = Callback ` (set (ap_middleware a) \<union> set_option (ap_headerHandler a) \<union>
       set_option (sv_postprocessor (ap_service a)) \<union> set_option (sv_errorHandler (ap_service a))) \<union>
     Bound ` (\<lambda>(m, path, b). b) ` set (sv_routes (ap_service a))"

text \<open>A bound route under a request; \<open>runs\<close> tells whether a dispatcher runs the task.\<close>

definition serve_bound :: "bool \<Rightarrow> bound_handler \<Rightarrow> ctx comp" where
  "serve_bound runs b c =
     (case b of Sync h chain \<Rightarrow> sync_handler h chain c
      | Async h chain dispatcher tracker \<Rightarrow>
          (case async_handler h chain dispatcher tracker runs c of (ret, acts, c') \<Rightarrow> (Some ret, c')))"

text \<open>
  A call that libhv makes for a request: the function, whether a dispatcher runs its task, and the request, the status and the body that
  libhv has put there meanwhile. An asynchronous route gets the connection, with its writer if it has one. The results, exceptions
  included, go to libhv, which decides what it calls next.
\<close>

record libhv_call =
  lc_callee :: callee
  lc_runs :: bool
  lc_req :: sreq
  lc_status :: int
  lc_body :: string

definition serve_call :: "bool \<Rightarrow> libhv_call \<Rightarrow> ctx \<Rightarrow> ctx" where
  "serve_call writer l c =
     (let c1 = c\<lparr>cx_req := lc_req l, cx_status := lc_status l, cx_body := lc_body l, cx_writer := writer\<rparr>
      in case lc_callee l of Callback f \<Rightarrow> snd (f c1) | Bound b \<Rightarrow> snd (serve_bound (lc_runs l) b c1))"

definition is_async :: "callee \<Rightarrow> bool" where
  "is_async cl = (case cl of Bound (Async h chain d t) \<Rightarrow> True | _ \<Rightarrow> False)"

text \<open>What programs register is all that libhv can call.\<close>

definition program_callee :: "(writer_call \<Rightarrow> int) \<Rightarrow> callee \<Rightarrow> bool" where
  "program_callee w cl \<longleftrightarrow>
     (\<exists>p ms d t. cl = Callback (app_callback (program_callback w p)) \<or>
        cl = Bound (Sync (program_handler w p) (map (program_entry w) ms)) \<or>
        cl = Bound (Async (program_handler w p) (map (program_entry w) ms) d t))"

lemma site_chain: "\<exists>ms. op_chain (map (register w) ops) = map (program_entry w) ms"
proof (induction ops)
  case (Cons op ops)
  then obtain ms where ms: "op_chain (map (register w) ops) = map (program_entry w) ms" by blast
  show ?case
  proof (cases op)
    case (SiteUse name p)
    then have "op_chain (map (register w) (op # ops)) = map (program_entry w) ((name, p) # ms)" by (simp add: ms program_entry_def)
    then show ?thesis by blast
  qed (use ms in auto)
qed simp

lemma site_handlers: "rt \<in> set (op_routes (map (register w) ops)) \<Longrightarrow> \<exists>p. rt_handler rt = program_handler w p"
proof (induction ops)
  case (Cons op ops)
  then show ?case by (cases op) auto
qed simp

lemma site_hooks:
  "op_postprocessor (map (register w) ops) f \<in> {f} \<union> range (\<lambda>p. Some (program_callback w p))"
  "op_errorHandler (map (register w) ops) f \<in> {f} \<union> range (\<lambda>p. Some (program_callback w p))"
proof -
  have "op_postprocessor (map (register w) ops) f \<in> {f} \<union> range (\<lambda>p. Some (program_callback w p)) \<and>
      op_errorHandler (map (register w) ops) g \<in> {g} \<union> range (\<lambda>p. Some (program_callback w p))" for g
  proof (induction ops arbitrary: f g)
    case (Cons op ops)
    show ?case
    proof (cases op)
      case (SitePostprocessor p)
      then show ?thesis using Cons [of "Some (program_callback w p)" g] by auto
    next
      case (SiteErrorHandler p)
      then show ?thesis using Cons [of f "Some (program_callback w p)"] by auto
    qed (use Cons [of f g] in auto)
  qed simp
  then show "op_postprocessor (map (register w) ops) f \<in> {f} \<union> range (\<lambda>p. Some (program_callback w p))"
    "op_errorHandler (map (register w) ops) f \<in> {f} \<union> range (\<lambda>p. Some (program_callback w p))" by blast+
qed

lemma site_routes:
  assumes "(m, path, b) = bind_route (fold router_step (map (register w) ops) router_new) (op_chain (map (register w) ops)) rt"
    and "rt \<in> set (op_routes (map (register w) ops))"
  shows "program_callee w (Bound b)"
proof -
  obtain ms where "op_chain (map (register w) ops) = map (program_entry w) ms" using site_chain by blast
  moreover obtain p where "rt_handler rt = program_handler w p" using site_handlers [OF assms(2)] by blast
  ultimately show ?thesis using assms(1) by (auto simp: bind_route_def program_callee_def split: if_splits)
qed

lemma mount_registered:
  assumes "cl \<in> registered (app_step w (AppMount ops) a)"
  shows "cl \<in> registered a \<or> program_callee w cl"
proof -
  let ?r = "fold router_step (map (register w) ops) router_new"
  have r: "ro_routes ?r = op_routes (map (register w) ops)" "ro_middlewares ?r = op_chain (map (register w) ops)"
    using router_run [of "map (register w) ops" router_new] by (simp_all add: router_new_def)
  have f: "ro_postprocessor ?r = op_postprocessor (map (register w) ops) None"
      "ro_errorHandler ?r = op_errorHandler (map (register w) ops) None"
    using router_run_settings(3,4) [of "map (register w) ops" router_new] by (simp_all add: router_new_def)
  let ?a = "app_step w (AppMount ops) a"
  have sv: "ap_middleware ?a = ap_middleware a" "ap_headerHandler ?a = ap_headerHandler a" "ap_service ?a = router_bind ?r (ap_service a)"
    by (simp_all add: app_mount_def)
  have hook: "Callback g \<in> registered a \<or> program_callee w (Callback g)"
    if "sv_postprocessor (ap_service ?a) = Some g \<or> sv_errorHandler (ap_service ?a) = Some g" for g
    using that site_hooks [of w ops None] unfolding sv
    by (auto simp: router_bind_def Let_def f registered_def program_callee_def split: option.splits)
  have route: "Bound b \<in> registered a \<or> program_callee w (Bound b)" if "(m, path, b) \<in> set (sv_routes (ap_service ?a))" for m path b
  proof (cases "(m, path, b) \<in> set (sv_routes (ap_service a))")
    case True
    then show ?thesis unfolding registered_def by force
  next
    case False
    then show ?thesis using that site_routes [of m path b w ops] unfolding sv by (auto simp: router_bind_def Let_def r)
  qed
  from assms consider "\<exists>g. cl = Callback g \<and> (g \<in> set (ap_middleware a) \<or> ap_headerHandler a = Some g)"
    | "\<exists>g. cl = Callback g \<and> (sv_postprocessor (ap_service ?a) = Some g \<or> sv_errorHandler (ap_service ?a) = Some g)"
    | "\<exists>m path b. cl = Bound b \<and> (m, path, b) \<in> set (sv_routes (ap_service ?a))"
    unfolding registered_def [of ?a] sv(1,2) by auto
  then show ?thesis
  proof cases
    case 1
    then show ?thesis by (auto simp: registered_def)
  qed (use hook route in blast)+
qed

lemma app_registered:
  assumes "registered a = {}"
  shows "cl \<in> registered (fold (app_step w) ops a) \<Longrightarrow> program_callee w cl"
proof -
  have step: "cl \<in> registered (app_step w op b) \<Longrightarrow> cl \<in> registered b \<or> program_callee w cl" for op b cl
  proof (cases op)
    case (AppMount rs)
    then show "cl \<in> registered (app_step w op b) \<Longrightarrow> ?thesis" using mount_registered by simp
  qed (auto simp: registered_def app_use_def setHeaderHandler_def setPostprocessor_def setErrorHandler_def program_callee_def)
  have "cl \<in> registered (fold (app_step w) ops b) \<Longrightarrow> cl \<in> registered b \<or> program_callee w cl" for b
  proof (induction ops arbitrary: b)
    case (Cons op ops)
    then show ?case using step [of cl op b] by auto
  qed simp
  then show "cl \<in> registered (fold (app_step w) ops a) \<Longrightarrow> program_callee w cl" using assms by blast
qed

subsection \<open>Invariants of the operations\<close>

text \<open>The contract of a property of contexts that the operations keep, and what follows from it for whole requests.\<close>

locale ctx_invariant =
  fixes P :: "ctx \<Rightarrow> bool"
  assumes keep_step: "P c \<Longrightarrow> P (ctx_step w op c)"
    and keep_request: "P (fresh_context c) \<Longrightarrow> P (fresh_context (c\<lparr>cx_req := req, cx_status := status, cx_body := body, cx_writer := b\<rparr>))"
    and keep_fresh: "P c \<Longrightarrow> P (fresh_context c)"
begin

lemma keep_program:
  assumes "\<And>c. P c \<Longrightarrow> P (snd (nxt c))"
  shows "P c \<Longrightarrow> P (snd (run_program w p nxt c))"
proof (induction p arbitrary: c)
  case (CallNext k)
  obtain r c' where n: "nxt c = (r, c')" by force
  then have "P c'" using assms [OF CallNext.prems] by simp
  then show ?case using n CallNext.IH by (auto split: option.split)
next
  case (Catch p k)
  obtain r c' where n: "run_program w p nxt c = (r, c')" by force
  then have "P c'" using Catch.IH(1) [OF Catch.prems] by simp
  then show ?case using n Catch.IH(2) by simp
qed (auto intro: keep_step)

lemma keep_chain:
  assumes "\<And>c. P c \<Longrightarrow> P (snd (h c))"
  shows "P c \<Longrightarrow> P (snd (execute (map (program_entry w) ms) h c))"
  unfolding execute_foldr
proof (induction ms arbitrary: c)
  case (Cons m ms)
  then show ?case by (auto simp: program_entry_def intro: keep_program)
qed (use assms in simp)

lemma keep_no_next: "P c \<Longrightarrow> P (snd (no_next c))"
  by (simp add: no_next_def)

lemma keep_alone: "P c \<Longrightarrow> P (snd (run_program w p no_next c))"
  by (rule keep_program) (rule keep_no_next)

lemma keep_handler: "P c \<Longrightarrow> P (snd (wrap_handler (program_handler w p) c))"
  using keep_alone [of c w p] by (auto simp: wrap_handler_def program_handler_def split: prod.splits)

lemma keep_execute: "P c \<Longrightarrow> P (snd (execute (map (program_entry w) ms) (wrap_handler (program_handler w p)) c))"
  by (rule keep_chain) (rule keep_handler)

lemma keep_sync: "P (fresh_context c) \<Longrightarrow> P (snd (sync_handler (program_handler w p) (map (program_entry w) ms) c))"
  using keep_execute [of "fresh_context c" w ms p] by (auto simp: sync_handler_def split: prod.split option.split)

text \<open>Callbacks and synchronous routes see the request through contexts of their own.\<close>

lemma keep_call:
  assumes "program_callee w (lc_callee l)" and "\<not> is_async (lc_callee l)" and "P (fresh_context c)"
  shows "P (fresh_context (serve_call writer l c))"
proof -
  let ?c = "c\<lparr>cx_req := lc_req l, cx_status := lc_status l, cx_body := lc_body l, cx_writer := writer\<rparr>"
  have "P (fresh_context ?c)" by (rule keep_request [OF assms(3)])
  then have c: "P (snd (app_callback (program_callback w p) ?c))"
      "P (snd (sync_handler (program_handler w p) (map (program_entry w) ms) ?c))" for p ms
    using keep_alone keep_sync by (simp_all add: app_callback_def program_callback_def)
  show ?thesis using assms(1,2) keep_fresh [OF c(1)] keep_fresh [OF c(2)]
    by (auto simp: serve_call_def Let_def program_callee_def is_async_def serve_bound_def)
qed

end

text \<open>An asynchronous route works on the connection itself.\<close>

locale conn_invariant = ctx_invariant +
  assumes keep_mark: "P (fresh_context c) \<Longrightarrow> P (mark_async (c\<lparr>cx_writer := b\<rparr>))"
    and keep_conn: "P c \<Longrightarrow> P (conn_context c)"
begin

lemma keep_async:
  assumes "P (mark_async c)"
  shows "P (snd (snd (async_handler (program_handler w p) (map (program_entry w) ms) dispatcher tracker runs c)))"
  using keep_execute [OF keep_conn [OF assms], of w ms p] assms
  by (auto simp: async_handler_def async_task_def Let_def split: prod.split)

lemma keep_any_call:
  assumes "program_callee w (lc_callee l)" and "P (fresh_context c)"
  shows "P (fresh_context (serve_call writer l c))"
proof (cases "is_async (lc_callee l)")
  case True
  then obtain p ms d t where l: "lc_callee l = Bound (Async (program_handler w p) (map (program_entry w) ms) d t)"
    using assms(1) by (auto simp: program_callee_def is_async_def)
  let ?c = "c\<lparr>cx_req := lc_req l, cx_status := lc_status l, cx_body := lc_body l, cx_writer := writer\<rparr>"
  have "P (fresh_context ?c)" by (rule keep_request [OF assms(2)])
  from keep_mark [OF this, of writer] have "P (mark_async ?c)" by simp
  from keep_fresh [OF keep_async [OF this]]
  have "P (fresh_context (snd (snd (async_handler (program_handler w p) (map (program_entry w) ms) d t (lc_runs l) ?c))))" .
  then show ?thesis by (simp add: serve_call_def l serve_bound_def Let_def case_prod_beta)
qed (use assms keep_call in blast)

lemma keep_calls:
  assumes "\<And>l. l \<in> set ls \<Longrightarrow> program_callee w (lc_callee l)" and "P (fresh_context c)"
  shows "P (fresh_context (fold (serve_call writer) ls c))"
  using assms
proof (induction ls arbitrary: c)
  case (Cons l ls)
  have "P (fresh_context (serve_call writer l c))"
    by (rule keep_any_call [of w]) (use Cons.prems in simp_all)
  with Cons show ?case by simp
qed simp

end

subsection \<open>Responses are clean\<close>

definition output_safe :: "ctx \<Rightarrow> bool" where
  "output_safe c \<longleftrightarrow> list_all safe_call (cx_calls c) \<and> list_all safe_write (cx_writes c)"

interpretation safe_out: conn_invariant output_safe
  by unfold_locales (simp_all add: output_safe_def ctx_step_safe fresh_context_def conn_context_def mark_async_def)

text \<open>Without a writer nothing is streamed.\<close>

interpretation no_stream: ctx_invariant "\<lambda>c. \<not> cx_writer c \<and> cx_writes c = []"
proof
  show "\<not> cx_writer (ctx_step w op c) \<and> cx_writes (ctx_step w op c) = []" if "\<not> cx_writer c \<and> cx_writes c = []" for w op c
    using that by (cases op) (auto simp: ctx_op_defs split: option.split)
qed (simp_all add: fresh_context_def)

text \<open>
  C9: header values and served paths are clean. Take an application built by any sequence of \<open>use\<close>, \<open>setHeaderHandler\<close>, \<open>setPostprocessor\<close>,
  \<open>setErrorHandler\<close> and \<open>mount\<close>, the routers with any middleware, routes and hooks, all of them programs that use their contexts only
  through its operations and may return, throw, catch, call \<open>next\<close> or not. Whatever of the registered functions libhv calls for a request,
  in whatever order and how often, no value that \<open>setHeader\<close> or \<open>writeHeader\<close> passes on contains a line end and no file that libhv is told
  to serve has two dots in a row; and unless it calls an asynchronous route nothing is streamed, also on a connection that could. (Header
  names, content types and cookies are passed on as they are: nothing is claimed of those.)
\<close>

theorem served_output_safe:
  assumes "registered a = {}" and "\<And>l. l \<in> set ls \<Longrightarrow> lc_callee l \<in> registered (fold (app_step w) ops a)"
  shows "output_safe (fold (serve_call writer) ls (ctx_new req status writer)) \<and>
    ((\<forall>l\<in>set ls. \<not> is_async (lc_callee l)) \<longrightarrow> cx_writes (fold (serve_call writer) ls (ctx_new req status writer)) = [])"
proof -
  have prog: "program_callee w (lc_callee l)" if "l \<in> set ls" for l
    using app_registered [OF assms(1) assms(2) [OF that]] .
  have "output_safe (fresh_context (fold (serve_call writer) ls (ctx_new req status writer)))"
    by (rule safe_out.keep_calls [OF prog]) (simp_all add: output_safe_def ctx_new_def fresh_context_def)
  moreover have "cx_writes (fold (serve_call writer) ls c) = []"
    if "\<forall>l\<in>set ls. \<not> is_async (lc_callee l)" "cx_writes c = []" for c
    using that prog
  proof (induction ls arbitrary: c)
    case (Cons l ls)
    have "cx_writes (serve_call writer l c) = []"
      using no_stream.keep_call [of w l c writer] Cons.prems by (simp add: fresh_context_def)
    with Cons show ?case by simp
  qed simp
  ultimately show ?thesis by (simp add: output_safe_def fresh_context_def ctx_new_def)
qed

text \<open>A site whose middleware, handler and hooks try to inject line ends; libhv calls all of it, some of it twice.\<close>

definition crlf :: string where "crlf = [CHR 0x0D, CHR 0x0A]"

definition inject :: "program \<Rightarrow> program" where "inject = Do (OpSetHeader ''X'' crlf)"

definition split_ops :: "app_op list" where
  "split_ops = [AppUse (inject (Return 0)), AppHeaderHandler (inject Raise), AppErrorHandler (inject (Return 500)),
     AppMount [SiteUse ''log'' (Catch (CallNext Return) (\<lambda>r. Do (OpWriteHeader ''Y'' crlf) (Return 0))),
       SiteAsync ''/x'' (Look (\<lambda>c. Do (ServeFile (Some (ctx_path c))) Raise)), SitePostprocessor (inject (Return 0))]]"

definition split_site :: application where
  "split_site = fold (app_step (\<lambda>_. 0)) split_ops application0"

definition split_calls :: "callee list \<Rightarrow> libhv_call list" where
  "split_calls cls = map (\<lambda>cl. \<lparr>lc_callee = cl, lc_runs = True, lc_req = sreq0, lc_status = 200, lc_body = []\<rparr>) cls"

lemma served_output_safe_witness:
  "\<exists>f g b. f \<in> set (ap_middleware split_site) \<and> sv_postprocessor (ap_service split_site) = Some g \<and>
     (GET, ''/x'', b) \<in> set (sv_routes (ap_service split_site)) \<and>
     output_safe (fold (serve_call True) (split_calls [Callback f, Bound b, Callback g, Callback f]) (ctx_new sreq0 200 True))"
proof -
  obtain f g b where s: "ap_middleware split_site = [f]" "sv_postprocessor (ap_service split_site) = Some g"
      "sv_routes (ap_service split_site) = [(GET, ''/x'', b)]"
    by (simp add: split_site_def split_ops_def app_mount_def app_use_def setHeaderHandler_def setErrorHandler_def router_bind_def
        bind_route_def add_route_def router_use_def router_new_def application0_def service0_def Let_def)
  then have "Callback f \<in> registered split_site" "Callback g \<in> registered split_site" "Bound b \<in> registered split_site"
    by (auto simp: registered_def)
  moreover have "registered application0 = {}" by (simp add: registered_def application0_def service0_def)
  moreover have "lc_callee l \<in> set cls" if "l \<in> set (split_calls cls)" for l cls using that by (auto simp: split_calls_def)
  ultimately have "output_safe (fold (serve_call True) (split_calls [Callback f, Bound b, Callback g, Callback f]) (ctx_new sreq0 200 True))"
    by (intro served_output_safe [of application0 _ "\<lambda>_. 0" split_ops, folded split_site_def, THEN conjunct1]) fastforce+
  with s show ?thesis by auto
qed

end
