(* ===== verification/Fw_Json.thy ===== *)
theory Fw_Json
  imports Fw_Context
begin

section \<open>Reading JSON values\<close>

text \<open>
  \<open>include/fw/JsonUtil.hpp\<close>. The values of \<open>nlohmann::json\<close>, with its signed and unsigned integers (both 64 bits, read as signed by \<open>get<int64_t>\<close>) told
  apart; floating-point numbers are of any type, printed by a parameter. The parser of the library is a
  parameter too: \<open>None\<close> is its exception.
\<close>

subsection \<open>Values\<close>

datatype 'f json =
    JNull
  | JBool bool
  | JInt u64
  | JUInt u64
  | JFloat 'f
  | JString string
  | JArray "'f json list"
  | JObject "(string \<times> 'f json) list"

text \<open>\<open>contains\<close> and \<open>operator[]\<close>: only an object has keys.\<close>

definition json_field :: "'f json \<Rightarrow> string \<Rightarrow> 'f json option" where
  "json_field j key = (case j of JObject fs \<Rightarrow> map_of fs key | _ \<Rightarrow> None)"

text \<open>\<open>get<int64_t>\<close> and \<open>get<int>\<close> of an integer: conversions, which keep the low bits.\<close>

definition get_int64 :: "'f json \<Rightarrow> int option" where
  "get_int64 v = (case v of JInt w \<Rightarrow> Some (sint w) | JUInt w \<Rightarrow> Some (sint w) | _ \<Rightarrow> None)"

definition get_int32 :: "'f json \<Rightarrow> int option" where
  "get_int32 v = map_option (\<lambda>i. sint (word_of_int i :: 32 word)) (get_int64 v)"

subsection \<open>Accessors\<close>

definition getString :: "('f \<Rightarrow> string) \<Rightarrow> 'f json \<Rightarrow> string \<Rightarrow> string \<Rightarrow> string" where
  "getString show_double j key defaultValue =
     (case json_field j key of
        None \<Rightarrow> defaultValue
      | Some v \<Rightarrow>
          (case v of
             JString s \<Rightarrow> s
           | JFloat f \<Rightarrow> show_double f
           | _ \<Rightarrow> (case get_int64 v of Some i \<Rightarrow> show_int i | None \<Rightarrow> defaultValue)))"

definition getInt :: "'f json \<Rightarrow> string \<Rightarrow> int \<Rightarrow> int" where
  "getInt j key defaultValue =
     (case json_field j key of
        None \<Rightarrow> defaultValue
      | Some v \<Rightarrow> (case get_int32 v of Some i \<Rightarrow> i | None \<Rightarrow> defaultValue))"

definition getBool :: "'f json \<Rightarrow> string \<Rightarrow> bool \<Rightarrow> bool" where
  "getBool j key defaultValue =
     (case json_field j key of
        None \<Rightarrow> defaultValue
      | Some v \<Rightarrow>
          (case v of
             JBool b \<Rightarrow> b
           | JString s \<Rightarrow> s = ''true'' \<or> s = ''1''
           | _ \<Rightarrow> (case get_int32 v of Some i \<Rightarrow> i \<noteq> 0 | None \<Rightarrow> defaultValue)))"

definition safeParse :: "(string \<Rightarrow> 'f json option) \<Rightarrow> string \<Rightarrow> 'f json" where
  "safeParse parse body = (case parse body of Some j \<Rightarrow> j | None \<Rightarrow> JObject [])"

text \<open>The overloads on the text of a body.\<close>

definition getString_body :: "(string \<Rightarrow> 'f json option) \<Rightarrow> ('f \<Rightarrow> string) \<Rightarrow> string \<Rightarrow> string \<Rightarrow> string \<Rightarrow> string" where
  "getString_body parse show_double body key defaultValue = getString show_double (safeParse parse body) key defaultValue"

definition getInt_body :: "(string \<Rightarrow> 'f json option) \<Rightarrow> string \<Rightarrow> string \<Rightarrow> int \<Rightarrow> int" where
  "getInt_body parse body key defaultValue = getInt (safeParse parse body) key defaultValue"

definition getBool_body :: "(string \<Rightarrow> 'f json option) \<Rightarrow> string \<Rightarrow> string \<Rightarrow> bool \<Rightarrow> bool" where
  "getBool_body parse body key defaultValue = getBool (safeParse parse body) key defaultValue"

subsection \<open>Escaping\<close>

definition escape_char :: "char \<Rightarrow> string" where
  "escape_char c =
     (if c = quote then [backslash, quote]
      else if c = backslash then [backslash, backslash]
      else if c = CHR 0x0A then [backslash, CHR ''n'']
      else if c = CHR 0x0D then [backslash, CHR ''r'']
      else if c = CHR 0x09 then [backslash, CHR ''t'']
      else if code_of c < 32 then []
      else [c])"

definition json_escape :: "string \<Rightarrow> string" where
  "json_escape s = concat (map escape_char s)"

subsection \<open>Properties\<close>

lemma get_int32_fits:
  assumes "get_int64 v = Some i"
  shows "get_int32 v = Some (if - (2 ^ 31) \<le> i \<and> i < 2 ^ 31 then i else (i + 2 ^ 31) mod 2 ^ 32 - 2 ^ 31)"
proof -
  have e: "sint (word_of_int i :: 32 word) = signed_take_bit 31 i" by (simp add: signed_of_int)
  show ?thesis
  proof (cases "- (2 ^ 31) \<le> i \<and> i < 2 ^ 31")
    case True
    then have "signed_take_bit 31 i = i" by (intro signed_take_bit_int_eq_self) simp_all
    with True e assms show ?thesis by (simp add: get_int32_def)
  next
    case False
    have "signed_take_bit 31 i = (i + 2 ^ 31) mod 2 ^ 32 - 2 ^ 31"
      by (simp add: signed_take_bit_eq_take_bit_shift take_bit_eq_mod)
    with False e assms show ?thesis by (simp add: get_int32_def)
  qed
qed

text \<open>
  which integers \<open>getInt\<close> and \<open>getBool\<close> read. An integer field that fits a 32-bit \<open>int\<close> is read exactly; a larger
  one is not an error and does not give the default but is reduced modulo 2 to the 32, so \<open>getBool\<close> calls every
  multiple of 2 to the 32 false. \<open>getString\<close> prints the whole 64-bit number.
\<close>

theorem json_integers:
  assumes "json_field j key = Some v" "get_int64 v = Some i"
  shows "getInt j key d = (if - (2 ^ 31) \<le> i \<and> i < 2 ^ 31 then i else (i + 2 ^ 31) mod 2 ^ 32 - 2 ^ 31) \<and>
    getBool j key b = (i mod 2 ^ 32 \<noteq> 0) \<and> getString sd j key s = show_int i"
proof -
  have v: "getInt j key d = the (get_int32 v)" "getBool j key b = (the (get_int32 v) \<noteq> 0)" "getString sd j key s = show_int i"
    using assms by (auto simp: getInt_def getBool_def getString_def get_int32_def get_int64_def split: json.splits)
  have "the (get_int32 v) = sint (word_of_int i :: 32 word)" using assms(2) by (simp add: get_int32_def)
  moreover have "sint (word_of_int i :: 32 word) = 0 \<longleftrightarrow> i mod 2 ^ 32 = 0"
    unfolding signed_eq_0_iff by (simp add: word_of_int_eq_0_iff dvd_eq_mod_eq_0)
  ultimately show ?thesis using v get_int32_fits [OF assms(2)] by simp
qed

lemma json_integers_witness:
  "getBool (JObject [(''n'', JInt (word_of_int 4294967296) :: nat json)]) ''n'' True = False \<and>
   getInt (JObject [(''n'', JInt (word_of_int 4294967301) :: nat json)]) ''n'' 0 = 5"
proof -
  have "get_int64 (JInt (word_of_int 4294967296) :: nat json) = Some 4294967296"
    "get_int64 (JInt (word_of_int 4294967301) :: nat json) = Some 4294967301"
    by (simp_all add: get_int64_def)
  then show ?thesis
    using json_integers [of "JObject [(''n'', JInt (word_of_int 4294967296) :: nat json)]" "''n''" "JInt (word_of_int 4294967296)" 4294967296 0 True]
      json_integers [of "JObject [(''n'', JInt (word_of_int 4294967301) :: nat json)]" "''n''" "JInt (word_of_int 4294967301)" 4294967301 0 True]
    by (simp add: json_field_def)
qed

text \<open>
  what is missing or of another kind. A body that does not parse, is no object, has no such field, or has one that is
  null, an array or an object, gives the default for every accessor; a string gives \<open>getInt\<close> its default too, but \<open>getBool\<close>
  reads every string, and as true only the texts "true" and "1".
\<close>

theorem json_defaults:
  "(parse body = None \<or> (\<exists>j. parse body = Some j \<and>
      (json_field j key = None \<or> json_field j key = Some JNull \<or> (\<exists>xs. json_field j key = Some (JArray xs)) \<or>
       (\<exists>fs. json_field j key = Some (JObject fs)))) \<longrightarrow>
    getString_body parse sd body key s = s \<and> getInt_body parse body key n = n \<and> getBool_body parse body key b = b) \<and>
   (parse body = Some j \<and> json_field j key = Some (JString t) \<longrightarrow>
    getString_body parse sd body key s = t \<and> getInt_body parse body key n = n \<and>
    getBool_body parse body key b = (t = ''true'' \<or> t = ''1''))"
  by (auto simp: getString_body_def getInt_body_def getBool_body_def safeParse_def getString_def getInt_def getBool_def
      get_int32_def get_int64_def json_field_def)

lemma json_defaults_witness:
  "getInt_body (\<lambda>_. None :: nat json option) ''oops'' ''n'' 7 = 7 \<and>
   getBool_body (\<lambda>_. Some (JObject [(''on'', JString ''True'' :: nat json)])) ''body'' ''on'' True = False"
  using json_defaults [of "\<lambda>_. None :: nat json option" "''oops''" "''n''" "\<lambda>_. []" "[]" 7 True]
    json_defaults [of "\<lambda>_. Some (JObject [(''on'', JString ''True'' :: nat json)])" "''body''" "''on''" "\<lambda>_. []" "[]" 7 True
      "JObject [(''on'', JString ''True'')]" "''True''"]
  by (simp add: json_field_def)

text \<open>Reading a JSON string with the escapes that \<open>escape\<close> writes.\<close>

definition escaped_char :: "char \<Rightarrow> char option" where
  "escaped_char e =
     (if e = quote \<or> e = backslash then Some e
      else if e = CHR ''n'' then Some (CHR 0x0A)
      else if e = CHR ''r'' then Some (CHR 0x0D)
      else if e = CHR ''t'' then Some (CHR 0x09) else None)"

fun read_json_string :: "string \<Rightarrow> (string \<times> string) option" where
  "read_json_string [] = None"
| "read_json_string (c # r) =
     (if c = quote then Some ([], r)
      else if code_of c < 32 then None
      else if c = backslash then
        (case r of [] \<Rightarrow> None
         | e # r' \<Rightarrow> (case escaped_char e of None \<Rightarrow> None
                      | Some x \<Rightarrow> map_option (\<lambda>(s, t). (x # s, t)) (read_json_string r')))
      else map_option (\<lambda>(s, t). (c # s, t)) (read_json_string r))"

definition json_keeps :: "char \<Rightarrow> bool" where
  "json_keeps c \<longleftrightarrow> 32 \<le> code_of c \<or> c = CHR 0x0A \<or> c = CHR 0x0D \<or> c = CHR 0x09"

lemma read_escape_char:
  "read_json_string (escape_char c @ r) =
     (if json_keeps c then map_option (\<lambda>(s, t). (c # s, t)) (read_json_string r) else read_json_string r)"
proof -
  have q: "quote \<noteq> CHR 0x0A" "quote \<noteq> CHR 0x0D" "quote \<noteq> CHR 0x09" "backslash \<noteq> CHR 0x0A" "backslash \<noteq> CHR 0x0D"
    "backslash \<noteq> CHR 0x09" "quote \<noteq> CHR ''n''" "quote \<noteq> CHR ''r''" "quote \<noteq> CHR ''t''" "backslash \<noteq> CHR ''n''"
    "backslash \<noteq> CHR ''r''" "backslash \<noteq> CHR ''t''" "\<not> code_of quote < 32" "\<not> code_of backslash < 32" "backslash \<noteq> quote"
    by (simp_all add: quote_def backslash_def code_of_def)
  show ?thesis
    using q by (auto simp: escape_char_def escaped_char_def json_keeps_def split: prod.splits option.splits)
qed

lemma read_escaped_json: "read_json_string (json_escape s @ quote # r) = Some (filter json_keeps s, r)"
proof (induction s)
  case Nil
  show ?case by (simp add: json_escape_def)
next
  case (Cons c s)
  have "json_escape (c # s) @ quote # r = escape_char c @ (json_escape s @ quote # r)" by (simp add: json_escape_def)
  then show ?case by (simp add: read_escape_char Cons)
qed

text \<open>
  C39: escaped text reads back. A JSON reader gets from an escaped string, up to the quote that closes it, exactly the string
  without the control characters other than line feed, carriage return and tab, which \<open>escape\<close> drops; so nothing in the
  string can end it early, and every string without those control characters comes back unchanged.
\<close>

theorem json_escape_roundtrip:
  "read_json_string (json_escape s @ quote # r) = Some (filter json_keeps s, r) \<and>
   ((\<forall>c\<in>set s. json_keeps c) \<longrightarrow> read_json_string (json_escape s @ quote # r) = Some (s, r))"
  by (simp add: read_escaped_json filter_id_conv)

lemma json_escape_roundtrip_witness:
  "read_json_string (json_escape [CHR ''a'', quote, CHR 0x0A] @ quote # ''}'') = Some ([CHR ''a'', quote, CHR 0x0A], ''}'')"
  using json_escape_roundtrip [of "[CHR ''a'', quote, CHR 0x0A]" "''}''"]
  by (simp add: json_keeps_def code_of_def quote_def)

end
