(* ===== verification/Fw_PathGuard.thy ===== *)
theory Fw_PathGuard
  imports Fw_Prelude
begin

section \<open>Path guard\<close>

text \<open>
  \<open>include/fw/PathGuard.hpp\<close>. The file system is a parameter: \<open>canonical\<close> is Boost's function, \<open>None\<close> its
  error (in particular for a path that does not exist), \<open>cwd\<close> the current directory and \<open>join\<close> its \<open>operator/\<close>. \<open>isSafe\<close> returns
  the reason of a refusal, \<open>None\<close> for a safe path.
\<close>

subsection \<open>The check\<close>

definition not_slash :: "char \<Rightarrow> bool" where
  "not_slash c \<longleftrightarrow> c \<noteq> CHR ''/''"

definition resolve :: "(string \<Rightarrow> string \<Rightarrow> string) \<Rightarrow> (string \<Rightarrow> string option) \<Rightarrow> string option \<Rightarrow> string \<Rightarrow> string" where
  "resolve join canonical cwd path =
     (case canonical path of
        Some canon \<Rightarrow> canon
      | None \<Rightarrow>
          if hd path \<noteq> CHR ''/'' then (case cwd of Some dir \<Rightarrow> join dir path | None \<Rightarrow> path) else path)"

function erase_slashes :: "string \<Rightarrow> string" where
  "erase_slashes s = (if 1 < length s \<and> last s = CHR ''/'' then erase_slashes (butlast s) else s)"
  by pat_completeness auto
termination by (relation "measure length") auto

declare erase_slashes.simps [simp del]

definition BLOCKED :: "string list" where
  "BLOCKED =
     [''/bin'', ''/sbin'', ''/usr'', ''/usr/bin'', ''/usr/sbin'', ''/usr/lib'', ''/usr/lib64'',
      ''/lib'', ''/lib64'', ''/etc'', ''/dev'', ''/proc'', ''/sys'', ''/boot'', ''/run'', ''/root'', ''/home'',
      ''/var'', ''/var/log'', ''/var/run'', ''/var/lib'']"

definition slash_depth :: "string \<Rightarrow> nat" where
  "slash_depth s = length (filter (\<lambda>c. c = CHR ''/'') (drop 1 s))"

definition in_quotes :: "string \<Rightarrow> string" where
  "in_quotes s = CHR 0x27 # s @ [CHR 0x27]"

definition isSafe :: "(string \<Rightarrow> string \<Rightarrow> string) \<Rightarrow> (string \<Rightarrow> string option) \<Rightarrow> string option \<Rightarrow> string \<Rightarrow> string option" where
  "isSafe join canonical cwd path =
     (if path = [] then Some ''path is empty''
      else let resolved = erase_slashes (resolve join canonical cwd path)
      in if resolved = ''/'' then Some (''path resolves to filesystem root '' @ in_quotes ''/'')
         else if resolved \<in> set BLOCKED
              then Some (''path resolves to protected system directory '' @ in_quotes resolved)
         else if hd resolved = CHR ''/'' \<and> slash_depth resolved < 1
              then Some (''absolute path too shallow (need at least 2 levels): '' @ in_quotes resolved)
         else None)"

subsection \<open>Canonical paths\<close>

text \<open>A path as its components; canonical paths have at least one, none empty and none with a slash.\<close>

definition path_of :: "string list \<Rightarrow> string" where
  "path_of comps = concat (map (\<lambda>c. CHR ''/'' # c) comps)"

definition proper :: "string \<Rightarrow> bool" where
  "proper c \<longleftrightarrow> c \<noteq> [] \<and> CHR ''/'' \<notin> set c"

lemma path_of_snoc: "path_of (comps @ [c]) = path_of comps @ CHR ''/'' # c"
  by (simp add: path_of_def)

lemma erase_slashes_id: "last s \<noteq> CHR ''/'' \<Longrightarrow> erase_slashes s = s"
  by (subst erase_slashes.simps) simp

lemma last_path_of:
  assumes "comps \<noteq> []" "list_all proper comps"
  shows "last (path_of comps) \<noteq> CHR ''/'' \<and> path_of comps \<noteq> ''/'' \<and> hd (path_of comps) = CHR ''/''"
proof -
  obtain cs c where c: "comps = cs @ [c]" using assms(1) by (cases comps rule: rev_cases) auto
  then have p: "c \<noteq> []" "CHR ''/'' \<notin> set c" using assms(2) by (auto simp: proper_def)
  have "last c \<noteq> CHR ''/''" using p last_in_set by metis
  moreover have "hd (path_of comps) = CHR ''/''" using assms(1) by (cases comps) (simp_all add: path_of_def)
  ultimately show ?thesis using p by (auto simp: c path_of_snoc append_eq_Cons_conv)
qed

lemma count_slashes: "list_all proper comps \<Longrightarrow> length (filter (\<lambda>c. c = CHR ''/'') (path_of comps)) = length comps"
proof (induction comps)
  case (Cons c comps)
  then have "filter (\<lambda>c. c = CHR ''/'') c = []" by (auto simp: proper_def filter_empty_conv)
  with Cons show ?case by (simp add: path_of_def)
qed (simp add: path_of_def)

lemma slash_depth_path_of: "comps \<noteq> [] \<Longrightarrow> list_all proper comps \<Longrightarrow> slash_depth (path_of comps) = length comps - 1"
proof -
  assume c: "comps \<noteq> []" "list_all proper comps"
  then obtain r where "path_of comps = CHR ''/'' # r" by (cases comps) (simp_all add: path_of_def)
  with count_slashes [OF c(2)] show ?thesis by (simp add: slash_depth_def)
qed

definition two_level_blocked :: "string list" where
  "two_level_blocked = [''/usr/bin'', ''/usr/sbin'', ''/usr/lib'', ''/usr/lib64'', ''/var/log'', ''/var/run'', ''/var/lib'']"

lemma blocked_cases:
  "list_all (\<lambda>s. slash_depth s < 2 \<and> (slash_depth s < 1 \<or> s \<in> set two_level_blocked)) BLOCKED"
  "list_all (\<lambda>s. s \<in> set BLOCKED) two_level_blocked"
  by code_simp+

lemma blocked_two_levels: "s \<in> set BLOCKED \<Longrightarrow> slash_depth s < 1 \<or> s \<in> set two_level_blocked"
  using blocked_cases(1) by (auto simp: list_all_iff)

lemma two_levels_blocked: "s \<in> set two_level_blocked \<Longrightarrow> s \<in> set BLOCKED"
  using blocked_cases(2) by (auto simp: list_all_iff)

text \<open>
  what the guard accepts. A path that exists is judged by its canonical form alone, so spelling it with dots, links or
  extra slashes does not help: it is safe exactly when that form has at least two components and is none of seven directories.
  The other fourteen blocked directories are covered by the depth rule, and everything inside a blocked directory of one level
  is safe.
\<close>

theorem guard_of_existing_path:
  assumes "path \<noteq> []" "canonical path = Some (path_of comps)" "comps \<noteq> []" "list_all proper comps"
  shows "(isSafe join canonical cwd path = None) = (2 \<le> length comps \<and> path_of comps \<notin> set two_level_blocked)"
proof -
  have r: "erase_slashes (resolve join canonical cwd path) = path_of comps"
    using last_path_of [OF assms(3,4)] assms(2) by (simp add: resolve_def erase_slashes_id)
  have d: "slash_depth (path_of comps) < 1 \<longleftrightarrow> \<not> 2 \<le> length comps"
    using slash_depth_path_of [OF assms(3,4)] assms(3) by (cases comps; cases "tl comps") auto
  show ?thesis unfolding isSafe_def Let_def r
    using assms(1) last_path_of [OF assms(3,4)] d blocked_two_levels [of "path_of comps"] two_levels_blocked [of "path_of comps"]
    by auto
qed

lemma guard_of_existing_path_witness:
  "isSafe (\<lambda>d p. d @ ''/'' @ p) (\<lambda>_. Some ''/etc/ssh'') None ''../etc//ssh'' = None \<and> isSafe (\<lambda>d p. d @ ''/'' @ p) (\<lambda>_. Some ''/usr/bin'') None ''/usr/bin/'' \<noteq> None"
  using guard_of_existing_path [of "''../etc//ssh''" "\<lambda>_. Some ''/etc/ssh''" "[''etc'', ''ssh'']" "\<lambda>d p. d @ ''/'' @ p" None]
    guard_of_existing_path [of "''/usr/bin/''" "\<lambda>_. Some ''/usr/bin''" "[''usr'', ''bin'']" "\<lambda>d p. d @ ''/'' @ p" None]
  by (simp add: path_of_def proper_def two_level_blocked_def)

subsection \<open>Paths that do not exist\<close>

text \<open>What the components of an absolute path name once all directories on the way exist (without links).\<close>

fun walk :: "string list \<Rightarrow> string list \<Rightarrow> string list" where
  "walk at [] = at"
| "walk at (c # cs) =
     (if c = ''.'' then walk at cs else if c = ''..'' then walk (butlast at) cs else walk (at @ [c]) cs)"

lemma walk_plain: "list_all (\<lambda>c. c \<noteq> ''.'' \<and> c \<noteq> ''..'') cs \<Longrightarrow> walk at (cs @ ds) = walk (at @ cs) ds"
  by (induction cs arbitrary: at) auto

text \<open>
  the guard can be passed with a directory that does not exist yet. When a path cannot be made canonical it is compared as it
  is written: for every absolute directory, the protected ones included, the path that goes into a missing subdirectory and back
  out by two dots is called safe, although it names that very directory as soon as the subdirectory is there.
\<close>

theorem guard_bypass:
  assumes "canonical (path_of (dir @ [x, ''..''])) = None" "dir \<noteq> []" "list_all proper dir" "proper x"
    "list_all (\<lambda>c. c \<noteq> ''.'' \<and> c \<noteq> ''..'') (dir @ [x])"
  shows "isSafe join canonical cwd (path_of (dir @ [x, ''..''])) = None \<and> walk [] (dir @ [x, ''..'']) = dir"
proof -
  let ?p = "path_of (dir @ [x, ''..''])"
  have pr: "list_all proper (dir @ [x, ''..''])" using assms(3,4) by (simp add: proper_def)
  have h: "hd ?p = CHR ''/''" "?p \<noteq> ''/''" "last ?p \<noteq> CHR ''/''" using last_path_of [OF _ pr] by simp_all
  have ne: "?p \<noteq> []" by (simp add: path_of_def)
  have r: "erase_slashes (resolve join canonical cwd ?p) = ?p" using assms(1) h by (simp add: resolve_def erase_slashes_id)
  have d: "slash_depth ?p = length dir + 1" using slash_depth_path_of [OF _ pr] by simp
  have "?p \<notin> set BLOCKED"
  proof
    assume "?p \<in> set BLOCKED"
    then have "slash_depth ?p < 2" using blocked_cases(1) by (auto simp: list_all_iff)
    with d assms(2) show False by simp
  qed
  then have "isSafe join canonical cwd ?p = None" unfolding isSafe_def Let_def r using ne h d by simp
  moreover have "walk [] (dir @ [x, ''..'']) = dir" using walk_plain [of "dir @ [x]" "[]" "[''..'']"] assms(5) by simp
  ultimately show ?thesis ..
qed

lemma guard_bypass_witness: "isSafe (\<lambda>d p. d @ ''/'' @ p) (\<lambda>_. None) (Some ''/srv'') ''/etc/new/..'' = None \<and> walk [] [''etc'', ''new'', ''..''] = [''etc'']"
  using guard_bypass [of "\<lambda>_. None" "[''etc'']" "''new''" "\<lambda>d p. d @ ''/'' @ p" "Some ''/srv''"] by (simp add: path_of_def proper_def)

end
