(* ===== verification/Fw_Hash.thy ===== *)
theory Fw_Hash
  imports Fw_Prelude
begin

section \<open>File hashes\<close>

text \<open>
  \<open>src/HashUtil.cpp\<close>, the build with OpenSSL. An \<open>EVP\<close> digest is a parameter: how a context starts, takes bytes and ends,
  each of which may fail. A file is what its stream delivers: \<open>None\<close> when it cannot be opened, else the bytes up to the end of
  the file or up to a read error; the stream does not tell the code which of the two it was.
\<close>

subsection \<open>Hexadecimal digits\<close>

definition hex_char :: "nat \<Rightarrow> char" where
  "hex_char d = ''0123456789abcdef'' ! d"

definition toHex :: "string \<Rightarrow> string" where
  "toHex data = concat (map (\<lambda>b. [hex_char (code_of b div 16 mod 16), hex_char (code_of b mod 16)]) data)"

subsection \<open>Hashing a file\<close>

definition BUF_SIZE :: nat where "BUF_SIZE = 65536"

record 'c evp =
  ev_init :: "'c option"
  ev_update :: "'c \<Rightarrow> string \<Rightarrow> 'c option"
  ev_final :: "'c \<Rightarrow> string option"

text \<open>The read loop: a short read ends it, after its bytes have been taken.\<close>

function hash_loop :: "('c \<Rightarrow> string \<Rightarrow> 'c option) \<Rightarrow> 'c \<Rightarrow> string \<Rightarrow> 'c option" where
  "hash_loop update ctx rest =
     (if rest = [] then Some ctx
      else case update ctx (take BUF_SIZE rest) of
             None \<Rightarrow> None
           | Some ctx' \<Rightarrow> if length rest < BUF_SIZE then Some ctx' else hash_loop update ctx' (drop BUF_SIZE rest))"
  by pat_completeness auto
termination by (relation "measure (\<lambda>(_, _, rest). length rest)") (auto simp: BUF_SIZE_def)

declare hash_loop.simps [simp del]

definition fileHex :: "'c evp \<Rightarrow> string option \<Rightarrow> string" where
  "fileHex e stream =
     (case stream of
        None \<Rightarrow> []
      | Some data \<Rightarrow>
          (case ev_init e of
             None \<Rightarrow> []
           | Some ctx \<Rightarrow>
               (case hash_loop (ev_update e) ctx data of
                  None \<Rightarrow> []
                | Some ctx' \<Rightarrow> (case ev_final e ctx' of None \<Rightarrow> [] | Some md \<Rightarrow> toHex md))))"

text \<open>The two functions differ in the digest; each reads the file anew.\<close>

definition fileMD5Hex :: "'c evp \<Rightarrow> string option \<Rightarrow> string" where
  "fileMD5Hex md5 stream = fileHex md5 stream"

definition fileSHA256Hex :: "'c evp \<Rightarrow> string option \<Rightarrow> string" where
  "fileSHA256Hex sha256 stream = fileHex sha256 stream"

fun same_digits :: "string \<Rightarrow> string \<Rightarrow> bool" where
  "same_digits (a # as) (b # bs) = (lower_char a = lower_char b \<and> same_digits as bs)"
| "same_digits _ _ = True"

definition digest_matches :: "string \<Rightarrow> string \<Rightarrow> bool" where
  "digest_matches actual expected \<longleftrightarrow> actual \<noteq> [] \<and> length actual = length expected \<and> same_digits actual expected"

definition hash_verify :: "'c evp \<Rightarrow> 'd evp \<Rightarrow> string option \<Rightarrow> string option \<Rightarrow> string \<Rightarrow> string \<Rightarrow> bool" where
  "hash_verify md5 sha256 stream1 stream2 expectedMD5 expectedSHA256 \<longleftrightarrow>
     (if expectedMD5 \<noteq> [] \<and> \<not> digest_matches (fileMD5Hex md5 stream1) expectedMD5 then False
      else if expectedSHA256 \<noteq> [] \<and> \<not> digest_matches (fileSHA256Hex sha256 stream2) expectedSHA256 then False
      else True)"

subsection \<open>Properties\<close>

text \<open>
  What a digest library documents: taking bytes in parts is taking them at once, and taking none changes nothing.
\<close>

definition streaming :: "'c evp \<Rightarrow> bool" where
  "streaming e \<longleftrightarrow> (\<forall>c. ev_update e c [] = Some c) \<and>
     (\<forall>c a b. ev_update e c (a @ b) = Option.bind (ev_update e c a) (\<lambda>c'. ev_update e c' b))"

lemma hash_loop_whole:
  assumes "streaming e"
  shows "hash_loop (ev_update e) c data = ev_update e c data"
proof (induction "ev_update e" c data rule: hash_loop.induct)
  case (1 ctx rest)
  show ?case
  proof (cases "rest = []")
    case True
    then show ?thesis using assms by (subst hash_loop.simps) (simp add: streaming_def)
  next
    case False
    have split: "ev_update e ctx rest = Option.bind (ev_update e ctx (take BUF_SIZE rest)) (\<lambda>c'. ev_update e c' (drop BUF_SIZE rest))"
      using assms unfolding streaming_def by (metis append_take_drop_id)
    show ?thesis
    proof (cases "ev_update e ctx (take BUF_SIZE rest)")
      case None
      with False split show ?thesis by (subst hash_loop.simps) simp
    next
      case (Some c')
      show ?thesis
      proof (cases "length rest < BUF_SIZE")
        case True
        with False Some show ?thesis by (subst hash_loop.simps) simp
      next
        case long: False
        with 1 [OF False Some] False Some split show ?thesis by (subst hash_loop.simps) simp
      qed
    qed
  qed
qed

text \<open>
  C34: the whole file is hashed. For a digest library as documented, the block-wise reading makes no difference, also when the
  file is empty or its length a multiple of the buffer: the result is the hexadecimal form of the digest of all bytes that the
  stream delivers, or empty when the file cannot be opened or the library fails. So a read error after some bytes is not
  noticed: the result is then the digest of the bytes before it.
\<close>

theorem file_hash_whole:
  assumes "streaming e" "ev_init e = Some c"
  shows "fileMD5Hex e (Some data) =
      (case Option.bind (ev_update e c data) (ev_final e) of None \<Rightarrow> [] | Some md \<Rightarrow> toHex md) \<and>
    fileSHA256Hex e (Some data) = fileMD5Hex e (Some data) \<and> fileMD5Hex e None = []"
  using assms by (auto simp: fileMD5Hex_def fileSHA256Hex_def fileHex_def hash_loop_whole split: option.splits)

text \<open>A digest for the examples: the length and the sum of the bytes.\<close>

definition sum_digest :: "nat evp" where
  "sum_digest = \<lparr>ev_init = Some 0, ev_update = (\<lambda>c s. Some (c + sum_list (map code_of s))),
     ev_final = (\<lambda>c. Some [char_of (c mod 256)])\<rparr>"

lemma sum_digest_streaming: "streaming sum_digest"
  by (simp add: streaming_def sum_digest_def)

lemma file_hash_whole_witness: "fileMD5Hex sum_digest (Some ''AB'') = ''83''"
  using file_hash_whole [OF sum_digest_streaming, of 0 "''AB''"]
  by (simp add: sum_digest_def toHex_def hex_char_def code_of_def)

lemma same_digits_lower: "length xs = length ys \<Longrightarrow> same_digits xs ys = (to_lower xs = to_lower ys)"
  by (induction xs ys rule: list_induct2) (simp_all add: to_lower_def)

lemma digest_matches_eq: "digest_matches a b \<longleftrightarrow> a \<noteq> [] \<and> to_lower a = to_lower b"
proof (cases "length a = length b")
  case False
  then have "to_lower a \<noteq> to_lower b" by (metis length_to_lower)
  with False show ?thesis by (simp add: digest_matches_def)
qed (simp add: digest_matches_def same_digits_lower)

text \<open>
  what \<open>verify\<close> accepts. It compares without regard to the case of letters: true exactly when each digest that is asked for
  is the file's, and with no digest asked for it is true of every path, also of one that does not exist. A file that
  cannot be read is refused as soon as one digest is asked for.
\<close>

theorem hash_verify_exact:
  "hash_verify md5 sha256 s1 s2 m h =
     ((m = [] \<or> (fileMD5Hex md5 s1 \<noteq> [] \<and> to_lower m = to_lower (fileMD5Hex md5 s1))) \<and>
      (h = [] \<or> (fileSHA256Hex sha256 s2 \<noteq> [] \<and> to_lower h = to_lower (fileSHA256Hex sha256 s2)))) \<and>
   hash_verify md5 sha256 None None [] []"
  by (auto simp: hash_verify_def digest_matches_eq)

text \<open>Reading hexadecimal digits.\<close>

definition hex_val :: "char \<Rightarrow> nat" where
  "hex_val c = (if is_digit c then code_of c - 48 else code_of (lower_char c) - 87)"

fun fromHex :: "string \<Rightarrow> string" where
  "fromHex (a # b # r) = char_of (16 * hex_val a + hex_val b) # fromHex r"
| "fromHex _ = []"

lemma hex_chars:
  "list_all (\<lambda>d. hex_val (hex_char d) = d \<and> \<not> is_upper (hex_char d) \<and>
     (is_digit (hex_char d) \<or> hex_char d \<in> set ''abcdef'')) [0..<16]"
  by code_simp

lemma hex_char_facts:
  "d < 16 \<Longrightarrow> hex_val (hex_char d) = d" "d < 16 \<Longrightarrow> \<not> is_upper (hex_char d)"
  "d < 16 \<Longrightarrow> is_digit (hex_char d) \<or> hex_char d \<in> set ''abcdef''"
  using hex_chars by (auto simp: list_all_iff)

lemma byte_digits: "char_of (16 * (code_of b div 16 mod 16) + code_of b mod 16) = b"
proof -
  have "code_of b div 16 < 16" using code_of_less [of b] by simp
  then have "16 * (code_of b div 16 mod 16) + code_of b mod 16 = code_of b" by simp
  then show ?thesis by simp
qed

lemma fromHex_toHex: "fromHex (toHex data) = data"
proof (induction data)
  case (Cons b data)
  then show ?case using byte_digits [of b] by (simp add: toHex_def hex_char_facts)
qed (simp add: toHex_def)

lemma toHex_lower: "to_lower (toHex data) = toHex data"
  by (induction data) (simp_all add: toHex_def to_lower_def hex_char_facts)

text \<open>
  the hexadecimal form loses nothing. It has two digits per byte, all of them decimal digits or the letters a to f, and
  reading it gives the bytes back; so two digests with equal hexadecimal forms, letters in either case, are equal.
\<close>

theorem hex_roundtrip:
  "fromHex (toHex data) = data \<and> length (toHex data) = 2 * length data \<and>
   list_all (\<lambda>c. is_digit c \<or> c \<in> set ''abcdef'') (toHex data) \<and>
   (to_lower (toHex data) = to_lower (toHex data') \<longrightarrow> data = data')"
proof (intro conjI impI)
  show "fromHex (toHex data) = data" by (rule fromHex_toHex)
  show "length (toHex data) = 2 * length data" by (induction data) (simp_all add: toHex_def)
  have "is_digit (hex_char d) \<or> hex_char d \<in> set ''abcdef''" if "d < 16" for d using hex_char_facts(3) [OF that] .
  then show "list_all (\<lambda>c. is_digit c \<or> c \<in> set ''abcdef'') (toHex data)"
    by (induction data) (simp_all add: toHex_def)
  assume "to_lower (toHex data) = to_lower (toHex data')"
  then show "data = data'" by (metis toHex_lower fromHex_toHex)
qed

lemma hex_roundtrip_witness:
  "to_lower (toHex [CHR 0xAB]) = to_lower (toHex [CHR 0xAB]) \<and> fromHex (toHex [CHR 0xAB]) = [CHR 0xAB]"
  using hex_roundtrip [of "[CHR 0xAB]" "[CHR 0xAB]"] by simp

end
