(* ===== verification/Fw_Time.thy ===== *)
theory Fw_Time
  imports Fw_Prelude
begin

section \<open>Times as text\<close>

text \<open>
  \<open>src/TimeUtil.cpp\<close>. A time point of Boost's system clock is a signed 64-bit number of nanoseconds since 1970. Of the C
  library \<open>gmtime_r\<close> is the Gregorian calendar; the time zone is a parameter: \<open>off t\<close> is the local offset from UTC, in
  seconds, that \<open>localtime_r\<close> applies at the time \<open>t\<close>, and \<open>now_off\<close> the offset that \<open>getSystemTimezone\<close> has found for the present moment
  (\<open>system_offset\<close>).
\<close>

subsection \<open>Calendar\<close>

record tm =
  tm_year :: int
  tm_mon :: int
  tm_mday :: int
  tm_hour :: int
  tm_min :: int
  tm_sec :: int

text \<open>
  Years are counted from the first of March 2000 (day 11017 after the first of January 1970), in cycles of 400, 100, 4 and
  one years; the year is the calendar year and the month 1 to 12 here, where C subtracts 1900 and 1.
\<close>

definition civil_year :: "int \<Rightarrow> int \<times> int" where
  "civil_year d =
     (let qc = d div 146097; r = d mod 146097;
          c = min 3 (r div 36524); r1 = r - c * 36524;
          q = r1 div 1461; r2 = r1 - q * 1461;
          y = min 3 (r2 div 365)
      in (400 * qc + 100 * c + 4 * q + y, r2 - y * 365))"

definition gmtime :: "int \<Rightarrow> tm" where
  "gmtime t =
     (let (y, doy) = civil_year (t div 86400 - 11017); s = t mod 86400; mp = (5 * doy + 2) div 153
      in \<lparr>tm_year = 2000 + y + (if mp < 10 then 0 else 1), tm_mon = (if mp < 10 then mp + 3 else mp - 9),
          tm_mday = doy - (153 * mp + 2) div 5 + 1, tm_hour = s div 3600, tm_min = s mod 3600 div 60, tm_sec = s mod 60\<rparr>)"

subsection \<open>Formatting\<close>

text \<open>Division as C does it.\<close>

definition tdiv :: "int \<Rightarrow> int \<Rightarrow> int" where
  "tdiv a b = (if a < 0 then - ((- a) div b) else a div b)"

text \<open>\<open>std::setfill('0') << std::setw(w)\<close>.\<close>

definition pad :: "nat \<Rightarrow> int \<Rightarrow> string" where
  "pad w i = replicate (w - length (show_int i)) (CHR ''0'') @ show_int i"

definition iso_text :: "tm \<Rightarrow> int \<Rightarrow> string" where
  "iso_text info milliseconds =
     pad 4 (tm_year info) @ ''-'' @ pad 2 (tm_mon info) @ ''-'' @ pad 2 (tm_mday info) @ ''T'' @
     pad 2 (tm_hour info) @ '':'' @ pad 2 (tm_min info) @ '':'' @ pad 2 (tm_sec info) @
     (if 0 < milliseconds then ''.'' @ pad 3 milliseconds else [])"

definition system_timezone :: "int \<Rightarrow> string" where
  "system_timezone offsetSeconds =
     (let hours = tdiv offsetSeconds 3600; minutes = tdiv (offsetSeconds - 3600 * hours) 60
      in (if 0 \<le> offsetSeconds then ''+'' @ pad 2 hours @ '':'' @ pad 2 minutes
          else ''-'' @ pad 2 (- hours) @ '':'' @ pad 2 (- minutes)))"

text \<open>
  The offset that \<open>getSystemTimezone\<close> formats. Of the zone at that time the C library knows its standard offset and what summer time adds, 0
  outside it; \<open>localtime_r\<close> sets \<open>tm_isdst\<close> in summer time and \<open>gmtime_r\<close> never does; \<open>mktime\<close> takes the fields, here as the seconds \<open>wall\<close> that they make
  on a calendar without zones, for local time, of summer time when \<open>tm_isdst\<close> is set and of standard time when it is not.
\<close>

record zone_now =
  zo_std :: int
  zo_save :: int

definition mktime :: "zone_now \<Rightarrow> int \<Rightarrow> bool \<Rightarrow> int" where
  "mktime z wall tm_isdst = wall - zo_std z - (if tm_isdst then zo_save z else 0)"

definition system_offset :: "zone_now \<Rightarrow> int \<Rightarrow> int" where
  "system_offset z now = mktime z (now + zo_std z + zo_save z) (zo_save z \<noteq> 0) - mktime z now False"

definition iso_of_point :: "(int \<Rightarrow> int) \<Rightarrow> int \<Rightarrow> int \<Rightarrow> string \<Rightarrow> string" where
  "iso_of_point off now_off timePoint timezone =
     (let seconds = tdiv timePoint 1000000000;
          microseconds = tdiv (timePoint - seconds * 1000000000) 1000;
          info = (if timezone = [] then gmtime (seconds + off seconds) else gmtime seconds);
          milliseconds = tdiv microseconds 1000
      in iso_text info milliseconds @ (if timezone = [] then system_timezone now_off else timezone))"

text \<open>\<open>from_time_t\<close> and the sum with the microseconds; \<open>None\<close> when a 64-bit number overflows.\<close>

definition time_point :: "int \<Rightarrow> int \<Rightarrow> int option" where
  "time_point timestamp microseconds =
     (let a = timestamp * 1000000000; p = a + microseconds * 1000
      in if - (2 ^ 63) \<le> a \<and> a < 2 ^ 63 \<and> - (2 ^ 63) \<le> p \<and> p < 2 ^ 63 then Some p else None)"

definition toISO8601 :: "(int \<Rightarrow> int) \<Rightarrow> int \<Rightarrow> int \<Rightarrow> int \<Rightarrow> string \<Rightarrow> string option" where
  "toISO8601 off now_off timestamp microseconds timezone =
     map_option (\<lambda>p. iso_of_point off now_off p timezone) (time_point timestamp microseconds)"

definition durationMs :: "int \<Rightarrow> int \<Rightarrow> int" where
  "durationMs start end = tdiv (end - start) 1000000"

definition toMillisecondsString :: "int \<Rightarrow> string" where
  "toMillisecondsString timePoint = show_int (tdiv timePoint 1000000)"

definition nowISO8601 :: "(int \<Rightarrow> int) \<Rightarrow> int \<Rightarrow> int \<Rightarrow> string \<Rightarrow> string" where
  "nowISO8601 off now_off now timezone = iso_of_point off now_off now timezone"

definition nowMs :: "int \<Rightarrow> int" where
  "nowMs now = tdiv now 1000000"

definition formatTimePart :: "int \<Rightarrow> string" where
  "formatTimePart timePoint = []"

lemma nowMs_text: "toMillisecondsString now = show_int (nowMs now)"
  by (simp add: toMillisecondsString_def nowMs_def)

subsection \<open>The calendar is the Gregorian one\<close>

text \<open>The number of the day of a date, by the rule of the leap years.\<close>

definition days_of_date :: "int \<Rightarrow> int \<Rightarrow> int \<Rightarrow> int" where
  "days_of_date year mon mday =
     (let y = year - 2000 - (if mon \<le> 2 then 1 else 0); mp = (mon + 9) mod 12
      in 365 * y + y div 4 - y div 100 + y div 400 + (153 * mp + 2) div 5 + mday - 1 + 11017)"

lemma div_bounds: "0 < b \<Longrightarrow> b * (a div b) \<le> a \<and> a < b * (a div b) + b" for a b :: int
  using mult_div_mod_eq [of b a] pos_mod_bound [of b a] pos_mod_sign [of b a] by linarith

lemma div_unique: "a = b * q + r \<Longrightarrow> 0 \<le> r \<Longrightarrow> r < b \<Longrightarrow> a div b = q" for a b q r :: int
  by (rule int_div_pos_eq)

text \<open>A count of at most \<open>m\<close> full periods, and what is left over.\<close>

lemma min_div:
  fixes r n m :: int
  assumes "0 \<le> r" "r < n * m + n + e" "0 < n" "0 \<le> m" "0 \<le> e" "k = min m (r div n)"
  shows "0 \<le> k" "k \<le> m" "0 \<le> r - k * n" "r - k * n < n + e"
proof -
  note d = div_bounds [OF assms(3), of r]
  show "0 \<le> k" "k \<le> m" using assms by (simp_all add: pos_imp_zdiv_nonneg_iff)
  have "n * k \<le> n * (r div n)" using assms(3,6) by (intro mult_left_mono) simp_all
  then have "n * k \<le> r" using d by linarith
  then show "0 \<le> r - k * n" by (simp add: mult.commute)
  show "r - k * n < n + e"
  proof (cases "m \<le> r div n")
    case True
    with assms(2,6) show ?thesis by (simp add: mult.commute)
  next
    case False
    with assms(5,6) d show ?thesis by (simp add: mult.commute)
  qed
qed

lemma civil_year_facts:
  assumes "civil_year d = (y, doy)"
  shows "d = 365 * y + y div 4 - y div 100 + y div 400 + doy" "0 \<le> doy" "doy \<le> 365" "400 * (d div 146097) \<le> y"
    "y \<le> 400 * (d div 146097) + 399"
proof -
  define qc r c r1 q r2 y1 where "qc = d div 146097" and "r = d mod 146097" and "c = min 3 (r div 36524)"
    and "r1 = r - c * 36524" and "q = r1 div 1461" and "r2 = r1 - q * 1461" and "y1 = min 3 (r2 div 365)"
  note defs = qc_def r_def c_def r1_def q_def r2_def y1_def
  have "civil_year d = (400 * qc + 100 * c + 4 * q + y1, r2 - y1 * 365)"
    unfolding civil_year_def Let_def defs by (rule refl)
  with assms have y: "y = 400 * qc + 100 * c + 4 * q + y1" "doy = r2 - y1 * 365" by simp_all
  have r: "0 \<le> r" "r \<le> 146096" "d = 146097 * qc + r" by (simp_all add: qc_def r_def)
  have c: "0 \<le> c" "c \<le> 3" "0 \<le> r1" "r1 \<le> 36524" using min_div [of r 36524 3 1 c] r unfolding r1_def c_def by simp_all
  have q: "0 \<le> q" "q \<le> 24" "0 \<le> r2" "r2 \<le> 1460" using min_div [of r1 1461 24 0 q] c div_bounds [of 1461 r1] unfolding r2_def q_def by auto
  have y1: "0 \<le> y1" "y1 \<le> 3" "0 \<le> doy" "doy \<le> 365" using min_div [of r2 365 3 1 y1] q unfolding y y1_def by simp_all
  have "y div 4 = 100 * qc + 25 * c + q" "y div 100 = 4 * qc + c" "y div 400 = qc"
    using c q y1 y(1) by (auto intro!: div_unique [where r = y1] div_unique [where r = "4 * q + y1"] div_unique [where r = "100 * c + 4 * q + y1"])
  then show "d = 365 * y + y div 4 - y div 100 + y div 400 + doy" using r y by (simp add: r1_def r2_def)
  show "0 \<le> doy" "doy \<le> 365" using y1 by simp_all
  show "400 * (d div 146097) \<le> y" "y \<le> 400 * (d div 146097) + 399" using y c q y1 by (simp_all add: qc_def)
qed

lemma gmtime_facts:
  assumes "tm = gmtime t"
  shows "days_of_date (tm_year tm) (tm_mon tm) (tm_mday tm) = t div 86400"
    "1 \<le> tm_mon tm" "tm_mon tm \<le> 12" "1 \<le> tm_mday tm" "tm_mday tm \<le> 31"
    "tm_hour tm * 3600 + tm_min tm * 60 + tm_sec tm = t mod 86400"
    "0 \<le> tm_hour tm" "tm_hour tm \<le> 23" "0 \<le> tm_min tm" "tm_min tm \<le> 59" "0 \<le> tm_sec tm" "tm_sec tm \<le> 59"
    "0 \<le> t \<Longrightarrow> t < 12000000000 \<Longrightarrow> 0 \<le> tm_year tm \<and> tm_year tm \<le> 9999"
proof -
  obtain y doy where c: "civil_year (t div 86400 - 11017) = (y, doy)" by force
  note f = civil_year_facts [OF c]
  define mp where "mp = (5 * doy + 2) div 153"
  have mp: "153 * mp \<le> 5 * doy + 2" "5 * doy + 2 < 153 * mp + 153" using div_bounds [of 153 "5 * doy + 2"] by (simp_all add: mp_def)
  then have mp: "0 \<le> mp" "mp \<le> 11" "153 * mp \<le> 5 * doy + 2" "5 * doy + 2 < 153 * mp + 153" using f(2,3) by linarith+
  have tm: "tm_year tm = 2000 + y + (if mp < 10 then 0 else 1)" "tm_mon tm = (if mp < 10 then mp + 3 else mp - 9)"
    "tm_mday tm = doy - (153 * mp + 2) div 5 + 1" "tm_hour tm = t mod 86400 div 3600" "tm_min tm = t mod 86400 mod 3600 div 60"
    "tm_sec tm = t mod 86400 mod 60"
    unfolding assms gmtime_def c Let_def prod.case mp_def tm.select_convs by (rule refl)+
  show m: "1 \<le> tm_mon tm" "tm_mon tm \<le> 12" unfolding tm(2) using mp(1,2) by simp_all
  have mm: "(tm_mon tm + 9) mod 12 = mp" unfolding tm(2) using mod_pos_pos_trivial [OF mp(1)] mp(2) by (cases "mp < 10") simp_all
  have yy: "tm_year tm - 2000 - (if tm_mon tm \<le> 2 then 1 else 0) = y" unfolding tm(1,2) using mp(1,2) by (cases "mp < 10") simp_all
  show "days_of_date (tm_year tm) (tm_mon tm) (tm_mday tm) = t div 86400"
    using f(1) unfolding days_of_date_def Let_def mm yy tm(3) by simp
  have "153 * mp + 2 < 5 * ((153 * mp + 2) div 5) + 5" "5 * ((153 * mp + 2) div 5) \<le> 153 * mp + 2"
    using div_bounds [of 5 "153 * mp + 2"] by simp_all
  then show "1 \<le> tm_mday tm" "tm_mday tm \<le> 31" using mp tm(3) by linarith+
  define s u where "s = t mod 86400" and "u = s mod 3600"
  have s7: "s mod 60 = u mod 60" unfolding u_def by (rule mod_mod_cancel [symmetric]) simp
  have s: "0 \<le> s" "s < 86400" "0 \<le> u" "u < 3600" by (simp_all add: s_def u_def)
  have s5: "s = 3600 * (s div 3600) + u" unfolding u_def by (rule mult_div_mod_eq [symmetric])
  have s6: "u = 60 * (u div 60) + u mod 60" by (rule mult_div_mod_eq [symmetric])
  have hms: "tm_hour tm = s div 3600" "tm_min tm = u div 60" "tm_sec tm = u mod 60" 
    by (simp_all only: tm(4,5) s_def [symmetric] u_def) (simp only: tm(6) s_def [symmetric] s7 [unfolded u_def])
  show "tm_hour tm * 3600 + tm_min tm * 60 + tm_sec tm = t mod 86400" unfolding hms s_def [symmetric] using s5 s6 by linarith
  show "0 \<le> tm_hour tm" "tm_hour tm \<le> 23" unfolding hms using s s5 by linarith+
  show "0 \<le> tm_sec tm" "tm_sec tm \<le> 59" unfolding hms using pos_mod_bound [of 60 u] pos_mod_sign [of 60 u] by linarith+
  then show "0 \<le> tm_min tm" "tm_min tm \<le> 59" unfolding hms using s(3,4) s6 by linarith+
  assume t: "0 \<le> t" "t < 12000000000"
  then have "- 1 \<le> (t div 86400 - 11017) div 146097" "(t div 86400 - 11017) div 146097 \<le> 0" by linarith+
  with f(4,5) have "- 400 \<le> y" "y \<le> 399" by linarith+
  then show "0 \<le> tm_year tm \<and> tm_year tm \<le> 9999" unfolding tm(1) by simp
qed

subsection \<open>Reading a time back\<close>

lemma length_show_nat: "n < 10 ^ Suc k \<Longrightarrow> length (show_nat n) \<le> Suc k"
proof (induction k arbitrary: n)
  case 0
  then show ?case by (subst show_nat.simps) simp
next
  case (Suc k)
  show ?case
  proof (cases "n < 10")
    case True
    then show ?thesis by (subst show_nat.simps) simp
  next
    case False
    have "n div 10 < 10 ^ Suc k" using Suc.prems by (simp add: less_mult_imp_div_less)
    with Suc.IH False show ?thesis by (subst show_nat.simps) simp
  qed
qed

lemma digits_val_zeros: "digits_val (replicate k (CHR ''0'') @ ds) = digits_val ds"
proof (induction k)
  case (Suc k)
  have "digits_val (CHR ''0'' # s) = digits_val s" for s by (simp add: digits_val_def code_of_def)
  with Suc show ?case by simp
qed simp

text \<open>A field of fixed width reads back.\<close>

lemma pad_facts:
  assumes "0 \<le> i" "i < 10 ^ Suc k"
  shows "length (pad (Suc k) i) = Suc k" "digits_val (pad (Suc k) i) = nat i"
proof -
  have s: "show_int i = show_nat (nat i)" using assms(1) by (simp add: show_int_def)
  have "nat i < 10 ^ Suc k" using assms by (simp add: nat_less_iff)
  from length_show_nat [OF this] show "length (pad (Suc k) i) = Suc k" by (simp add: pad_def s)
  show "digits_val (pad (Suc k) i) = nat i" by (simp add: pad_def s digits_val_zeros)
qed

lemma pad2: "0 \<le> i \<Longrightarrow> i < 100 \<Longrightarrow> \<exists>a b. pad 2 i = [a, b] \<and> int (digits_val [a, b]) = i"
  using pad_facts [of i 1] by (auto simp: numeral_2_eq_2 length_Suc_conv)

lemma pad3: "0 \<le> i \<Longrightarrow> i < 1000 \<Longrightarrow> \<exists>a b c. pad 3 i = [a, b, c] \<and> int (digits_val [a, b, c]) = i"
  using pad_facts [of i 2] by (auto simp: numeral_eq_Suc length_Suc_conv)

lemma pad4: "0 \<le> i \<Longrightarrow> i < 10000 \<Longrightarrow> \<exists>a b c d. pad 4 i = [a, b, c, d] \<and> int (digits_val [a, b, c, d]) = i"
  using pad_facts [of i 3] by (auto simp: numeral_eq_Suc length_Suc_conv)

text \<open>
  The instant that an ISO 8601 text of this form denotes, in milliseconds since 1970: the date and time by the calendar, less the
  offset of the zone, which is Z or a sign with hours and minutes.
\<close>

fun zone_offset :: "string \<Rightarrow> int option" where
  "zone_offset [z] = (if z = CHR ''Z'' then Some 0 else None)"
| "zone_offset [g, a, b, _, c, d] =
     (let v = int (digits_val [a, b]) * 3600 + int (digits_val [c, d]) * 60
      in if g = CHR ''+'' then Some v else if g = CHR ''-'' then Some (- v) else None)"
| "zone_offset _ = None"

definition split_ms :: "string \<Rightarrow> int \<times> string" where
  "split_ms rest =
     (if 4 \<le> length rest \<and> hd rest = CHR ''.'' then (int (digits_val (take 3 (drop 1 rest))), drop 4 rest) else (0, rest))"

fun iso_instant :: "string \<Rightarrow> int option" where
  "iso_instant (y1 # y2 # y3 # y4 # _ # m1 # m2 # _ # d1 # d2 # _ # h1 # h2 # _ # n1 # n2 # _ # s1 # s2 # rest) =
     (let (ms, zone) = split_ms rest
      in map_option (\<lambda>off. (days_of_date (int (digits_val [y1, y2, y3, y4])) (int (digits_val [m1, m2])) (int (digits_val [d1, d2])) * 86400 +
            int (digits_val [h1, h2]) * 3600 + int (digits_val [n1, n2]) * 60 + int (digits_val [s1, s2]) - off) * 1000 + ms)
          (zone_offset zone))"
| "iso_instant _ = None"

lemma split_ms_facts:
  "zone \<noteq> [] \<Longrightarrow> hd zone \<noteq> CHR ''.'' \<Longrightarrow> split_ms zone = (0, zone)"
  "split_ms (CHR ''.'' # a # b # c # zone) = (int (digits_val [a, b, c]), zone)"
  by (simp_all add: split_ms_def numeral_3_eq_3)

lemma iso_text_instant:
  assumes "0 \<le> t" "t < 12000000000" "0 \<le> ms" "ms < 1000" "zone_offset zone = Some z"
  shows "iso_instant (iso_text (gmtime t) ms @ zone) = Some ((t - z) * 1000 + ms)"
proof -
  define info where "info = gmtime t"
  note f = gmtime_facts [OF info_def]
  from f(13) [OF assms(1,2)] obtain y1 y2 y3 y4 where y: "pad 4 (tm_year info) = [y1, y2, y3, y4]"
    "int (digits_val [y1, y2, y3, y4]) = tm_year info" using pad4 [of "tm_year info"] by auto
  from f(2,3) obtain m1 m2 where m: "pad 2 (tm_mon info) = [m1, m2]" "int (digits_val [m1, m2]) = tm_mon info"
    using pad2 [of "tm_mon info"] by auto
  from f(4,5) obtain d1 d2 where d: "pad 2 (tm_mday info) = [d1, d2]" "int (digits_val [d1, d2]) = tm_mday info"
    using pad2 [of "tm_mday info"] by auto
  from f(7,8) obtain h1 h2 where h: "pad 2 (tm_hour info) = [h1, h2]" "int (digits_val [h1, h2]) = tm_hour info"
    using pad2 [of "tm_hour info"] by auto
  from f(9,10) obtain n1 n2 where n: "pad 2 (tm_min info) = [n1, n2]" "int (digits_val [n1, n2]) = tm_min info"
    using pad2 [of "tm_min info"] by auto
  from f(11,12) obtain s1 s2 where s: "pad 2 (tm_sec info) = [s1, s2]" "int (digits_val [s1, s2]) = tm_sec info"
    using pad2 [of "tm_sec info"] by auto
  have t: "days_of_date (tm_year info) (tm_mon info) (tm_mday info) * 86400 + tm_hour info * 3600 + tm_min info * 60 + tm_sec info = t"
    using f(1,6) div_mult_mod_eq [of t 86400] by linarith
  have zone: "zone \<noteq> []" "hd zone \<noteq> CHR ''.''"
    using assms(5) by (cases zone rule: zone_offset.cases; auto simp: Let_def split: if_splits)+
  have "iso_instant (iso_text info ms @ zone) = Some ((t - z) * 1000 + ms)"
  proof (cases "0 < ms")
    case True
    with assms(4) obtain a b c where "pad 3 ms = [a, b, c]" "int (digits_val [a, b, c]) = ms" using pad3 [of ms] by auto
    with True show ?thesis using t assms(5)
      by (simp add: iso_text_def y(1) m(1) d(1) h(1) n(1) s(1) y(2) m(2) d(2) h(2) n(2) s(2) split_ms_facts)
  next
    case False
    with assms(3) have ms: "ms = 0" by simp
    with zone show ?thesis using t assms(5)
      by (simp add: iso_text_def y(1) m(1) d(1) h(1) n(1) s(1) y(2) m(2) d(2) h(2) n(2) s(2) split_ms_facts)
  qed
  then show ?thesis by (simp add: info_def)
qed

lemma tdiv_exact: "0 < b \<Longrightarrow> tdiv (a * b) b = a"
  by (cases "a * b < 0") (simp_all add: tdiv_def flip: mult_minus_left)

lemma point_parts:
  assumes "0 \<le> t" "0 \<le> us" "us < 1000000"
  shows "tdiv (t * 1000000000 + us * 1000) 1000000000 = t"
    "tdiv (t * 1000000000 + us * 1000 - t * 1000000000) 1000 = us" "tdiv us 1000 = us div 1000"
  using assms by (simp_all add: tdiv_def)

lemma point_fits: "0 \<le> t \<Longrightarrow> t < 9223372036 \<Longrightarrow> 0 \<le> us \<Longrightarrow> us < 1000000 \<Longrightarrow>
  time_point t us = Some (t * 1000000000 + us * 1000)"
  by (simp add: time_point_def Let_def)

lemma iso_given_zone:
  assumes "0 \<le> t" "t < 9223372036" "0 \<le> us" "us < 1000000" "zone \<noteq> []"
  shows "toISO8601 off now_off t us zone = Some (iso_text (gmtime t) (us div 1000) @ zone)"
  using point_fits [OF assms(1-4)] point_parts [OF assms(1,3,4)] assms(5) by (simp add: toISO8601_def iso_of_point_def Let_def)

lemma zone_not_empty: "zone_offset zone = Some z \<Longrightarrow> zone \<noteq> []"
  by auto

text \<open>
  C30: UTC times read back. For every time from 1970 up to the year 2262, where the 64-bit nanoseconds of the clock end, the text that
  \<open>toISO8601\<close> writes for the zone Z denotes exactly the given second, and the milliseconds of the microseconds given.
\<close>

theorem iso_utc_roundtrip:
  assumes "0 \<le> t" "t < 9223372036" "0 \<le> us" "us < 1000000"
  shows "\<exists>txt. toISO8601 off now_off t us ''Z'' = Some txt \<and> iso_instant txt = Some (t * 1000 + us div 1000)"
proof -
  have "iso_instant (iso_text (gmtime t) (us div 1000) @ ''Z'') = Some ((t - 0) * 1000 + us div 1000)"
    using assms by (intro iso_text_instant) simp_all
  with iso_given_zone [OF assms, of "''Z''"] show ?thesis by auto
qed

lemma iso_utc_roundtrip_witness:
  "\<exists>txt. toISO8601 (\<lambda>_. 0) 0 951868799 999999 ''Z'' = Some txt \<and> iso_instant txt = Some 951868799999"
  using iso_utc_roundtrip [of 951868799 999999 "\<lambda>_. 0" 0] by simp

text \<open>
  a zone is written but not applied. For a zone other than UTC the date and time are those of UTC, followed by the zone's text: what is
  written denotes an instant that is off by the whole offset of the zone, eight hours too early for +08:00.
\<close>

theorem iso_zone_not_applied:
  assumes "0 \<le> t" "t < 9223372036" "0 \<le> us" "us < 1000000" "zone_offset zone = Some z"
  shows "\<exists>txt. toISO8601 off now_off t us zone = Some txt \<and> iso_instant txt = Some ((t - z) * 1000 + us div 1000)"
proof -
  have "iso_instant (iso_text (gmtime t) (us div 1000) @ zone) = Some ((t - z) * 1000 + us div 1000)"
    using assms by (intro iso_text_instant) simp_all
  with iso_given_zone [OF assms(1-4) zone_not_empty [OF assms(5)]] show ?thesis by auto
qed

lemma iso_zone_not_applied_witness:
  "\<exists>txt. toISO8601 (\<lambda>_. 0) 0 1700000000 0 ''+08:00'' = Some txt \<and> iso_instant txt = Some (1700000000000 - 8 * 3600 * 1000)"
  using iso_zone_not_applied [of 1700000000 0 "''+08:00''" 28800 "\<lambda>_. 0" 0] by (simp add: digits_val_def code_of_def)

lemma system_timezone_offset:
  assumes "60 dvd o1" "- 360000 < o1" "o1 < 360000"
  shows "zone_offset (system_timezone o1) = Some o1"
proof -
  define a where "a = \<bar>o1\<bar>"
  have a: "0 \<le> a" "a < 360000" "60 dvd a" using assms by (simp_all add: a_def)
  have "0 \<le> a div 3600" "a div 3600 < 100" "0 \<le> (a - 3600 * (a div 3600)) div 60" "(a - 3600 * (a div 3600)) div 60 < 100"
    using a(1,2) by linarith+
  note p2 = pad2 [OF this(1,2)] pad2 [OF this(3,4)]
  obtain h1 h2 where h: "pad 2 (a div 3600) = [h1, h2]" "int (digits_val [h1, h2]) = a div 3600" using p2(1) by blast
  obtain m1 m2 where m: "pad 2 ((a - 3600 * (a div 3600)) div 60) = [m1, m2]"
    "int (digits_val [m1, m2]) = (a - 3600 * (a div 3600)) div 60" using p2(2) by blast
  have "60 dvd a - 3600 * (a div 3600)" using a(3) by (intro dvd_diff) simp_all
  then have sum: "a div 3600 * 3600 + (a - 3600 * (a div 3600)) div 60 * 60 = a" by simp
  show ?thesis
  proof (cases "0 \<le> o1")
    case True
    then have "system_timezone o1 = ''+'' @ pad 2 (a div 3600) @ '':'' @ pad 2 ((a - 3600 * (a div 3600)) div 60)"
      by (simp add: system_timezone_def tdiv_def a_def Let_def)
    with h m sum True show ?thesis by (simp add: a_def)
  next
    case False
    then have "system_timezone o1 = ''-'' @ pad 2 (a div 3600) @ '':'' @ pad 2 ((a - 3600 * (a div 3600)) div 60)"
      by (simp add: system_timezone_def tdiv_def a_def Let_def)
    with h m sum False show ?thesis by (simp add: a_def)
  qed
qed

lemma iso_local_instant:
  assumes "0 \<le> t" "t < 9223372036" "0 \<le> us" "us < 1000000" "0 \<le> t + off t" "t + off t < 12000000000"
    "60 dvd now_off" "- 360000 < now_off" "now_off < 360000"
  shows "\<exists>txt. toISO8601 off now_off t us [] = Some txt \<and> iso_instant txt = Some ((t + (off t - now_off)) * 1000 + us div 1000)"
proof -
  have "toISO8601 off now_off t us [] = Some (iso_text (gmtime (t + off t)) (us div 1000) @ system_timezone now_off)"
    using point_fits [OF assms(1-4)] point_parts [OF assms(1,3,4)] by (simp add: toISO8601_def iso_of_point_def Let_def)
  moreover have "iso_instant (iso_text (gmtime (t + off t)) (us div 1000) @ system_timezone now_off) =
      Some ((t + off t - now_off) * 1000 + us div 1000)"
    using assms by (intro iso_text_instant system_timezone_offset) simp_all
  ultimately show ?thesis by (simp add: algebra_simps)
qed

text \<open>
  local times carry the offset of today. Without a zone the date and time are local for the time given, but the offset
  written behind them is that of the present moment: the text denotes the right instant exactly when the two offsets agree, so not for a
  time on the other side of a change to or from summer time.
\<close>

theorem iso_local_offset:
  assumes "0 \<le> t" "t < 9223372036" "0 \<le> us" "us < 1000000" "0 \<le> t + off t" "t + off t < 12000000000"
    "60 dvd now_off" "- 360000 < now_off" "now_off < 360000"
  shows "\<exists>txt. toISO8601 off now_off t us [] = Some txt \<and> iso_instant txt = Some ((t + (off t - now_off)) * 1000 + us div 1000)"
  using iso_local_instant [where off = off, OF assms] .

lemma iso_local_offset_witness:
  "\<exists>txt. toISO8601 (\<lambda>t. if t < 1711846800 then 3600 else 7200) 3600 1720000000 0 [] = Some txt \<and> iso_instant txt = Some 1720003600000"
  using iso_local_offset [of 1720000000 0 "\<lambda>t. if t < 1711846800 then 3600 else 7200" 3600] by simp

text \<open>
  in summer time local times are wrong. \<open>getSystemTimezone\<close> always finds the standard offset, because \<open>mktime\<close> takes the UTC fields for
  standard time: so the text of a local time, when the time given and the present are both in the same summer time, shows the right clock but
  denotes an instant that is later by what summer time adds. Outside summer time it denotes the time given.
\<close>

theorem iso_summer_time:
  assumes "0 \<le> t" "t < 9223372036" "0 \<le> us" "us < 1000000" "off t = zo_std z + zo_save z" "0 \<le> t + off t" "t + off t < 12000000000"
    "60 dvd zo_std z" "\<bar>zo_std z\<bar> < 360000"
  shows "system_offset z now = zo_std z \<and>
    (\<exists>txt. toISO8601 off (system_offset z now) t us [] = Some txt \<and> iso_instant txt = Some ((t + zo_save z) * 1000 + us div 1000))"
proof
  show o: "system_offset z now = zo_std z" by (simp add: system_offset_def mktime_def)
  have "- 360000 < zo_std z" "zo_std z < 360000" using assms(9) by simp_all
  from iso_local_instant [where off = off, OF assms(1-4,6-8) this]
  show "\<exists>txt. toISO8601 off (system_offset z now) t us [] = Some txt \<and> iso_instant txt = Some ((t + zo_save z) * 1000 + us div 1000)"
    unfolding o assms(5) by simp
qed

lemma iso_summer_time_witness:
  "\<exists>txt. toISO8601 (\<lambda>_. 7200) (system_offset \<lparr>zo_std = 3600, zo_save = 3600\<rparr> 1720000000) 1720000000 0 [] = Some txt \<and>
     iso_instant txt = Some 1720003600000"
  using conjunct2 [OF iso_summer_time [of 1720000000 0 "\<lambda>_. 7200" "\<lparr>zo_std = 3600, zo_save = 3600\<rparr>" 1720000000]] by simp

text \<open>
  before 1970 fractions are dropped upwards. The seconds are cut off towards zero, so for a time before 1970 with a fraction of a
  second the text is that of the next full second, without milliseconds.
\<close>

theorem iso_before_1970:
  assumes "- 9223372036 \<le> t" "t < 0" "0 < us" "us < 1000000"
  shows "toISO8601 off now_off t us zone = toISO8601 off now_off (t + 1) 0 zone"
proof -
  let ?p = "t * 1000000000 + us * 1000"
  have f: "time_point t us = Some ?p" "time_point (t + 1) 0 = Some ((t + 1) * 1000000000)"
    using assms by (simp_all add: time_point_def Let_def)
  have s: "tdiv ?p 1000000000 = t + 1" using assms(2-4) by (simp add: tdiv_def)
  have m: "tdiv (tdiv (?p - (t + 1) * 1000000000) 1000) 1000 \<le> 0" using assms(3,4) by (auto simp: tdiv_def)
  have s': "tdiv ((t + 1) * 1000000000) 1000000000 = t + 1" by (rule tdiv_exact) simp
  have z: "tdiv (tdiv ((t + 1) * 1000000000 - (t + 1) * 1000000000) 1000) 1000 = 0" by (simp add: tdiv_def)
  have i: "iso_text info ms = iso_text info 0" if "ms \<le> 0" for info ms using that by (simp add: iso_text_def)
  show ?thesis unfolding toISO8601_def f option.map iso_of_point_def Let_def s s' z using i [OF m] by simp
qed

lemma iso_before_1970_witness:
  "toISO8601 (\<lambda>_. 0) 0 (- 1) 500000 ''Z'' = toISO8601 (\<lambda>_. 0) 0 0 0 ''Z''"
  using iso_before_1970 [of "- 1" 500000] by simp

end
