(* ===== verification/Fw_Log.thy ===== *)
theory Fw_Log
  imports Fw_Prelude
begin

section \<open>Logging\<close>

text \<open>
  \<open>src/Logger.cpp\<close>, a front of spdlog, and \<open>src/LogConfig.cpp\<close>, a front of libhv's log. Whether spdlog can open the sinks
  that it is asked for is a parameter. What is logged is the list of the calls that spdlog gets.
\<close>

subsection \<open>Levels\<close>

datatype log_level = TRACE | DEBUG | INFO | WARN | ERROR

datatype spd_level = SpdTrace | SpdDebug | SpdInfo | SpdWarn | SpdErr | SpdCritical | SpdOff

fun level_num :: "log_level \<Rightarrow> nat" where
  "level_num TRACE = 0"
| "level_num DEBUG = 1"
| "level_num INFO = 2"
| "level_num WARN = 3"
| "level_num ERROR = 4"

lemma level_num_inject: "level_num a = level_num b \<longleftrightarrow> a = b"
  by (cases a; cases b; simp)

text \<open>The comparison of the enumeration.\<close>

instantiation log_level :: linorder
begin

definition less_eq_log_level :: "log_level \<Rightarrow> log_level \<Rightarrow> bool" where
  "less_eq_log_level a b \<longleftrightarrow> level_num a \<le> level_num b"

definition less_log_level :: "log_level \<Rightarrow> log_level \<Rightarrow> bool" where
  "less_log_level a b \<longleftrightarrow> level_num a < level_num b"

instance
  by standard (auto simp: less_eq_log_level_def less_log_level_def level_num_inject)

end

fun toSpdlogLevel :: "log_level \<Rightarrow> spd_level" where
  "toSpdlogLevel TRACE = SpdTrace"
| "toSpdlogLevel DEBUG = SpdDebug"
| "toSpdlogLevel INFO = SpdInfo"
| "toSpdlogLevel WARN = SpdWarn"
| "toSpdlogLevel ERROR = SpdErr"

fun fromSpdlogLevel :: "spd_level \<Rightarrow> log_level" where
  "fromSpdlogLevel SpdTrace = TRACE"
| "fromSpdlogLevel SpdDebug = DEBUG"
| "fromSpdlogLevel SpdInfo = INFO"
| "fromSpdlogLevel SpdWarn = WARN"
| "fromSpdlogLevel SpdErr = ERROR"
| "fromSpdlogLevel SpdCritical = ERROR"
| "fromSpdlogLevel SpdOff = ERROR"

subsection \<open>The logger\<close>

record spd_logger =
  sp_console :: bool
  sp_file :: "(string \<times> nat \<times> nat) option"
  sp_level :: spd_level

record logger =
  lg_logger :: "spd_logger option"
  lg_level :: log_level
  lg_logFile :: string
  lg_consoleEnabled :: bool
  lg_maxFileSize :: nat
  lg_maxFiles :: nat
  lg_calls :: "(spd_level \<times> string) list"

text \<open>\<open>opens\<close> tells whether spdlog can create the sinks; when it throws, the old logger stays.\<close>

definition recreateLogger :: "(bool \<Rightarrow> (string \<times> nat \<times> nat) option \<Rightarrow> bool) \<Rightarrow> logger \<Rightarrow> logger" where
  "recreateLogger opens s =
     (let file_sink = (if lg_logFile s \<noteq> [] then Some (lg_logFile s, lg_maxFileSize s, lg_maxFiles s) else None)
      in if opens (lg_consoleEnabled s) file_sink
         then s\<lparr>lg_logger := Some \<lparr>sp_console = lg_consoleEnabled s, sp_file = file_sink, sp_level = toSpdlogLevel (lg_level s)\<rparr>\<rparr>
         else s)"

definition logger_new :: "(bool \<Rightarrow> (string \<times> nat \<times> nat) option \<Rightarrow> bool) \<Rightarrow> logger" where
  "logger_new opens = recreateLogger opens \<lparr>lg_logger = None, lg_level = INFO, lg_logFile = [], lg_consoleEnabled = False,
     lg_maxFileSize = 104857600, lg_maxFiles = 5, lg_calls = []\<rparr>"

definition setConsoleEnabled :: "(bool \<Rightarrow> (string \<times> nat \<times> nat) option \<Rightarrow> bool) \<Rightarrow> bool \<Rightarrow> logger \<Rightarrow> logger" where
  "setConsoleEnabled opens enabled s = recreateLogger opens (s\<lparr>lg_consoleEnabled := enabled\<rparr>)"

definition setLevel :: "log_level \<Rightarrow> logger \<Rightarrow> logger" where
  "setLevel level s =
     s\<lparr>lg_level := level, lg_logger := map_option (\<lambda>l. l\<lparr>sp_level := toSpdlogLevel level\<rparr>) (lg_logger s)\<rparr>"

definition getLevel :: "logger \<Rightarrow> log_level" where
  "getLevel s = lg_level s"

definition setLogFile :: "(bool \<Rightarrow> (string \<times> nat \<times> nat) option \<Rightarrow> bool) \<Rightarrow> string \<Rightarrow> nat \<Rightarrow> nat \<Rightarrow> logger \<Rightarrow> logger" where
  "setLogFile opens logDir maxFileSize maxFiles s =
     (if logDir = [] then recreateLogger opens (s\<lparr>lg_logFile := []\<rparr>)
      else recreateLogger opens
             (s\<lparr>lg_maxFileSize := maxFileSize, lg_maxFiles := maxFiles, lg_logFile := logDir @ ''/error.log''\<rparr>))"

definition log_message :: "log_level \<Rightarrow> string \<Rightarrow> logger \<Rightarrow> logger" where
  "log_message level message s =
     (if level < lg_level s \<or> lg_logger s = None then s
      else s\<lparr>lg_calls := lg_calls s @ [(toSpdlogLevel level, message)]\<rparr>)"

text \<open>
  \<open>tracef\<close> to \<open>errorf\<close>: \<open>formatted\<close> is the whole formatted text; \<open>vsnprintf\<close> keeps what fits the buffer of 4096 bytes with
  its terminating zero, and the message is the C string in it.
\<close>

definition log_formatted :: "log_level \<Rightarrow> string \<Rightarrow> logger \<Rightarrow> logger" where
  "log_formatted level formatted s =
     (if level < lg_level s \<or> lg_logger s = None then s
      else log_message level (takeWhile (\<lambda>c. code_of c \<noteq> 0) (take 4095 formatted)) s)"

subsection \<open>What is logged\<close>

datatype log_op =
    SetConsole bool | SetLevel log_level | SetLogFile string nat nat
  | Log log_level string | Logf log_level string

fun logger_step :: "(bool \<Rightarrow> (string \<times> nat \<times> nat) option \<Rightarrow> bool) \<Rightarrow> log_op \<Rightarrow> logger \<Rightarrow> logger" where
  "logger_step opens (SetConsole b) s = setConsoleEnabled opens b s"
| "logger_step opens (SetLevel l) s = setLevel l s"
| "logger_step opens (SetLogFile d n m) s = setLogFile opens d n m s"
| "logger_step opens (Log l msg) s = log_message l msg s"
| "logger_step opens (Logf l msg) s = log_formatted l msg s"

text \<open>The contract: a threshold and the messages that reached it.\<close>

fun log_spec :: "log_op \<Rightarrow> log_level \<times> (spd_level \<times> string) list \<Rightarrow> log_level \<times> (spd_level \<times> string) list" where
  "log_spec (SetLevel l) (_, out) = (l, out)"
| "log_spec (Log l msg) (t, out) = (t, if t \<le> l then out @ [(toSpdlogLevel l, msg)] else out)"
| "log_spec (Logf l msg) (t, out) =
     (t, if t \<le> l then out @ [(toSpdlogLevel l, takeWhile (\<lambda>c. code_of c \<noteq> 0) (take 4095 msg))] else out)"
| "log_spec _ st = st"

definition logger_ok :: "logger \<Rightarrow> bool" where
  "logger_ok s \<longleftrightarrow> (\<exists>l. lg_logger s = Some l \<and> sp_level l = toSpdlogLevel (lg_level s))"

definition logger_abs :: "logger \<Rightarrow> log_level \<times> (spd_level \<times> string) list" where
  "logger_abs s = (lg_level s, lg_calls s)"

lemma recreate_facts:
  "logger_ok s \<Longrightarrow> logger_ok (recreateLogger opens s)" "lg_level (recreateLogger opens s) = lg_level s"
  "lg_calls (recreateLogger opens s) = lg_calls s"
  by (auto simp: recreateLogger_def logger_ok_def Let_def)

lemma logger_ok_step: "logger_ok s \<Longrightarrow> logger_ok (logger_step opens op s)"
proof (cases op)
  case (SetConsole b)
  assume "logger_ok s"
  then show ?thesis using SetConsole recreate_facts(1) [of "s\<lparr>lg_consoleEnabled := b\<rparr>" opens]
    by (simp add: setConsoleEnabled_def logger_ok_def)
next
  case (SetLogFile d n m)
  assume "logger_ok s"
  then show ?thesis
    using SetLogFile recreate_facts(1) [of "s\<lparr>lg_logFile := []\<rparr>" opens]
      recreate_facts(1) [of "s\<lparr>lg_maxFileSize := n, lg_maxFiles := m, lg_logFile := d @ ''/error.log''\<rparr>" opens]
    by (simp add: setLogFile_def logger_ok_def)
qed (auto simp: logger_ok_def setLevel_def log_message_def log_formatted_def)

lemma logger_abs_step: "logger_ok s \<Longrightarrow> logger_abs (logger_step opens op s) = log_spec op (logger_abs s)"
  by (cases op) (auto simp: logger_abs_def setConsoleEnabled_def setLogFile_def setLevel_def log_message_def log_formatted_def
      logger_ok_def recreate_facts not_less)

lemma logger_run: "logger_ok s \<Longrightarrow> logger_abs (fold (logger_step opens) ops s) = fold log_spec ops (logger_abs s) \<and>
   logger_ok (fold (logger_step opens) ops s)"
  by (induction ops arbitrary: s) (simp_all add: logger_abs_step logger_ok_step)

lemma logger_new_ok: "opens False None \<Longrightarrow> logger_ok (logger_new opens) \<and> logger_abs (logger_new opens) = (INFO, [])"
  by (simp add: logger_new_def logger_ok_def logger_abs_def recreateLogger_def)

text \<open>
  C29: the logger is a threshold. However it is configured in between, and whether or not its sinks can be opened then, spdlog gets exactly
  the messages whose level was at least the level set at the time, in order, formatted ones cut to 4095 bytes and at a zero byte; the level of
  spdlog's own logger is always the one set, so it drops none of them.
\<close>

theorem logger_refines_threshold:
  assumes "opens False None"
  shows "logger_abs (fold (logger_step opens) ops (logger_new opens)) = fold log_spec ops (INFO, []) \<and>
    (\<exists>l. lg_logger (fold (logger_step opens) ops (logger_new opens)) = Some l \<and>
         sp_level l = toSpdlogLevel (lg_level (fold (logger_step opens) ops (logger_new opens))))"
  using logger_run [of "logger_new opens" opens ops] logger_new_ok [of opens] assms by (simp add: logger_ok_def)

lemma logger_refines_threshold_witness:
  "lg_calls (fold (logger_step (\<lambda>c f. f = None)) [Log DEBUG ''a'', SetLogFile ''/x'' 1 1, SetLevel DEBUG, Log DEBUG ''b'']
     (logger_new (\<lambda>c f. f = None))) = [(SpdDebug, ''b'')]"
  using logger_refines_threshold [of "\<lambda>c f. f = None" "[Log DEBUG ''a'', SetLogFile ''/x'' 1 1, SetLevel DEBUG, Log DEBUG ''b'']"]
  by (simp add: logger_abs_def less_eq_log_level_def)

text \<open>
  a log file that cannot be opened. \<open>setLogFile\<close> then keeps the sinks of before, while the logger's own fields already name the new
  file; nothing tells the caller, and the next successful call of any setter that makes the sinks anew moves to it.
\<close>

theorem log_file_failure:
  assumes "dir \<noteq> []" "\<not> opens (lg_consoleEnabled s) (Some (dir @ ''/error.log'', n, m))"
  shows "lg_logger (setLogFile opens dir n m s) = lg_logger s \<and> lg_logFile (setLogFile opens dir n m s) = dir @ ''/error.log'' \<and>
    (opens' b (Some (dir @ ''/error.log'', n, m)) \<longrightarrow>
     (\<exists>l. lg_logger (setConsoleEnabled opens' b (setLogFile opens dir n m s)) = Some l \<and> sp_file l = Some (dir @ ''/error.log'', n, m)))"
  using assms by (simp add: setLogFile_def recreateLogger_def setConsoleEnabled_def)

lemma log_file_failure_witness:
  "lg_logger (setLogFile (\<lambda>c f. f = None) ''/root'' 1 2 (logger_new (\<lambda>c f. f = None))) = lg_logger (logger_new (\<lambda>c f. f = None))"
  using log_file_failure [of "''/root''" "\<lambda>c f. f = None" "logger_new (\<lambda>c f. f = None)" 1 2] by simp

lemma level_maps: "fromSpdlogLevel (toSpdlogLevel l) = l" "v \<noteq> SpdCritical \<Longrightarrow> v \<noteq> SpdOff \<Longrightarrow> toSpdlogLevel (fromSpdlogLevel v) = v"
  by (cases l; simp) (cases v; simp)

subsection \<open>LogConfig\<close>

datatype hv_level = HV_DEBUG | HV_INFO | HV_WARN | HV_ERROR

record log_config =
  lc_initialized :: bool
  lc_file :: "string option"
  lc_maxFileSize :: "nat option"
  lc_remainDays :: "int option"
  lc_level :: "hv_level option"

definition hv_level_of :: "int \<Rightarrow> hv_level" where
  "hv_level_of level =
     (if level = 0 then HV_DEBUG else if level = 1 then HV_INFO else if level = 2 then HV_WARN
      else if level = 3 then HV_ERROR else HV_INFO)"

text \<open>What the file system answers for a directory: exists, is a directory, can be created, is one afterwards.\<close>

record dir_env =
  de_exists :: bool
  de_is_dir :: bool
  de_created :: bool
  de_is_dir_then :: bool

definition ensureDirectory :: "(string \<Rightarrow> dir_env) \<Rightarrow> string \<Rightarrow> bool" where
  "ensureDirectory fs dir =
     (if dir = [] then False
      else if de_exists (fs dir) then de_is_dir (fs dir)
      else de_created (fs dir) \<and> de_is_dir_then (fs dir))"

definition log_initialize :: "(string \<Rightarrow> dir_env) \<Rightarrow> string \<Rightarrow> nat \<Rightarrow> int \<Rightarrow> log_config \<Rightarrow> bool \<times> log_config" where
  "log_initialize fs logDir maxFileSize remainDays s =
     (if lc_initialized s then (True, s)
      else if \<not> ensureDirectory fs logDir then (False, s)
      else (True, s\<lparr>lc_initialized := True, lc_file := Some (logDir @ ''/fw.log''), lc_maxFileSize := Some maxFileSize,
              lc_remainDays := Some remainDays, lc_level := Some (hv_level_of 1)\<rparr>))"

fun init_all :: "(string \<Rightarrow> dir_env) \<Rightarrow> (string \<times> nat \<times> int) list \<Rightarrow> log_config \<Rightarrow> bool list \<times> log_config" where
  "init_all fs [] s = ([], s)"
| "init_all fs ((d, n, r) # cs) s =
     (case log_initialize fs d n r s of (ok, s1) \<Rightarrow> case init_all fs cs s1 of (oks, s2) \<Rightarrow> (ok # oks, s2))"

lemma init_done: "lc_initialized s \<Longrightarrow> init_all fs cs s = (map (\<lambda>_. True) cs, s)"
  by (induction cs) (auto simp: log_initialize_def)

lemma init_fails: "\<not> lc_initialized s \<Longrightarrow> \<forall>(d, _, _)\<in>set cs. \<not> ensureDirectory fs d \<Longrightarrow> init_all fs cs s = (map (\<lambda>_. False) cs, s)"
  by (induction cs) (auto simp: log_initialize_def)

lemma init_append: "init_all fs (cs @ ds) s =
   (case init_all fs cs s of (a, s1) \<Rightarrow> case init_all fs ds s1 of (b, s2) \<Rightarrow> (a @ b, s2))"
  by (induction cs arbitrary: s) (auto split: prod.splits)

text \<open>
  the first directory wins. Of any calls of \<open>initialize\<close> the first one whose directory is there or can be made decides file, size, days
  and level; those before it answer false and change nothing, those after it answer true and change nothing, whatever they ask for.
\<close>

theorem log_initialized_once:
  assumes "\<not> lc_initialized s" "\<forall>(d, _, _)\<in>set cs. \<not> ensureDirectory fs d" "ensureDirectory fs d"
  shows "init_all fs (cs @ (d, n, r) # ds) s =
    (map (\<lambda>_. False) cs @ True # map (\<lambda>_. True) ds,
     s\<lparr>lc_initialized := True, lc_file := Some (d @ ''/fw.log''), lc_maxFileSize := Some n, lc_remainDays := Some r,
       lc_level := Some HV_INFO\<rparr>)"
  using assms by (simp add: init_append init_fails log_initialize_def init_done hv_level_of_def)

lemma log_initialized_once_witness:
  "fst (init_all (\<lambda>d. \<lparr>de_exists = d = ''log'', de_is_dir = True, de_created = False, de_is_dir_then = False\<rparr>)
     ([(''/x'', 1, 1)] @ (''log'', 2, 2) # [('''', 3, 3)])
     \<lparr>lc_initialized = False, lc_file = None, lc_maxFileSize = None, lc_remainDays = None, lc_level = None\<rparr>) = [False, True, True]"
  using log_initialized_once [of "\<lparr>lc_initialized = False, lc_file = None, lc_maxFileSize = None, lc_remainDays = None, lc_level = None\<rparr>"
      "[(''/x'', 1, 1)]" "\<lambda>d. \<lparr>de_exists = d = ''log'', de_is_dir = True, de_created = False, de_is_dir_then = False\<rparr>" "''log''" 2 2 "[('''', 3, 3)]"]
  by (simp add: ensureDirectory_def)

end
