(* ===== verification/Fw_Cert.thy ===== *)
theory Fw_Cert
  imports Fw_Prelude
begin

section \<open>Certificates\<close>

text \<open>
  \<open>src/CertUtil.cpp\<close>. What OpenSSL and the file system answer are parameters (\<open>openssl\<close>, \<open>cert_env\<close>): whether each call succeeds, which text it keeps
  of an entry of a name, how it reads the text of an extension, how it writes and reads PEM files and prints a time, and the readings of
  its clock. Times are seconds of that clock. A file is its bytes.
\<close>

subsection \<open>Data\<close>

datatype san_entry = SanDns string | SanIp string | SanOther

type_synonym x509_name = "(string \<times> string) list"

record cert =
  ct_subject :: x509_name
  ct_issuer :: x509_name
  ct_notBefore :: "int option"
  ct_notAfter :: "int option"
  ct_key :: nat
  ct_san :: "san_entry list option"

text \<open>
  \<open>os_add_entry\<close> is \<open>X509_NAME_add_entry_by_txt\<close> of a field and a text, \<open>None\<close> when it refuses the text; \<open>os_parse_san\<close> is
  \<open>X509V3_EXT_conf_nid\<close> with \<open>X509_add_ext\<close>; \<open>os_adj\<close> is \<open>X509_gmtime_adj\<close> for a reading of the clock and an offset, \<open>None\<close> when the time is out of
  OpenSSL's range and the field stays unset; \<open>os_name_eq\<close> is \<open>X509_NAME_cmp\<close>; \<open>os_print\<close> is \<open>ASN1_TIME_print\<close>, which also prints a time that was never set.
\<close>

record openssl =
  os_add_entry :: "string \<Rightarrow> string \<Rightarrow> string option"
  os_parse_san :: "string \<Rightarrow> san_entry list option"
  os_adj :: "int \<Rightarrow> int \<Rightarrow> int option"
  os_name_eq :: "x509_name \<Rightarrow> x509_name \<Rightarrow> bool"
  os_print :: "int option \<Rightarrow> string"
  os_write_key :: "nat \<Rightarrow> string"
  os_write_cert :: "cert \<Rightarrow> string"
  os_read_cert :: "string \<Rightarrow> cert option"

text \<open>
  The calls of one generation: what they answer, the two readings of the clock, and what a write that fails has left in the file.
\<close>

record cert_env =
  ce_keygen :: bool
  ce_x509 :: bool
  ce_now1 :: int
  ce_now2 :: int
  ce_set_issuer :: bool
  ce_sign :: bool
  ce_open_key :: bool
  ce_write_key :: bool
  ce_open_cert :: bool
  ce_write_cert :: bool
  ce_partial :: string

subsection \<open>Generating\<close>

definition san_base :: string where
  "san_base = ''DNS:localhost,IP:127.0.0.1,IP:::1''"

definition ip_char :: "char \<Rightarrow> bool" where
  "ip_char ch \<longleftrightarrow> \<not> (ch \<noteq> CHR ''.'' \<and> (code_of ch < 48 \<or> 57 < code_of ch))"

definition san_of :: "string \<Rightarrow> string" where
  "san_of cn =
     (if cn \<noteq> [] \<and> cn \<noteq> ''localhost''
      then (if find_index (\<lambda>c. c = CHR '':'') cn \<noteq> None then ''IP:'' @ cn @ '','' @ san_base
            else if find_index (\<lambda>c. c = CHR ''.'') cn \<noteq> None
                 then (if list_all ip_char cn then ''IP:'' else ''DNS:'') @ cn @ '','' @ san_base
            else san_base)
      else san_base)"

text \<open>
  Every text goes to OpenSSL as a C string. The code does not look at what the calls that fill the certificate return: a refused entry,
  issuer, time or extension is left out and the certificate signed all the same. Opening a file for writing empties it.
\<close>

definition until_nul :: "string \<Rightarrow> string" where
  "until_nul s = takeWhile (\<lambda>c. code_of c \<noteq> 0) s"

definition name_entry :: "openssl \<Rightarrow> string \<Rightarrow> string \<Rightarrow> x509_name" where
  "name_entry os field s = (case os_add_entry os field (until_nul s) of Some t \<Rightarrow> [(field, t)] | None \<Rightarrow> [])"

definition new_cert :: "openssl \<Rightarrow> cert_env \<Rightarrow> nat \<Rightarrow> int \<Rightarrow> string \<Rightarrow> cert" where
  "new_cert os e key days cn =
     (let name = name_entry os ''CN'' cn @ name_entry os ''O'' ''AlkaidLab''
      in \<lparr>ct_subject = name, ct_issuer = (if ce_set_issuer e then name else []),
          ct_notBefore = os_adj os (ce_now1 e) 0, ct_notAfter = os_adj os (ce_now2 e) (days * 86400),
          ct_key = key, ct_san = os_parse_san os (until_nul (san_of cn))\<rparr>)"

definition generateSelfSigned ::
  "openssl \<Rightarrow> cert_env \<Rightarrow> nat \<Rightarrow> string \<Rightarrow> string \<Rightarrow> int \<Rightarrow> string \<Rightarrow> (string \<rightharpoonup> string) \<Rightarrow> bool \<times> (string \<rightharpoonup> string)" where
  "generateSelfSigned os e key certPath keyPath days cn fs =
     (if \<not> ce_keygen e then (False, fs)
      else if \<not> ce_x509 e then (False, fs)
      else let x509 = new_cert os e key days cn
      in if \<not> ce_sign e then (False, fs)
      else if \<not> ce_open_key e then (False, fs)
      else if \<not> ce_write_key e then (False, fs(keyPath \<mapsto> ce_partial e))
      else let fs1 = fs(keyPath \<mapsto> os_write_key os key)
      in if \<not> ce_open_cert e then (False, fs1)
         else if \<not> ce_write_cert e then (False, fs1(certPath \<mapsto> ce_partial e))
         else (True, fs1(certPath \<mapsto> os_write_cert os x509)))"

subsection \<open>Reading\<close>

record cert_info =
  ci_subject :: string
  ci_notBefore :: string
  ci_notAfter :: string
  ci_selfSigned :: bool
  ci_domains :: "string list"

definition dns_names :: "san_entry list \<Rightarrow> string list" where
  "dns_names es = concat (map (\<lambda>e. case e of SanDns s \<Rightarrow> [until_nul s] | _ \<Rightarrow> []) es)"

text \<open>
  A field for a time, \<open>None\<close> when OpenSSL has none; \<open>bio\<close> tells whether a memory buffer can be made, \<open>print\<close> is \<open>ASN1_TIME_print\<close>. The text goes
  through a buffer of 64 bytes.
\<close>

definition asn1TimeToISO :: "bool \<Rightarrow> ('t \<Rightarrow> string) \<Rightarrow> 't option \<Rightarrow> string" where
  "asn1TimeToISO bio print t =
     (case t of None \<Rightarrow> []
      | Some u \<Rightarrow> if \<not> bio then [] else let buf = take 63 (print u) in if length buf \<le> 0 then [] else until_nul buf)"

text \<open>
  The common name goes through a buffer of 256 bytes, which stays empty when the name has no such entry. \<open>bio\<close>: whether the two
  memory buffers can be made.
\<close>

definition readCertInfo :: "openssl \<Rightarrow> bool \<times> bool \<Rightarrow> (string \<rightharpoonup> string) \<Rightarrow> string \<Rightarrow> cert_info option" where
  "readCertInfo os bio fs certPath =
     (case Option.bind (fs certPath) (os_read_cert os) of
        None \<Rightarrow> None
      | Some c \<Rightarrow>
          Some \<lparr>ci_subject = (case map_of (ct_subject c) ''CN'' of Some cn \<Rightarrow> until_nul (take 255 cn) | None \<Rightarrow> []),
                ci_notBefore = asn1TimeToISO (fst bio) (os_print os) (Some (ct_notBefore c)),
                ci_notAfter = asn1TimeToISO (snd bio) (os_print os) (Some (ct_notAfter c)),
                ci_selfSigned = os_name_eq os (ct_issuer c) (ct_subject c),
                ci_domains = (case ct_san c of Some es \<Rightarrow> dns_names es | None \<Rightarrow> [])\<rparr>)"

subsection \<open>The alternative names\<close>

definition entry_text :: "san_entry \<Rightarrow> string" where
  "entry_text e = (case e of SanDns s \<Rightarrow> ''DNS:'' @ s | SanIp s \<Rightarrow> ''IP:'' @ s | SanOther \<Rightarrow> [])"

fun san_text :: "san_entry list \<Rightarrow> string" where
  "san_text [] = []"
| "san_text [e] = entry_text e"
| "san_text (e # es) = entry_text e @ '','' @ san_text es"

definition is_ip4_text :: "string \<Rightarrow> bool" where
  "is_ip4_text s \<longleftrightarrow> list_all (\<lambda>c. c = CHR ''.'' \<or> is_digit c) s"

definition cn_entries :: "string \<Rightarrow> san_entry list" where
  "cn_entries cn =
     (if cn = ''localhost'' then []
      else if CHR '':'' \<in> set cn then [SanIp cn]
      else if CHR ''.'' \<in> set cn then (if is_ip4_text cn then [SanIp cn] else [SanDns cn])
      else [])"

definition san_entries :: "string \<Rightarrow> san_entry list" where
  "san_entries cn = cn_entries cn @ [SanDns ''localhost'', SanIp ''127.0.0.1'', SanIp ''::1'']"

lemma find_char: "find_index (\<lambda>c. c = d) s = None \<longleftrightarrow> d \<notin> set s"
  unfolding find_index_None by blast

lemma ip_char_text: "list_all ip_char s = is_ip4_text s"
proof -
  have "ip_char c = (c = CHR ''.'' \<or> is_digit c)" for c
    by (cases "c = CHR ''.''") (simp_all add: ip_char_def is_digit_def not_less)
  then have "ip_char = (\<lambda>c. c = CHR ''.'' \<or> is_digit c)" by (rule ext)
  then show ?thesis unfolding is_ip4_text_def by simp
qed

lemma san_of_entries: "san_of cn = san_text (san_entries cn)"
  unfolding san_of_def san_entries_def cn_entries_def find_char ip_char_text
  by (cases "cn = []"; cases "CHR '':'' \<in> set cn"; cases "CHR ''.'' \<in> set cn") (simp_all add: entry_text_def san_base_def)

text \<open>
  which names a certificate is made for. The extension asked for has the two loopback addresses and localhost, and before them the common name: as
  an address when it has a colon or consists of digits and dots, as a host name when it has another dot. A common name without dot
  and colon, a host name of one label, is not among the names, so clients that check names refuse the certificate for it.
\<close>

theorem certificate_names: "san_of cn = san_text (san_entries cn) \<and>
   (SanDns cn \<in> set (san_entries cn) \<or> SanIp cn \<in> set (san_entries cn)) =
     (cn = ''localhost'' \<or> CHR ''.'' \<in> set cn \<or> CHR '':'' \<in> set cn)"
proof
  show "san_of cn = san_text (san_entries cn)" by (rule san_of_entries)
  show "(SanDns cn \<in> set (san_entries cn) \<or> SanIp cn \<in> set (san_entries cn)) =
     (cn = ''localhost'' \<or> CHR ''.'' \<in> set cn \<or> CHR '':'' \<in> set cn)"
    by (cases "cn = ''localhost''") (auto simp: san_entries_def cn_entries_def)
qed

text \<open>
  What OpenSSL documents: of its extension texts, for those used here (entries without comma, their addresses being addresses); that a
  certificate it wrote is read back; that a name equals itself; and that printed times have at most 24 characters.
\<close>

definition san_reader :: "(string \<Rightarrow> bool) \<Rightarrow> (string \<Rightarrow> san_entry list option) \<Rightarrow> bool" where
  "san_reader is_ip parse_san \<longleftrightarrow>
     (\<forall>es. list_all (\<lambda>e. case e of SanDns s \<Rightarrow> CHR '','' \<notin> set s | SanIp s \<Rightarrow> CHR '','' \<notin> set s \<and> is_ip s | SanOther \<Rightarrow> False) es \<longrightarrow>
       parse_san (san_text es) = Some es)"

definition openssl_documented :: "(string \<Rightarrow> bool) \<Rightarrow> openssl \<Rightarrow> bool" where
  "openssl_documented is_ip os \<longleftrightarrow>
     san_reader is_ip (os_parse_san os) \<and> is_ip ''127.0.0.1'' \<and> is_ip ''::1'' \<and>
     (\<forall>c. os_read_cert os (os_write_cert os c) = Some c) \<and> (\<forall>n. os_name_eq os n n) \<and>
     (\<forall>t. length (os_print os t) < 64 \<and> (\<forall>c\<in>set (os_print os t). code_of c \<noteq> 0))"

text \<open>A common name that fits an extension text: no comma, no zero byte, an address when it has to be one.\<close>

definition plain_cn :: "(string \<Rightarrow> bool) \<Rightarrow> string \<Rightarrow> bool" where
  "plain_cn is_ip cn \<longleftrightarrow> CHR '','' \<notin> set cn \<and> (\<forall>c\<in>set cn. code_of c \<noteq> 0) \<and> (\<forall>s. SanIp s \<in> set (cn_entries cn) \<longrightarrow> is_ip s)"

lemma until_nul_id: "\<forall>c\<in>set s. code_of c \<noteq> 0 \<Longrightarrow> until_nul s = s"
  by (simp add: until_nul_def takeWhile_eq_all_conv)

lemma parsed_names:
  assumes "openssl_documented is_ip os" "plain_cn is_ip cn"
  shows "os_parse_san os (until_nul (san_of cn)) = Some (san_entries cn)"
proof -
  have "list_all (\<lambda>e. case e of SanDns s \<Rightarrow> CHR '','' \<notin> set s | SanIp s \<Rightarrow> CHR '','' \<notin> set s \<and> is_ip s | SanOther \<Rightarrow> False) (san_entries cn)"
    using assms by (auto simp: openssl_documented_def plain_cn_def san_entries_def cn_entries_def)
  then have "os_parse_san os (san_of cn) = Some (san_entries cn)"
    using assms(1) unfolding openssl_documented_def san_reader_def san_of_entries by blast
  moreover have "until_nul (san_of cn) = san_of cn"
    by (rule until_nul_id) (use assms(2) in \<open>auto simp: plain_cn_def san_of_def san_base_def code_of_def split: if_splits\<close>)
  ultimately show ?thesis by simp
qed

lemma own_names: "dns_names (san_entries cn) = dns_names (cn_entries cn) @ [''localhost'']"
  by (simp add: san_entries_def dns_names_def until_nul_def code_of_def)

lemma printed_time: "openssl_documented is_ip os \<Longrightarrow> asn1TimeToISO True (os_print os) (Some t) = os_print os t"
proof -
  assume "openssl_documented is_ip os"
  then have "length (os_print os t) < 64" "\<forall>c\<in>set (os_print os t). code_of c \<noteq> 0" by (auto simp: openssl_documented_def)
  then have "take 63 (os_print os t) = os_print os t" "until_nul (os_print os t) = os_print os t" by (simp_all add: until_nul_id)
  then show ?thesis by (simp add: asn1TimeToISO_def Let_def)
qed


text \<open>
  a failure can leave a key without its certificate. When the certificate cannot be opened after the key has been written, generating answers
  false, but the key file has the new key while the certificate file still has what it had: a pair that worked before no longer fits together.
  When the certificate cannot be written, its file is overwritten as well.
\<close>

theorem certificate_failure_mismatch:
  assumes "ce_keygen e" "ce_x509 e" "ce_sign e" "ce_open_key e" "ce_write_key e" "certPath \<noteq> keyPath"
  shows "(\<not> ce_open_cert e \<longrightarrow> generateSelfSigned os e key certPath keyPath days cn fs = (False, fs(keyPath \<mapsto> os_write_key os key))) \<and>
    (ce_open_cert e \<and> \<not> ce_write_cert e \<longrightarrow>
     generateSelfSigned os e key certPath keyPath days cn fs = (False, fs(keyPath \<mapsto> os_write_key os key, certPath \<mapsto> ce_partial e)))"
  using assms by (simp add: generateSelfSigned_def Let_def)

text \<open>A reader of extension texts for the examples.\<close>

fun commas :: "string \<Rightarrow> string list" where
  "commas [] = [[]]"
| "commas (c # s) =
     (if c = CHR '','' then [] # commas s else case commas s of w # ws \<Rightarrow> (c # w) # ws | [] \<Rightarrow> [[c]])"

definition read_entry :: "string \<Rightarrow> san_entry option" where
  "read_entry s =
     (if take 4 s = ''DNS:'' then Some (SanDns (drop 4 s)) else if take 3 s = ''IP:'' then Some (SanIp (drop 3 s)) else None)"

definition read_san :: "string \<Rightarrow> san_entry list option" where
  "read_san s = (if s = [] then Some [] else those (map read_entry (commas s)))"

definition plain_entry :: "san_entry \<Rightarrow> bool" where
  "plain_entry e \<longleftrightarrow> (case e of SanDns s \<Rightarrow> CHR '','' \<notin> set s | SanIp s \<Rightarrow> CHR '','' \<notin> set s | SanOther \<Rightarrow> False)"

lemma commas_not_Nil: "commas s \<noteq> []"
  by (induction s) (auto split: list.split)

lemma commas_one: "CHR '','' \<notin> set s \<Longrightarrow> commas s = [s]"
  by (induction s) auto

lemma commas_cons: "CHR '','' \<notin> set s \<Longrightarrow> commas (s @ CHR '','' # r) = s # commas r"
  by (induction s) (auto split: list.split)

lemma plain_entry_text: "plain_entry e \<Longrightarrow> CHR '','' \<notin> set (entry_text e) \<and> entry_text e \<noteq> [] \<and> read_entry (entry_text e) = Some e"
  by (cases e) (auto simp: plain_entry_def entry_text_def read_entry_def)

lemma read_entries: "es \<noteq> [] \<Longrightarrow> list_all plain_entry es \<Longrightarrow> those (map read_entry (commas (san_text es))) = Some es \<and> san_text es \<noteq> []"
  by (induction es rule: san_text.induct) (simp_all add: plain_entry_text commas_one commas_cons)

lemma read_san_reader: "san_reader (\<lambda>_. True) read_san"
proof -
  have "read_san (san_text es) = Some es" if "list_all plain_entry es" for es
    using that read_entries [of es] by (cases es) (auto simp: read_san_def)
  then show ?thesis by (simp add: san_reader_def plain_entry_def [abs_def] cong: san_entry.case_cong)
qed

subsection \<open>Examples\<close>

text \<open>An encoding of certificates as bytes, in the place of PEM: a codec reads what it has written, whatever follows.\<close>

definition codec :: "('a \<Rightarrow> string) \<Rightarrow> (string \<Rightarrow> 'a \<times> string) \<Rightarrow> bool" where
  "codec put get \<longleftrightarrow> (\<forall>x r. get (put x @ r) = (x, r))"

definition put_nat :: "nat \<Rightarrow> string" where
  "put_nat n = replicate n (CHR ''1'') @ '',''"

definition get_nat :: "string \<Rightarrow> nat \<times> string" where
  "get_nat s = (length (takeWhile (\<lambda>c. c = CHR ''1'') s), drop 1 (dropWhile (\<lambda>c. c = CHR ''1'') s))"

definition put_text :: "string \<Rightarrow> string" where
  "put_text s = put_nat (length s) @ s"

definition get_text :: "string \<Rightarrow> string \<times> string" where
  "get_text t = (case get_nat t of (n, r) \<Rightarrow> (take n r, drop n r))"

definition put_int :: "int \<Rightarrow> string" where
  "put_int i = put_nat (if i < 0 then 1 else 0) @ put_nat (nat \<bar>i\<bar>)"

definition get_int :: "string \<Rightarrow> int \<times> string" where
  "get_int t = (case get_nat t of (b, r) \<Rightarrow> case get_nat r of (n, r') \<Rightarrow> (if b = 1 then - int n else int n, r'))"

definition put_pair :: "('a \<Rightarrow> string) \<Rightarrow> ('b \<Rightarrow> string) \<Rightarrow> 'a \<times> 'b \<Rightarrow> string" where
  "put_pair f g p = f (fst p) @ g (snd p)"

definition get_pair :: "(string \<Rightarrow> 'a \<times> string) \<Rightarrow> (string \<Rightarrow> 'b \<times> string) \<Rightarrow> string \<Rightarrow> ('a \<times> 'b) \<times> string" where
  "get_pair f g t = (case f t of (x, r) \<Rightarrow> case g r of (y, r') \<Rightarrow> ((x, y), r'))"

definition put_list :: "('a \<Rightarrow> string) \<Rightarrow> 'a list \<Rightarrow> string" where
  "put_list f xs = put_nat (length xs) @ concat (map f xs)"

primrec get_many :: "(string \<Rightarrow> 'a \<times> string) \<Rightarrow> nat \<Rightarrow> string \<Rightarrow> 'a list \<times> string" where
  "get_many f 0 t = ([], t)"
| "get_many f (Suc n) t = (case f t of (x, r) \<Rightarrow> case get_many f n r of (xs, r') \<Rightarrow> (x # xs, r'))"

definition get_list :: "(string \<Rightarrow> 'a \<times> string) \<Rightarrow> string \<Rightarrow> 'a list \<times> string" where
  "get_list f t = (case get_nat t of (n, r) \<Rightarrow> get_many f n r)"

definition put_option :: "('a \<Rightarrow> string) \<Rightarrow> 'a option \<Rightarrow> string" where
  "put_option f x = put_list f (case x of None \<Rightarrow> [] | Some y \<Rightarrow> [y])"

definition get_option :: "(string \<Rightarrow> 'a \<times> string) \<Rightarrow> string \<Rightarrow> 'a option \<times> string" where
  "get_option f t = (case get_list f t of ([], r) \<Rightarrow> (None, r) | (y # ys, r) \<Rightarrow> (Some y, r))"

definition put_san :: "san_entry \<Rightarrow> string" where
  "put_san e = (case e of SanDns s \<Rightarrow> put_nat 0 @ put_text s | SanIp s \<Rightarrow> put_nat 1 @ put_text s | SanOther \<Rightarrow> put_nat 2 @ put_text [])"

definition get_san :: "string \<Rightarrow> san_entry \<times> string" where
  "get_san t = (case get_nat t of (k, r) \<Rightarrow> case get_text r of (s, r') \<Rightarrow>
     (if k = 0 then SanDns s else if k = 1 then SanIp s else SanOther, r'))"

lemma codec_nat: "codec put_nat get_nat"
  by (simp add: codec_def put_nat_def get_nat_def takeWhile_append dropWhile_append)

lemmas get_put_nat [simp] = codec_nat [unfolded codec_def, rule_format]

lemma codec_text: "codec put_text get_text"
  by (simp add: codec_def put_text_def get_text_def)

lemma codec_int: "codec put_int get_int"
  by (simp add: codec_def put_int_def get_int_def)

lemma codec_pair: "codec f f' \<Longrightarrow> codec g g' \<Longrightarrow> codec (put_pair f g) (get_pair f' g')"
  by (simp add: codec_def put_pair_def get_pair_def)

lemma codec_list:
  assumes "codec f f'"
  shows "codec (put_list f) (get_list f')"
proof -
  have "get_many f' (length xs) (concat (map f xs) @ r) = (xs, r)" for xs r
    using assms by (induction xs) (simp_all add: codec_def)
  then show ?thesis by (simp add: codec_def put_list_def get_list_def)
qed

lemma codec_option: "codec f f' \<Longrightarrow> codec (put_option f) (get_option f')"
  using codec_list [of f f'] by (simp add: codec_def put_option_def get_option_def split: option.split)

lemma codec_san: "codec put_san get_san"
  using codec_text by (simp add: codec_def put_san_def get_san_def split: san_entry.split)

definition put_cert :: "cert \<Rightarrow> string" where
  "put_cert c = put_pair (put_list (put_pair put_text put_text)) (put_pair (put_list (put_pair put_text put_text))
     (put_pair (put_option put_int) (put_pair (put_option put_int) (put_pair put_nat (put_option (put_list put_san))))))
     (ct_subject c, ct_issuer c, ct_notBefore c, ct_notAfter c, ct_key c, ct_san c)"

definition get_cert :: "string \<Rightarrow> cert option" where
  "get_cert t = (case get_pair (get_list (get_pair get_text get_text)) (get_pair (get_list (get_pair get_text get_text))
     (get_pair (get_option get_int) (get_pair (get_option get_int) (get_pair get_nat (get_option (get_list get_san)))))) t of
     ((subj, iss, nb, na, k, san), r) \<Rightarrow>
       Some \<lparr>ct_subject = subj, ct_issuer = iss, ct_notBefore = nb, ct_notAfter = na, ct_key = k, ct_san = san\<rparr>)"

lemma get_put_cert: "get_cert (put_cert c) = Some c"
proof -
  note cc = codec_pair [OF codec_list [OF codec_pair [OF codec_text codec_text]]
      codec_pair [OF codec_list [OF codec_pair [OF codec_text codec_text]]
        codec_pair [OF codec_option [OF codec_int] codec_pair [OF codec_option [OF codec_int]
          codec_pair [OF codec_nat codec_option [OF codec_list [OF codec_san]]]]]]]
  from cc [unfolded codec_def, THEN spec, THEN spec, of _ "[]"] show ?thesis by (simp add: get_cert_def put_cert_def)
qed

text \<open>An OpenSSL for the examples, which refuses common names of more than 64 characters.\<close>

definition openssl0 :: openssl where
  "openssl0 = \<lparr>os_add_entry = (\<lambda>field s. if field = ''CN'' \<and> 64 < length s then None else Some s), os_parse_san = read_san,
     os_adj = (\<lambda>now offset. Some (now + offset)), os_name_eq = (\<lambda>n m. n = m),
     os_print = (\<lambda>t. if t = Some 31537001 then ''Jan  1 00:16:41 1971 GMT'' else ''Jan  1 00:16:40 1970 GMT''),
     os_write_key = (\<lambda>k. ''KEY'' @ put_nat k), os_write_cert = put_cert, os_read_cert = get_cert\<rparr>"

lemma openssl0_documented: "openssl_documented (\<lambda>_. True) openssl0"
  by (simp add: openssl_documented_def openssl0_def read_san_reader get_put_cert code_of_def)

definition all_well :: cert_env where
  "all_well = \<lparr>ce_keygen = True, ce_x509 = True, ce_now1 = 1000, ce_now2 = 1001, ce_set_issuer = True, ce_sign = True, ce_open_key = True,
     ce_write_key = True, ce_open_cert = True, ce_write_cert = True, ce_partial = []\<rparr>"

lemma certificate_failure_mismatch_witness:
  "snd (generateSelfSigned openssl0 (all_well\<lparr>ce_open_cert := False\<rparr>) 2 ''cert'' ''key'' 365 ''new'' [''cert'' \<mapsto> ''old'', ''key'' \<mapsto> ''old'']) ''key'' =
     Some ''KEY11,'' \<and>
   snd (generateSelfSigned openssl0 (all_well\<lparr>ce_open_cert := False\<rparr>) 2 ''cert'' ''key'' 365 ''new'' [''cert'' \<mapsto> ''old'', ''key'' \<mapsto> ''old'']) ''cert'' =
     Some ''old''"
  using certificate_failure_mismatch [of "all_well\<lparr>ce_open_cert := False\<rparr>" "''cert''" "''key''" openssl0 2 365 "''new''" "[''cert'' \<mapsto> ''old'', ''key'' \<mapsto> ''old'']"]
  by (simp add: all_well_def openssl0_def put_nat_def numeral_2_eq_2)


end
