(* ===== verification/Fw_Ini.thy ===== *)
theory Fw_Ini
  imports Fw_Prelude
begin

section \<open>Configuration files\<close>

text \<open>
  \<open>src/IniConfig.cpp\<close>, a facade of libhv's \<open>IniParser\<close>. The parser is a parameter, the record of its methods on a state of its own; floating
  point numbers are an abstract type.
\<close>

record ('p, 'f) ini_parser =
  ip_LoadFromFile :: "string \<Rightarrow> 'p \<Rightarrow> int \<times> 'p"
  ip_LoadFromMem :: "string \<Rightarrow> 'p \<Rightarrow> int \<times> 'p"
  ip_Save :: "'p \<Rightarrow> int \<times> 'p"
  ip_SaveAs :: "string \<Rightarrow> 'p \<Rightarrow> int \<times> 'p"
  ip_Unload :: "'p \<Rightarrow> 'p"
  ip_GetValue :: "string \<Rightarrow> string \<Rightarrow> 'p \<Rightarrow> string"
  ip_GetInt :: "string \<Rightarrow> string \<Rightarrow> int \<Rightarrow> 'p \<Rightarrow> int"
  ip_GetBool :: "string \<Rightarrow> string \<Rightarrow> bool \<Rightarrow> 'p \<Rightarrow> bool"
  ip_GetFloat :: "string \<Rightarrow> string \<Rightarrow> 'f \<Rightarrow> 'p \<Rightarrow> 'f"
  ip_SetValue :: "string \<Rightarrow> string \<Rightarrow> string \<Rightarrow> 'p \<Rightarrow> 'p"
  ip_SetInt :: "string \<Rightarrow> int \<Rightarrow> string \<Rightarrow> 'p \<Rightarrow> 'p"
  ip_SetBool :: "string \<Rightarrow> bool \<Rightarrow> string \<Rightarrow> 'p \<Rightarrow> 'p"
  ip_SetFloat :: "string \<Rightarrow> 'f \<Rightarrow> string \<Rightarrow> 'p \<Rightarrow> 'p"
  ip_GetSections :: "'p \<Rightarrow> string list"
  ip_GetKeys :: "string \<Rightarrow> 'p \<Rightarrow> string list"

subsection \<open>Load and save\<close>

definition loadFromFile :: "('p, 'f) ini_parser \<Rightarrow> string \<Rightarrow> 'p \<Rightarrow> bool \<times> 'p" where
  "loadFromFile lib filename p = (case ip_LoadFromFile lib filename p of (r, p') \<Rightarrow> (r = 0, p'))"

definition loadFromMem :: "('p, 'f) ini_parser \<Rightarrow> string \<Rightarrow> 'p \<Rightarrow> bool \<times> 'p" where
  "loadFromMem lib content p = (case ip_LoadFromMem lib content p of (r, p') \<Rightarrow> (r = 0, p'))"

definition ini_save :: "('p, 'f) ini_parser \<Rightarrow> 'p \<Rightarrow> bool \<times> 'p" where
  "ini_save lib p = (case ip_Save lib p of (r, p') \<Rightarrow> (r = 0, p'))"

definition saveAs :: "('p, 'f) ini_parser \<Rightarrow> string \<Rightarrow> 'p \<Rightarrow> bool \<times> 'p" where
  "saveAs lib filename p = (case ip_SaveAs lib filename p of (r, p') \<Rightarrow> (r = 0, p'))"

definition unload :: "('p, 'f) ini_parser \<Rightarrow> 'p \<Rightarrow> 'p" where
  "unload lib p = ip_Unload lib p"

subsection \<open>Read, write and enumerate\<close>

definition ini_getString :: "('p, 'f) ini_parser \<Rightarrow> string \<Rightarrow> string \<Rightarrow> 'p \<Rightarrow> string" where
  "ini_getString lib key sect p = ip_GetValue lib key sect p"

definition ini_getInt :: "('p, 'f) ini_parser \<Rightarrow> string \<Rightarrow> string \<Rightarrow> int \<Rightarrow> 'p \<Rightarrow> int" where
  "ini_getInt lib key sect dflt p = ip_GetInt lib key sect dflt p"

definition ini_getBool :: "('p, 'f) ini_parser \<Rightarrow> string \<Rightarrow> string \<Rightarrow> bool \<Rightarrow> 'p \<Rightarrow> bool" where
  "ini_getBool lib key sect dflt p = ip_GetBool lib key sect dflt p"

definition ini_getFloat :: "('p, 'f) ini_parser \<Rightarrow> string \<Rightarrow> string \<Rightarrow> 'f \<Rightarrow> 'p \<Rightarrow> 'f" where
  "ini_getFloat lib key sect dflt p = ip_GetFloat lib key sect dflt p"

datatype 'f ini_value = IniString string | IniInt int | IniBool bool | IniFloat 'f

text \<open>\<open>setString\<close>, \<open>setInt\<close>, \<open>setBool\<close> and \<open>setFloat\<close>.\<close>

fun ini_set :: "('p, 'f) ini_parser \<Rightarrow> string \<Rightarrow> 'f ini_value \<Rightarrow> string \<Rightarrow> 'p \<Rightarrow> 'p" where
  "ini_set lib key (IniString v) sect p = ip_SetValue lib key v sect p"
| "ini_set lib key (IniInt v) sect p = ip_SetInt lib key v sect p"
| "ini_set lib key (IniBool v) sect p = ip_SetBool lib key v sect p"
| "ini_set lib key (IniFloat v) sect p = ip_SetFloat lib key v sect p"

definition ini_sections :: "('p, 'f) ini_parser \<Rightarrow> 'p \<Rightarrow> string list" where
  "ini_sections lib p = ip_GetSections lib p"

definition ini_keys :: "('p, 'f) ini_parser \<Rightarrow> string \<Rightarrow> 'p \<Rightarrow> string list" where
  "ini_keys lib sect p = ip_GetKeys lib sect p"

subsection \<open>Reading what was set\<close>

text \<open>All four readings of a key, and whether they show a value; what comes back of a floating point number is left open, as its text may be shorter.\<close>

definition ini_readings :: "('p, 'f) ini_parser \<Rightarrow> string \<Rightarrow> string \<Rightarrow> 'p \<Rightarrow> string \<times> (int \<Rightarrow> int) \<times> (bool \<Rightarrow> bool) \<times> ('f \<Rightarrow> 'f)" where
  "ini_readings lib key sect p =
     (ini_getString lib key sect p, \<lambda>d. ini_getInt lib key sect d p, \<lambda>d. ini_getBool lib key sect d p, \<lambda>d. ini_getFloat lib key sect d p)"

fun shows_value :: "'f ini_value \<Rightarrow> string \<times> (int \<Rightarrow> int) \<times> (bool \<Rightarrow> bool) \<times> ('f \<Rightarrow> 'f) \<Rightarrow> bool" where
  "shows_value (IniString v) (s, _) = (s = v)"
| "shows_value (IniInt v) (_, i, _) = (\<forall>d. i d = v)"
| "shows_value (IniBool v) (_, _, b, _) = (\<forall>d. b d = v)"
| "shows_value (IniFloat v) _ = True"

text \<open>What libhv documents of its parser: a value that was set is read under its section and key, and nowhere else.\<close>

definition ini_law :: "('p, 'f) ini_parser \<Rightarrow> bool" where
  "ini_law lib \<longleftrightarrow>
     (\<forall>key v sect p. shows_value v (ini_readings lib key sect (ini_set lib key v sect p))) \<and>
     (\<forall>key v sect p key' sect'. (key', sect') \<noteq> (key, sect) \<longrightarrow>
        ini_readings lib key' sect' (ini_set lib key v sect p) = ini_readings lib key' sect' p)"

lemma ini_law_here: "ini_law lib \<Longrightarrow> shows_value v (ini_readings lib key sect (ini_set lib key v sect p))"
  unfolding ini_law_def by blast

lemma ini_law_elsewhere:
  "ini_law lib \<Longrightarrow> (key', sect') \<noteq> (key, sect) \<Longrightarrow>
   ini_readings lib key' sect' (ini_set lib key v sect p) = ini_readings lib key' sect' p"
  unfolding ini_law_def by blast

definition ini_run :: "('p, 'f) ini_parser \<Rightarrow> (string \<times> 'f ini_value \<times> string) list \<Rightarrow> 'p \<Rightarrow> 'p" where
  "ini_run lib ws p = fold (\<lambda>(key, v, sect). ini_set lib key v sect) ws p"

text \<open>
  the last value counts. After any settings of any types, a key that was set last to a value reads as that value in its type,
  and a key that was not set reads as before in every type.
\<close>

theorem ini_last_value:
  assumes "ini_law lib" and "mine = filter (\<lambda>(k, v, s). (k, s) = (key, sect)) ws"
  shows "if mine = [] then ini_readings lib key sect (ini_run lib ws p) = ini_readings lib key sect p
    else shows_value (fst (snd (last mine))) (ini_readings lib key sect (ini_run lib ws p))"
  using assms(2)
proof (induction ws arbitrary: mine rule: rev_induct)
  case (snoc w ws)
  obtain k v s where w: "w = (k, v, s)" by (cases w)
  have run: "ini_run lib (ws @ [w]) p = ini_set lib k v s (ini_run lib ws p)" by (simp add: ini_run_def w)
  show ?case
  proof (cases "(k, s) = (key, sect)")
    case True
    then show ?thesis using ini_law_here [OF assms(1)] run by (simp add: snoc.prems w)
  next
    case False
    then have "ini_readings lib key sect (ini_run lib (ws @ [w]) p) = ini_readings lib key sect (ini_run lib ws p)"
      unfolding run by (intro ini_law_elsewhere [OF assms(1)]) auto
    moreover have m: "mine = filter (\<lambda>(k, v, s). (k, s) = (key, sect)) ws" using False by (auto simp: snoc.prems w)
    ultimately show ?thesis using snoc.IH [OF m] by (simp only:)
  qed
qed (simp add: ini_run_def)

text \<open>A parser that keeps the values as they were set.\<close>

type_synonym ini_table = "(string \<times> string) \<Rightarrow> unit ini_value option"

definition table_parser :: "(ini_table, unit) ini_parser" where
  "table_parser = \<lparr>ip_LoadFromFile = \<lambda>f p. (0, p), ip_LoadFromMem = \<lambda>f p. (0, p), ip_Save = \<lambda>p. (0, p), ip_SaveAs = \<lambda>f p. (0, p),
     ip_Unload = \<lambda>p. Map.empty,
     ip_GetValue = \<lambda>k s p. (case p (k, s) of Some (IniString v) \<Rightarrow> v | _ \<Rightarrow> []),
     ip_GetInt = \<lambda>k s d p. (case p (k, s) of Some (IniInt v) \<Rightarrow> v | _ \<Rightarrow> d),
     ip_GetBool = \<lambda>k s d p. (case p (k, s) of Some (IniBool v) \<Rightarrow> v | _ \<Rightarrow> d),
     ip_GetFloat = \<lambda>k s d p. (case p (k, s) of Some (IniFloat v) \<Rightarrow> v | _ \<Rightarrow> d),
     ip_SetValue = \<lambda>k v s p. p((k, s) \<mapsto> IniString v), ip_SetInt = \<lambda>k v s p. p((k, s) \<mapsto> IniInt v),
     ip_SetBool = \<lambda>k v s p. p((k, s) \<mapsto> IniBool v), ip_SetFloat = \<lambda>k v s p. p((k, s) \<mapsto> IniFloat v),
     ip_GetSections = \<lambda>p. [], ip_GetKeys = \<lambda>s p. []\<rparr>"

lemma table_parser_law: "ini_law table_parser"
proof -
  have set: "ini_set table_parser k v s p = p((k, s) \<mapsto> v)" for k v s p
    by (cases v) (simp_all add: table_parser_def)
  have get: "ini_readings table_parser k s p =
      ((case p (k, s) of Some (IniString v) \<Rightarrow> v | _ \<Rightarrow> []), \<lambda>d. (case p (k, s) of Some (IniInt v) \<Rightarrow> v | _ \<Rightarrow> d),
       \<lambda>d. (case p (k, s) of Some (IniBool v) \<Rightarrow> v | _ \<Rightarrow> d), \<lambda>d. (case p (k, s) of Some (IniFloat v) \<Rightarrow> v | _ \<Rightarrow> d))" for k s p
    by (simp add: ini_readings_def ini_getString_def ini_getInt_def ini_getBool_def ini_getFloat_def table_parser_def)
  have "shows_value v (ini_readings table_parser k s (p((k, s) \<mapsto> v)))" for k v s p
    by (cases v) (simp_all add: get)
  moreover have "ini_readings table_parser k' s' (p((k, s) \<mapsto> v)) = ini_readings table_parser k' s' p" if "(k', s') \<noteq> (k, s)" for k' s' k v s p
    unfolding get fun_upd_other [OF that] ..
  ultimately show ?thesis unfolding ini_law_def set by blast
qed

lemma ini_last_value_witness:
  "ini_getInt table_parser ''port'' ''server'' 0
     (ini_run table_parser [(''port'', IniString ''http'', ''server''), (''port'', IniInt 8080, ''server''), (''port'', IniInt 1, ''db'')] Map.empty) = 8080"
  using ini_last_value [OF table_parser_law refl, of "''port''" "''server''"
      "[(''port'', IniString ''http'', ''server''), (''port'', IniInt 8080, ''server''), (''port'', IniInt 1, ''db'')]" Map.empty]
  by (simp add: ini_readings_def)

end
