(* ===== verification/Fw_HttpsClient.thy ===== *)
theory Fw_HttpsClient
  imports Fw_HttpClient
begin

section \<open>The HTTPS transport as an object\<close>

text \<open>
  \<open>src/HttpsTransport.cpp\<close> around the requests and the TLS configuration of \<open>Fw_HttpClient\<close>: the constructors, the setters and the
  operations that the class repeats from \<open>HttpTransport\<close> word for word, here on its own state. libhv's client is part of it: the
  TLS context it uses is \<open>ht_ssl\<close>, and \<open>SslUnchanged\<close> there means that it was never given one.
\<close>

record https_transport =
  ht_client :: http_client
  ht_sslConfig :: ssl_config
  ht_ssl :: ssl_state

subsection \<open>Operations\<close>

definition https_new :: "ssl_lib \<Rightarrow> bool \<Rightarrow> ssl_config \<Rightarrow> https_transport" where
  "https_new lib created cfg =
     \<lparr>ht_client = http_new created, ht_sslConfig = cfg,
      ht_ssl = (if created then https_configureSsl lib cfg (http_new created) else SslUnchanged)\<rparr>"

text \<open>The default constructor sets the fields of the configuration that are not empty by default.\<close>

definition https_new_default :: "ssl_lib \<Rightarrow> bool \<Rightarrow> https_transport" where
  "https_new_default lib created =
     https_new lib created (ssl_config0\<lparr>sc_verifyPeer := True, sc_verifyHost := True, sc_sslVersion := ''TLS1.2'', sc_sessionReuse := True\<rparr>)"

definition https_setSslConfig :: "ssl_lib \<Rightarrow> ssl_config \<Rightarrow> https_transport \<Rightarrow> https_transport" where
  "https_setSslConfig lib cfg t =
     t\<lparr>ht_sslConfig := cfg,
       ht_ssl := (case https_configureSsl lib cfg (ht_client t) of SslUnchanged \<Rightarrow> ht_ssl t | s \<Rightarrow> s)\<rparr>"

definition https_send ::
  "(ssl_state \<Rightarrow> hv_request \<Rightarrow> hv_outcome) \<Rightarrow> request \<Rightarrow> response \<Rightarrow> https_transport \<Rightarrow> int \<times> response \<times> https_transport" where
  "https_send send req resp t =
     (case https_sendRequest (send (ht_ssl t)) req resp (ht_client t) of (ret, resp', c', _) \<Rightarrow> (ret, resp', t\<lparr>ht_client := c'\<rparr>))"

definition https_receiveResponse :: "response \<Rightarrow> https_transport \<Rightarrow> int \<times> response" where
  "https_receiveResponse resp t =
     (if hc_connected (ht_client t) then (0, resp) else (- 1, failed ''No active connection'' resp))"

definition https_connect :: "https_transport \<Rightarrow> bool" where
  "https_connect t \<longleftrightarrow> hc_connected (ht_client t) \<and> hc_client (ht_client t)"

definition https_isConnected :: "https_transport \<Rightarrow> bool" where
  "https_isConnected t \<longleftrightarrow> hc_connected (ht_client t) \<and> hc_client (ht_client t)"

text \<open>Destroying libhv's client destroys its TLS context.\<close>

definition https_disconnect :: "https_transport \<Rightarrow> https_transport" where
  "https_disconnect t = t\<lparr>ht_client := (ht_client t)\<lparr>hc_client := False, hc_connected := False\<rparr>, ht_ssl := SslUnchanged\<rparr>"

definition https_setTimeout :: "timeout_kind \<Rightarrow> int \<Rightarrow> https_transport \<Rightarrow> https_transport" where
  "https_setTimeout k ms t = t\<lparr>ht_client := http_setTimeout k ms (ht_client t)\<rparr>"

definition https_parseHeaders :: "string \<Rightarrow> (string \<times> string) list" where
  "https_parseHeaders s = (if s = [] then [] else fold header_line (split_lines s) [])"

definition https_buildHeadersString :: "(string \<times> string) list \<Rightarrow> string" where
  "https_buildHeadersString headers = concat (map (\<lambda>(k, v). k @ '': '' @ v @ crlf) headers)"

subsection \<open>Which TLS settings are in force\<close>

datatype https_op = HsSetSsl ssl_lib ssl_config | HsSend request | HsSetTimeout timeout_kind int

fun https_step :: "(ssl_state \<Rightarrow> hv_request \<Rightarrow> hv_outcome) \<Rightarrow> https_op \<Rightarrow> https_transport \<Rightarrow> https_transport" where
  "https_step send (HsSetSsl lib cfg) t = https_setSslConfig lib cfg t"
| "https_step send (HsSend req) t = snd (snd (https_send send req response0 t))"
| "https_step send (HsSetTimeout k ms) t = https_setTimeout k ms t"

text \<open>Whether libhv and OpenSSL take a configuration, and what the client is left with when they do.\<close>

definition ssl_accepts :: "ssl_lib \<Rightarrow> ssl_config \<Rightarrow> bool" where
  "ssl_accepts lib cfg \<longleftrightarrow> (if sc_sslVersion cfg \<noteq> [] \<and> sl_ctx_new lib then sl_setSslCtx lib = 0 else sl_newSslCtx lib = 0)"

definition ssl_of :: "ssl_lib \<Rightarrow> ssl_config \<Rightarrow> ssl_state" where
  "ssl_of lib cfg =
     (if sc_sslVersion cfg \<noteq> [] \<and> sl_ctx_new lib
      then SslContext (ssl_options cfg) (if sl_set_min lib then parse_version (sc_sslVersion cfg) else None)
             (if sl_set_min lib \<and> sl_set_max lib then parse_version (sc_sslVersion cfg) else None)
      else SslContext (ssl_options cfg) None None)"

lemma configure_cases: "hc_client c \<Longrightarrow> https_configureSsl lib cfg c = (if ssl_accepts lib cfg then ssl_of lib cfg else SslUnchanged)"
  by (simp add: https_configureSsl_def ssl_accepts_def ssl_of_def Let_def)

lemma client_kept: "hc_client (ht_client (https_step send op t)) = hc_client (ht_client t)"
proof (cases op)
  case (HsSend req)
  then show ?thesis
    by (auto simp: https_send_def https_sendRequest_def client_send_def Let_def split: prod.splits option.splits hv_outcome.splits if_splits)
next
  case (HsSetTimeout k ms)
  then show ?thesis by (cases k) (simp_all add: https_setTimeout_def)
qed (simp add: https_setSslConfig_def)

fun last_accepted :: "ssl_state \<Rightarrow> https_op list \<Rightarrow> ssl_state" where
  "last_accepted s [] = s"
| "last_accepted s (HsSetSsl lib cfg # ops) = last_accepted (if ssl_accepts lib cfg then ssl_of lib cfg else s) ops"
| "last_accepted s (_ # ops) = last_accepted s ops"

fun last_config :: "ssl_config \<Rightarrow> https_op list \<Rightarrow> ssl_config" where
  "last_config c [] = c"
| "last_config c (HsSetSsl lib cfg # ops) = last_config cfg ops"
| "last_config c (_ # ops) = last_config c ops"

lemma https_run_ssl:
  "hc_client (ht_client t) \<Longrightarrow>
   ht_ssl (fold (https_step send) ops t) = last_accepted (ht_ssl t) ops \<and>
   ht_sslConfig (fold (https_step send) ops t) = last_config (ht_sslConfig t) ops"
proof (induction ops arbitrary: t)
  case (Cons op ops)
  have c: "hc_client (ht_client (https_step send op t))" using Cons.prems by (simp add: client_kept)
  show ?case
  proof (cases op)
    case (HsSetSsl lib cfg)
    have "ht_ssl (https_setSslConfig lib cfg t) = (if ssl_accepts lib cfg then ssl_of lib cfg else ht_ssl t)"
      using configure_cases [OF Cons.prems, of lib cfg] by (simp add: https_setSslConfig_def ssl_of_def)
    moreover have "ht_sslConfig (https_setSslConfig lib cfg t) = cfg" by (simp add: https_setSslConfig_def)
    ultimately show ?thesis using Cons.IH [OF c] HsSetSsl by simp
  next
    case (HsSend req)
    then show ?thesis using Cons.IH [OF c] by (simp add: https_send_def split: prod.splits)
  next
    case (HsSetTimeout k ms)
    then show ?thesis using Cons.IH [OF c] by (simp add: https_setTimeout_def)
  qed
qed simp

text \<open>
  the TLS settings in force. Whatever is configured, sent and timed between, requests go out under the last configuration that libhv and
  OpenSSL accepted, from the constructor on; a configuration that they refuse is remembered by the transport but not used, and no
  caller is told: stricter settings that fail leave the laxer ones in force, and a transport none of whose settings was accepted
  sends with libhv's own.
\<close>

theorem https_settings_in_force:
  "ht_ssl (fold (https_step send) ops (https_new lib True cfg)) = last_accepted SslUnchanged (HsSetSsl lib cfg # ops) \<and>
   ht_sslConfig (fold (https_step send) ops (https_new lib True cfg)) = last_config cfg ops"
proof -
  have "hc_client (ht_client (https_new lib True cfg))" by (simp add: https_new_def http_new_def)
  moreover have "hc_client (http_new True)" by (simp add: http_new_def)
  ultimately show ?thesis using https_run_ssl [of "https_new lib True cfg" send ops] configure_cases [of "http_new True" lib cfg]
    by (simp add: https_new_def)
qed

end
