(* ===== verification/Fw_TcpStream.thy ===== *)
theory Fw_TcpStream
  imports Fw_TcpClient
begin

section \<open>Packets out of a TCP stream\<close>

text \<open>
  \<open>initUnpackSetting\<close> of \<open>src/TcpTransport.cpp\<close> tells libhv where a packet ends, and the packets that libhv cuts out of the stream arrive at the
  callback \<open>onMessage\<close>. libhv's unpacking is a parameter \<open>unpack\<close>: from the reads on a connection to the packets it hands over. What is
  documented of it is \<open>cuts_packages\<close>: a packet is as long as body offset, length field and adjustment together say, and reads may
  split packets and join them in any way. Modes and codings are kept by their names.
\<close>

subsection \<open>The setting\<close>

record unpack_setting =
  us_mode :: string
  us_package_max_length :: nat
  us_body_offset :: nat
  us_length_field_offset :: nat
  us_length_field_bytes :: nat
  us_length_adjustment :: int
  us_length_field_coding :: string

definition initUnpackSetting :: unpack_setting where
  "initUnpackSetting = \<lparr>us_mode = ''UNPACK_BY_LENGTH_FIELD'', us_package_max_length = 64 * 1024, us_body_offset = 0,
     us_length_field_offset = 0, us_length_field_bytes = 4, us_length_adjustment = 0,
     us_length_field_coding = ''ENCODE_BY_BIG_ENDIAN''\<rparr>"

definition length_field :: "unpack_setting \<Rightarrow> string \<Rightarrow> nat" where
  "length_field st s = foldl (\<lambda>v c. 256 * v + code_of c) 0 (take (us_length_field_bytes st) (drop (us_length_field_offset st) s))"

abbreviation field_end :: "unpack_setting \<Rightarrow> nat" where
  "field_end st \<equiv> us_length_field_offset st + us_length_field_bytes st"

definition package_len :: "unpack_setting \<Rightarrow> string \<Rightarrow> int" where
  "package_len st s = int (us_body_offset st) + int (length_field st s) + us_length_adjustment st"

definition package :: "unpack_setting \<Rightarrow> string \<Rightarrow> bool" where
  "package st p \<longleftrightarrow> us_mode st = ''UNPACK_BY_LENGTH_FIELD'' \<and> us_length_field_coding st = ''ENCODE_BY_BIG_ENDIAN'' \<and>
     field_end st \<le> length p \<and> package_len st p = int (length p) \<and> length p \<le> us_package_max_length st"

text \<open>The begin of a packet: the length field is not there yet, or says that more follows.\<close>

definition incomplete :: "unpack_setting \<Rightarrow> string \<Rightarrow> bool" where
  "incomplete st s \<longleftrightarrow> length s < field_end st \<or>
     (int (length s) < package_len st s \<and> package_len st s \<le> int (us_package_max_length st))"

definition cuts_packages :: "(unpack_setting \<Rightarrow> string list \<Rightarrow> string list) \<Rightarrow> unpack_setting \<Rightarrow> bool" where
  "cuts_packages unpack st \<longleftrightarrow> (\<forall>reads ps part. concat reads = concat ps @ part \<and> (\<forall>p\<in>set ps. package st p) \<and> incomplete st part \<longrightarrow>
     unpack st reads = ps)"

subsection \<open>The documented behaviour is consistent\<close>

text \<open>A function that cuts a stream in this way, for every setting with a length field.\<close>

function cut_stream :: "unpack_setting \<Rightarrow> string \<Rightarrow> string list" where
  "cut_stream st s =
     (let n = nat (package_len st s)
      in if field_end st \<le> length s \<and> 0 < n \<and> n \<le> length s \<and> n \<le> us_package_max_length st
         then take n s # cut_stream st (drop n s) else [])"
  by pat_completeness auto

termination
  by (relation "measure (\<lambda>(st, s). length s)") auto

declare cut_stream.simps [simp del]

lemma package_len_append:
  "field_end st \<le> length p \<Longrightarrow> package_len st (p @ x) = package_len st p"
  by (simp add: package_len_def length_field_def)

lemma cut_packages:
  assumes "\<forall>p\<in>set ps. package st p" and "incomplete st part" and "0 < us_length_field_bytes st"
  shows "cut_stream st (concat ps @ part) = ps"
  using assms(1)
proof (induction ps)
  case Nil
  then show ?case using assms(2) by (subst cut_stream.simps) (auto simp: incomplete_def Let_def)
next
  case (Cons p ps)
  then have p: "field_end st \<le> length p" "package_len st p = int (length p)" "length p \<le> us_package_max_length st"
    by (simp_all add: package_def)
  have "package_len st (p @ concat ps @ part) = int (length p)" using package_len_append [OF p(1)] p(2) by simp
  moreover have "0 < length p" using p(1) assms(3) by linarith
  ultimately show ?case using Cons p by (subst cut_stream.simps) (simp add: Let_def)
qed

lemma cuts_packages_cut: "0 < us_length_field_bytes st \<Longrightarrow> cuts_packages (\<lambda>st reads. cut_stream st (concat reads)) st"
  by (simp add: cuts_packages_def cut_packages)

subsection \<open>Frames are packets\<close>

lemma length_field_init: "length_field initUnpackSetting s = be32_value s"
  by (simp add: length_field_def initUnpackSetting_def be32_value_def)

text \<open>
  The sending side of the transport accepts any body that 32 bits can count, the receiving side of the same transport no more than 64 KB
  with the length field.
\<close>

lemma frame_package:
  assumes "tcp_frame body = Some f"
  shows "package initUnpackSetting f \<longleftrightarrow> length body \<le> 65532"
  using tcp_frame_length [OF assms]
  by (simp add: package_def package_len_def length_field_init) (simp add: initUnpackSetting_def)

lemma frame_package_witness:
  "\<exists>f. tcp_frame (replicate 65533 CHR ''x'') = Some f \<and> \<not> package initUnpackSetting f"
proof -
  obtain f where f: "tcp_frame (replicate 65533 CHR ''x'') = Some f" by (simp add: tcp_frame_def Let_def)
  from frame_package [OF f] f show ?thesis by simp
qed

subsection \<open>A stream of replies\<close>

text \<open>A client that asks for the next reply \<open>n\<close> times while nothing more arrives.\<close>

primrec tcp_receives :: "nat \<Rightarrow> response \<Rightarrow> tcp \<Rightarrow> (int \<times> response) list \<times> tcp" where
  "tcp_receives 0 resp s = ([], s)"
| "tcp_receives (Suc n) resp s =
     (case tcp_receiveResponse [] True resp s of (ret, resp', s') \<Rightarrow>
        case tcp_receives n resp s' of (rs, s'') \<Rightarrow> ((ret, resp') # rs, s''))"

lemma tcp_packets_queued: "tcp_events (map Packet ps) s = s\<lparr>tc_packets := tc_packets s @ ps\<rparr>"
  unfolding tcp_events_def by (induction ps arbitrary: s) simp_all

lemma tcp_receives_queue:
  assumes "tc_connected s" and "0 < tc_readTimeout s" and "\<forall>p\<in>set ps. 4 \<le> length p"
  shows "tcp_receives (Suc (length ps)) resp (s\<lparr>tc_packets := ps\<rparr>) =
    (map (\<lambda>p. (0, resp\<lparr>rs_statusCode := 200, rs_body := drop 4 p\<rparr>)) ps @ [(- 1, failed ''Timeout waiting for response'' resp)],
     s\<lparr>tc_packets := []\<rparr>)"
  using assms(3)
proof (induction ps)
  case Nil
  then show ?case using assms(1,2) by (simp add: tcp_receiveResponse_def tcp_receive_def tcp_events_def Let_def)
next
  case (Cons p ps)
  have "tcp_receiveResponse [] True resp (s\<lparr>tc_packets := p # ps\<rparr>) =
      (0, resp\<lparr>rs_statusCode := 200, rs_body := drop 4 p\<rparr>, s\<lparr>tc_packets := ps\<rparr>)"
    using Cons.prems assms(1,2) by (simp add: tcp_receiveResponse_def tcp_receive_def Let_def not_less)
  moreover have "tcp_receives (Suc n) resp s0 = (case tcp_receiveResponse [] True resp s0 of (ret, resp', s') \<Rightarrow>
      case tcp_receives n resp s' of (rs, s'') \<Rightarrow> ((ret, resp') # rs, s''))" for n s0 by simp
  ultimately show ?case using Cons by (simp del: tcp_receives.simps)
qed

text \<open>
  C13: replies survive the stream. A peer frames its replies as the transport does, each of at most 65532 bytes; the bytes arrive in any
  number of reads that split and join frames anywhere, the last frame perhaps only in part. On a connected transport with an empty
  queue, every frame's length field is its length, and reading returns exactly the bodies in order, each once with 0 and the status 200;
  the next call times out, and nothing of the unfinished frame is returned.
\<close>

theorem tcp_stream_roundtrip:
  assumes "cuts_packages unpack initUnpackSetting" and "map tcp_frame bodies = map Some frames"
    and "\<forall>body\<in>set bodies. length body \<le> 65532"
    and "concat reads = concat frames @ part" and "incomplete initUnpackSetting part"
    and "tc_connected s" and "0 < tc_readTimeout s" and "tc_packets s = []"
  shows "map be32_value frames = map length frames \<and>
    tcp_receives (Suc (length bodies)) resp (tcp_events (map Packet (unpack initUnpackSetting reads)) s) =
      (map (\<lambda>body. (0, resp\<lparr>rs_statusCode := 200, rs_body := body\<rparr>)) bodies @ [(- 1, failed ''Timeout waiting for response'' resp)], s)"
proof -
  have framed: "tcp_frame (bodies ! i) = Some (frames ! i)" if "i < length frames" for i
    using assms(2) that by (metis length_map nth_map)
  have n: "length frames = length bodies" using assms(2) by (metis length_map)
  have each: "be32_value f = length f \<and> 4 \<le> length f \<and> package initUnpackSetting f" if "f \<in> set frames" for f
    using that framed tcp_frame_length frame_package assms(3) n by (fastforce simp: in_set_conv_nth)
  have "drop 4 (frames ! i) = bodies ! i" if "i < length bodies" for i
    using tcp_frame_length [OF framed] that n by simp
  then have bodies: "map (drop 4) frames = bodies" using n by (metis (no_types, lifting) length_map nth_equalityI nth_map)
  have "unpack initUnpackSetting reads = frames"
    using assms(1,4,5) each by (simp add: cuts_packages_def)
  then have "tcp_events (map Packet (unpack initUnpackSetting reads)) s = s\<lparr>tc_packets := frames\<rparr>"
    using assms(8) by (simp add: tcp_packets_queued)
  moreover have "s\<lparr>tc_packets := []\<rparr> = s" using assms(8) by simp
  moreover have "map (\<lambda>p. (0 :: int, resp\<lparr>rs_statusCode := 200, rs_body := drop 4 p\<rparr>)) frames =
      map (\<lambda>body. (0, resp\<lparr>rs_statusCode := 200, rs_body := body\<rparr>)) bodies"
    unfolding bodies [symmetric] by simp
  moreover have "\<forall>f\<in>set frames. 4 \<le> length f" "map be32_value frames = map length frames" using each by simp_all
  ultimately show ?thesis using tcp_receives_queue [OF assms(6,7), of frames resp] n by (simp only: simp_thms)
qed

lemma tcp_stream_roundtrip_witness:
  "fst (tcp_receives 3 response0 (tcp_events
       (map Packet (cut_stream initUnpackSetting (concat [be32 6 @ ''h'', ''i'' @ be32 4 @ take 1 (be32 5), drop 1 (be32 5)])))
       ((tcp_new True)\<lparr>tc_connected := True\<rparr>))) =
   [(0, response0\<lparr>rs_statusCode := 200, rs_body := ''hi''\<rparr>), (0, response0\<lparr>rs_statusCode := 200, rs_body := ''''\<rparr>),
    (- 1, failed ''Timeout waiting for response'' response0)]"
proof -
  let ?reads = "[be32 6 @ ''h'', ''i'' @ be32 4 @ take 1 (be32 5), drop 1 (be32 5)]"
  let ?unpack = "\<lambda>st reads. cut_stream st (concat reads)"
  have c: "cuts_packages ?unpack initUnpackSetting" by (rule cuts_packages_cut) (simp add: initUnpackSetting_def)
  have f: "map tcp_frame [''hi'', ''''] = map Some [be32 6 @ ''hi'', be32 4 @ '''']" by (simp add: tcp_frame_def)
  have r: "concat ?reads = concat [be32 6 @ ''hi'', be32 4 @ ''''] @ be32 5" by simp
  have i: "incomplete initUnpackSetting (be32 5)"
    using be32_value_be32 [of 5 "[]"]
    by (simp add: incomplete_def package_len_def length_field_init length_be32) (simp add: initUnpackSetting_def)
  from tcp_stream_roundtrip [OF c f _ r i, of "(tcp_new True)\<lparr>tc_connected := True\<rparr>" response0]
  show ?thesis by (simp add: tcp_new_def numeral_3_eq_3 del: tcp_receives.simps)
qed

end
