(* ===== verification/Spec2Isabelle.thy ===== *)
theory Spec2Isabelle
  imports Fw_SpscRelAcq Fw_Counters Fw_Uuid Fw_Jwt Fw_Password Fw_Transport Fw_Transfers Fw_ThreadPool
    Fw_Pipeline Fw_Json Fw_PathGuard Fw_Hash Fw_Time Fw_Log Fw_Cert Fw_Ini Fw_HttpsClient Fw_TcpStream
begin

text \<open>
  A verification library for alkaidlab-fw, the C++ framework under \<open>src/\<close> (headers in \<open>src/include/fw\<close>, bodies in \<open>src/src\<close>): a thin
  layer over libhv, OpenSSL, Boost and spdlog for HTTP services. Every theory models one part of it and states what makes that part correct.

  \<^bold>\<open>The program.\<close> An \<open>Application\<close> (or \<open>HvServerTransport\<close>) owns libhv's server and service. A \<open>Router\<close> collects routes and
  \<open>Middleware\<close>, and \<open>bind\<close> wraps every handler with the chain and hands the result to libhv, which calls it with a \<open>Context\<close> around the request,
  the response and the response writer. A handler may send a file with one of three \<open>IFileTransfer\<close> strategies; a transfer that
  goes on after the handler marks the streaming handoff in the context, which the router reads to decide who ends the response. Beside
  the server are four client transports behind \<open>ITransport\<close>, made by \<open>TransportFactory\<close>; a supervised thread pool with a bounded queue of
  tasks; queues, counters and flow control for producers and consumers; tokens with a blacklist, passwords and identifiers; and small utilities.

  \<^bold>\<open>The theories and the code.\<close>
  \<^item> \<open>Fw_Prelude\<close>: characters, strings and machine integers as the code uses them (trimming, case, \<open>stoi\<close>, decimal text,
    64-bit wrap-around), and the lemmas that the components share.
  \<^item> \<open>Fw_Queue\<close>, \<open>Fw_SpscQueue\<close>, \<open>Fw_SpscConcurrent\<close>, \<open>Fw_SpscRelAcq\<close>: \<open>SPSCQueue\<close>. The first has the contract of a bounded queue, the second the
    operations on buffer and positions (\<open>m_writePos\<close>, \<open>m_readPos\<close>), the third the same operations cut at their atomic accesses, the fourth
    these accesses under the memory orders the code names: histories of the positions, acquire loads that may read stale
    messages, and for each thread a view of the slot accesses it knows.
  \<^item> \<open>Fw_Counters\<close>: \<open>AtomicCounter\<close>, \<open>FlowController\<close> and the wrapper \<open>LockfreeQueue\<close>, on 64-bit words.
  \<^item> \<open>Fw_Snowflake\<close>, \<open>Fw_Uuid\<close>: \<open>IdUtil\<close>.
  \<^item> \<open>Fw_Base64\<close>, \<open>Fw_Jwt\<close>, \<open>Fw_Password\<close>: \<open>Base64\<close>, \<open>JwtUtil\<close> with its blacklist (the static variables are the record \<open>jwt\<close>), \<open>PasswordUtil\<close>.
  \<^item> \<open>Fw_Url\<close>, \<open>Fw_HttpClient\<close>, \<open>Fw_HttpsClient\<close>, \<open>Fw_TcpClient\<close>, \<open>Fw_TcpStream\<close>, \<open>Fw_WsClient\<close>, \<open>Fw_Transport\<close>: the client transports, one record each with the
    fields of the class; the callbacks that libhv runs while a request waits are the events of \<open>on_tcp_event\<close> and \<open>on_ws_event\<close>; the packets that libhv
    cuts out of a TCP stream are those of \<open>initUnpackSetting\<close>; the last theory is the interface \<open>ITransport\<close> and its virtual calls.
  \<^item> \<open>Fw_HttpConstants\<close>: \<open>HttpConstants\<close>, the numbers of states and methods, with the comparisons the compiler makes.
  \<^item> \<open>Fw_Context\<close>, \<open>Fw_Router\<close>, \<open>Fw_Application\<close>, \<open>Fw_Pipeline\<close>: \<open>Context\<close> (the calls it makes on libhv's response and writer are kept
    in order in the record \<open>ctx\<close>), \<open>Middleware\<close> and \<open>Router\<close>, \<open>Application\<close> and \<open>HvTransport\<close>, and whole requests in which the application's code is any
    program over the operations of a context and libhv calls any of the registered functions, in any order and number.
  \<^item> \<open>Fw_FileTransfer\<close>, \<open>Fw_Transfers\<close>: \<open>LegacyTransfer\<close>, \<open>StreamTransfer\<close>, \<open>AccelTransfer\<close> and their factory; the interface \<open>IFileTransfer\<close>
    and a server with many downloads at once.
  \<^item> \<open>Fw_ThreadPool\<close>: \<open>SupervisedThreadPool\<close> as a labelled transition system; the program counters of worker, supervisor and client
    are the places between two accesses to shared state in \<open>workerLoop\<close>, \<open>supervisorLoop\<close>, \<open>stop\<close> and \<open>submit\<close>.
  \<^item> \<open>Fw_Json\<close>, \<open>Fw_PathGuard\<close>, \<open>Fw_Hash\<close>, \<open>Fw_Time\<close>, \<open>Fw_Log\<close>, \<open>Fw_Cert\<close>: the files \<open>JsonUtil\<close>, \<open>PathGuard\<close>, \<open>HashUtil\<close>, \<open>TimeUtil\<close>, \<open>Logger\<close>
    with \<open>LogConfig\<close>, and \<open>CertUtil\<close>. \<open>Fw_Ini\<close>: \<open>IniConfig\<close>.
  \<^item> This theory: a download that runs in a handler behind the router's asynchronous route and its middleware.

  \<^bold>\<open>How code becomes definitions.\<close> A class is a record of its fields and an operation a function of the record, with the guards and early
  returns of the code in its order. An exception or a call that does not return is \<open>None\<close>; an error code is kept as the number. \<open>size_t\<close> positions,
  counters and ids are 64-bit words where wrap-around matters. What a mutex protects is one step; what it does not is split at the
  accesses. Definitions keep the names of the functions, with a prefix where two classes share one.

  \<^bold>\<open>Interfaces.\<close> \<open>bounded_queue\<close> (interpreted by \<open>spscq\<close>), \<open>kv_store\<close> (the context's data), \<open>revocation_store\<close> (the blacklist), \<open>client_transport\<close> and
  its extension \<open>final_transport\<close> (a transport on which nothing succeeds after \<open>disconnect\<close>, neither a request nor a wait for a response; HTTP,
  HTTPS and WebSocket are, TCP is not, and the factory's transport has the weaker contract), \<open>file_transfer\<close> (each strategy and each mode of the factory, with
  the downloads it abandons), \<open>ctx_invariant\<close> (a property of contexts that
  every operation keeps, and with it every program and chain) and its extension \<open>conn_invariant\<close> (one that a fresh context over the same
  connection keeps too, and with it every route and every sequence of calls). Their clients' lemmas are proved once, inside the locale.

  \<^bold>\<open>What the lemmas show.\<close>
  \<^item> Queues: the answers of a bounded list over any sequence of operations, and for every interleaving of the two threads that nothing is lost, doubled or
    reordered and no slot is written while it is read; the atomic model is a run of the split one. Under release and acquire the same with
    stale positions, and no data race on a slot; the interleavings are the runs in which every load reads the newest message.
  \<^item> Tokens, passwords, ids: what was signed verifies until it expires, what verifies was signed in form, what was revoked never
    verifies again; ids increase strictly under a clock that does not run back until the generator fails, and the cases in which they do not.
  \<^item> Clients: success exactly when every step succeeds, a status and a message with every failure, frames that read back exactly however the stream
    splits and joins them, and what
    \<open>disconnect\<close> leaves; late TCP packets and WebSocket messages that answer the wrong request, and a
    WebSocket request that does not wait for its connection.
  \<^item> Server: clean header values and served paths whatever a site's middleware, handlers and hooks do (header names, content types and cookies
    are passed on as they are), middleware in onion order, routes bound with their handlers and the whole chain, an asynchronous
    request tracked and ended once, host names matched, one server for both ways to start it.
  \<^item> Transfers: the writer gets a prefix of the requested part and an end only behind the whole, one answer per download and exact counters,
    for one download, a sequence, or many at once, but for the legacy downloads that throw; who ends the response; the depth of the recursion in \<open>pump\<close>.
  \<^item> Thread pool: accepted tasks start once and in order, a queued task starts within a bounded number of steps, \<open>stop\<close> returns
    within \<open>8 n + 9\<close> steps once its notification reached every worker, and the interleaving in which it does not.
  \<^item> Utilities: round trips of codecs, times, escapes and certificates, whole-file hashes against hashing at once, configuration
    values read as they were last set.

  \<^bold>\<open>Loops and bounds.\<close> No theorem depends on a choice of fuel. The doubling loop of \<open>nextPowerOfTwo\<close> and the loops of the queues' \<open>clear\<close>, which may not
  end, are \<open>partial_function\<close>s over \<open>option\<close>, with the theorems that say when they return. Loops that wait for the outside (the clock in \<open>wait_loop\<close>, the drain of a connection in \<open>bp_wait\<close>, the
  replies of a peer) run over a script of what they observe: the list is universally quantified, so it covers every finite observation, and a script that ends before
  the code would return is \<open>None\<close> or the timeout, as the code has it. Loops over data end by structure or a measure: what is left of a file or a string,
  and in the pool the measure behind the two step bounds.

  \<^bold>\<open>Parameters.\<close> libhv (results of its calls, its callbacks, its codec), OpenSSL (HMAC, PBKDF2, digests, names, times and PEM text of certificates), Boost's paths, UUID
  generator and lock-free queue, nlohmann's and libhv's parsers, spdlog's sinks, the clock, the network interfaces, the file system and time zones. What a theorem needs
  of them is a hypothesis that names their documented behaviour, and its witness instantiates it.

  \<^bold>\<open>Not modelled.\<close> \<open>WinPosixShim\<close>, and the Windows and pre-1.1 OpenSSL branches: other builds. \<open>stop\<close>, \<open>connectionNum\<close> and the dispatcher of
  \<open>Application\<close>, which are one libhv call each. Destructors, and moving a \<open>Context\<close>. Weak memory outside \<open>SPSCQueue\<close>: the
  other atomics are counters and flags, whose accesses are interleaved in program order. Log texts, and durations in statistics.
\<close>

section \<open>A download behind the router\<close>

text \<open>
  A handler that sends a file with the stream transfer, behind the router's asynchronous route and its middleware: \<open>stream_send\<close> runs in the
  context of the request and \<open>async_handler\<close> decides afterwards whether it ends the response.
\<close>

definition download_handler ::
  "(writer_call \<Rightarrow> int) \<Rightarrow> disk_file \<Rightarrow> transfer_params \<Rightarrow> transfer_stats \<Rightarrow> pump_env list \<Rightarrow> handler" where
  "download_handler result f p st es c = (True, snd (snd (snd (stream_send result f p st c es))))"

text \<open>Middleware that calls \<open>next\<close> once, with code before and after it that does not mark a handoff itself.\<close>

definition around_all :: "((ctx \<Rightarrow> ctx) \<times> (ctx \<Rightarrow> ctx)) list \<Rightarrow> ctx chain" where
  "around_all bas = map (\<lambda>(b, a). \<lparr>en_name = [], en_fn = around b a\<rparr>) bas"

definition keeps_handoff :: "(ctx \<Rightarrow> ctx) \<Rightarrow> bool" where
  "keeps_handoff g \<longleftrightarrow> (\<forall>c. cx_writer (g c) = cx_writer c \<and> cx_streamingHandoff (g c) = cx_streamingHandoff c)"

definition before_all :: "((ctx \<Rightarrow> ctx) \<times> (ctx \<Rightarrow> ctx)) list \<Rightarrow> ctx \<Rightarrow> ctx" where
  "before_all bas c = fold (\<lambda>(b, a) t. b t) bas c"

text \<open>The bytes of the file that a writer was given.\<close>

definition body_written :: "writer_call list \<Rightarrow> string" where
  "body_written ws = concat (map (\<lambda>w. case w of WriteBody b \<Rightarrow> b | _ \<Rightarrow> []) ws)"

lemma context_calls_keep:
  "cx_writer (internal_error c) = cx_writer c" "cx_streamingHandoff (internal_error c) = cx_streamingHandoff c"
  "cx_writer (download_headers p c) = cx_writer c" "cx_streamingHandoff (download_headers p c) = cx_streamingHandoff c"
  "cx_writer (range_headers p c) = cx_writer c" "cx_streamingHandoff (range_headers p c) = cx_streamingHandoff c"
  "cx_writer (snd (endHeaders result key n c)) = cx_writer c"
  "cx_streamingHandoff (snd (endHeaders result key n c)) = cx_streamingHandoff c"
  by (simp_all add: internal_error_def ctx_error_def download_headers_def range_headers_def setContentTypeByFilename_def
      setHeader_def setStatus_def endHeaders_def resp_call_def writer_call_def)

lemma stream_send_ctx:
  assumes "stream_send result f p st c es = (r, answers, st', c')"
  shows "cx_writer c' = cx_writer c \<and> (r = None \<longrightarrow> cx_streamingHandoff c' = cx_streamingHandoff c) \<and>
    (r \<noteq> None \<longrightarrow> cx_writer c \<and> cx_streamingHandoff c' = (sendLen p \<noteq> 0 \<or> cx_streamingHandoff c))"
  using assms
  by (auto simp: stream_send_def Let_def context_calls_keep markStreamingHandoff_def split: if_splits option.splits)

lemma stream_send_refused:
  assumes "stream_send result f p st c es = (None, answers, st', c')"
  shows "answers = complete p False \<and> cx_status c' = 500 \<and> cx_writes c' = cx_writes c"
  using assms
  by (auto simp: stream_send_def Let_def internal_error_def ctx_error_def resp_call_def split: option.splits if_splits)

lemma keeps_handoff_apply: "keeps_handoff g \<Longrightarrow> cx_writer (g c) = cx_writer c \<and> cx_streamingHandoff (g c) = cx_streamingHandoff c"
  by (simp add: keeps_handoff_def)

lemma before_keeps:
  "list_all (\<lambda>(b, a). keeps_handoff b \<and> keeps_handoff a) bas \<Longrightarrow>
   cx_writer (before_all bas c) = cx_writer c \<and> cx_streamingHandoff (before_all bas c) = cx_streamingHandoff c"
proof (induction bas arbitrary: c)
  case (Cons ba bas)
  obtain b a where ba: "ba = (b, a)" by force
  then have "before_all (ba # bas) c = before_all bas (b c)" "keeps_handoff b" using Cons.prems by (simp_all add: before_all_def)
  with Cons.IH [of "b c"] Cons.prems keeps_handoff_apply [of b c] show ?case by simp
qed (simp add: before_all_def)

lemma after_keeps:
  "list_all (\<lambda>(b, a). keeps_handoff b \<and> keeps_handoff a) bas \<Longrightarrow>
   cx_writer (foldr (\<lambda>(b, a) t. a t) bas c) = cx_writer c \<and> cx_streamingHandoff (foldr (\<lambda>(b, a) t. a t) bas c) = cx_streamingHandoff c"
proof (induction bas)
  case (Cons ba bas)
  obtain b a where ba: "ba = (b, a)" by force
  then have "keeps_handoff a" using Cons.prems by simp
  from keeps_handoff_apply [OF this, of "foldr (\<lambda>(b, a) t. a t) bas c"] Cons ba show ?case by simp
qed simp

lemma async_around:
  assumes "list_all (\<lambda>(b, a). keeps_handoff b \<and> keeps_handoff a) bas" and "dispatcher \<longrightarrow> runs"
    and "async_handler h (around_all bas) dispatcher tracker runs c0 = (ret, acts, c)"
    and "h (before_all bas (conn_context (mark_async c0))) = (True, c')"
  shows "count_list acts EndResponse = (if cx_writer c' \<and> \<not> cx_streamingHandoff c' then 1 else 0)"
proof -
  let ?after = "foldr (\<lambda>(b, a) t. a t) bas c'"
  have "execute (around_all bas) (wrap_handler h) (conn_context (mark_async c0)) = (Some (status_or_200 c'), ?after)"
    using assms(4) unfolding execute_foldr around_all_def around_chain before_all_def by (simp add: wrap_handler_def)
  then have "async_task h (around_all bas) tracker (mark_async c0) =
      ([RunChain] @ (if \<not> cx_streamingHandoff ?after \<and> cx_writer ?after then [EndResponse] else []) @
        (if tracker then [Track (- 1)] else []), ?after)"
    by (simp add: async_task_def)
  then have "acts = [MarkAsync] @ (if tracker then [Track 1] else []) @ [RunChain] @
      (if \<not> cx_streamingHandoff ?after \<and> cx_writer ?after then [EndResponse] else []) @ (if tracker then [Track (- 1)] else [])"
    using assms(2,3) by (auto simp: async_handler_def Let_def)
  then show ?thesis using after_keeps [OF assms(1), of c'] by simp
qed

lemma written_inv:
  assumes "stream_inv part n p st s"
  shows "WriterEnd \<in> set (ts_writes s) \<Longrightarrow> int (length (body_written (ts_writes s))) = n"
    and "\<exists>ok. ts_answers (ts_destroy s) = complete p ok \<and> (ok \<longrightarrow> WriterEnd \<in> set (ts_writes s))"
proof -
  from assms obtain bs k where t: "ts_params s = p" "stream_trace part n s bs k" "stream_answered p st s k"
    by (auto simp: stream_inv_def)
  have "body_written (map WriteBody bs @ replicate k WriterEnd) = concat bs"
    by (simp add: body_written_def comp_def concat_replicate_trivial)
  with t(2) show "WriterEnd \<in> set (ts_writes s) \<Longrightarrow> int (length (body_written (ts_writes s))) = n"
    by (auto simp: stream_trace_def)
  show "\<exists>ok. ts_answers (ts_destroy s) = complete p ok \<and> (ok \<longrightarrow> WriterEnd \<in> set (ts_writes s))"
  proof (cases "ts_finished s")
    case True
    then show ?thesis using t by (auto simp: stream_answered_def stream_trace_def ts_destroy_def)
  next
    case False
    then show ?thesis using t by (intro exI [of _ False]) (simp add: stream_answered_def ts_destroy_def)
  qed
qed

text \<open>
  C12: who ends the response of a download, behind any middleware that calls \<open>next\<close> once and marks no handoff. A download that the transfer
  refuses is answered negatively with status 500, nothing of it is streamed, and the router ends the response once, if the connection has a
  writer. One that the transfer has taken over the router does not end, and over its life, until the connection lets it go, it is answered
  once: positively only with an end that the transfer wrote itself, and an end is written only behind the whole part. So a download that stops
  short after it was taken over, as when the file is shorter than stated, is ended by neither. An empty file is ended by both.
\<close>

theorem download_ended:
  assumes "list_all (\<lambda>(b, a). keeps_handoff b \<and> keeps_handoff a) bas" and "0 \<le> sendLen p" and "dispatcher \<longrightarrow> runs"
    and "stream_send result f p st (before_all bas (conn_context (mark_async c0))) es = (r, answers, st', c')"
    and "async_handler (download_handler result f p st es) (around_all bas) dispatcher tracker runs c0 = (ret, acts, c)"
  shows "case r of
      None \<Rightarrow> count_list acts EndResponse = (if cx_writer c0 then 1 else 0) \<and> answers = complete p False \<and> cx_status c' = 500 \<and>
        cx_writes c' = cx_writes (before_all bas (conn_context (mark_async c0)))
    | Some s \<Rightarrow> cx_writer c0 \<and>
        (if sendLen p = 0 then count_list acts EndResponse = 1 \<and> WriterEnd \<in> set (ts_writes s)
         else count_list acts EndResponse = 0 \<and>
          (\<forall>later. (\<exists>ok. ts_answers (ts_destroy (stream_run later s)) = complete p ok \<and>
               (ok \<longrightarrow> WriterEnd \<in> set (ts_writes (stream_run later s)))) \<and>
             (int (length (body_written (ts_writes (stream_run later s)))) < sendLen p \<longrightarrow>
               WriterEnd \<notin> set (ts_writes (stream_run later s)))))"
proof -
  let ?c1 = "before_all bas (conn_context (mark_async c0))"
  note ctx = stream_send_ctx [OF assms(4)]
  have c1: "cx_writer ?c1 = cx_writer c0" "\<not> cx_streamingHandoff ?c1"
    using before_keeps [OF assms(1)] by (simp_all add: conn_context_def mark_async_def)
  have a: "count_list acts EndResponse = (if cx_writer c' \<and> \<not> cx_streamingHandoff c' then 1 else 0)"
    using async_around [OF assms(1,3,5), of c'] by (simp add: download_handler_def assms(4))
  show ?thesis
  proof (cases r)
    case None
    then show ?thesis using stream_send_refused assms(4) ctx a c1 by simp
  next
    case (Some s)
    then obtain content seekable
      where f: "stream_send result (Some (content, seekable)) p st ?c1 es = (Some s, answers, st', c')"
      using assms(4) ctx by (cases f) (auto simp: stream_send_def Let_def)
    have "WriterEnd \<in> set (ts_writes s)" if "sendLen p = 0"
      using stream_send_state [OF f] that by (simp add: ts_finish_def)
    moreover note written_inv [OF stream_inv_run [OF stream_send_inv [OF f assms(2)]]]
    ultimately show ?thesis using Some ctx a c1 by (fastforce split: if_splits)
  qed
qed

text \<open>A file of five bytes that should have six, behind one middleware: taken over, cut short, and ended by nobody.\<close>

lemma download_ended_witness:
  "\<exists>s acts. fst (stream_send (\<lambda>_. 0) (Some (''hello'', True)) (params0\<lparr>tp_fileSize := 6\<rparr>) stats0 (conn_context (mark_async (ctx0 True))) []) = Some s \<and>
     fst (snd (async_handler (download_handler (\<lambda>_. 0) (Some (''hello'', True)) (params0\<lparr>tp_fileSize := 6\<rparr>) stats0 []) (around_all [(id, setStatus 200)])
       False True False (ctx0 True))) = acts \<and> count_list acts EndResponse = 0 \<and>
     body_written (ts_writes (stream_run [willing_event False, willing_event False] s)) = ''hello'' \<and>
     WriterEnd \<notin> set (ts_writes (stream_run [willing_event False, willing_event False] s))"
proof -
  let ?p = "params0\<lparr>tp_fileSize := 6\<rparr>"
  let ?es = "[willing_event False, willing_event False]"
  let ?h = "download_handler (\<lambda>_. 0) (Some (''hello'', True)) ?p stats0 []"
  let ?s = "stream_start ''hello'' ?p stats0"
  have p: "sendLen ?p = 6" "sendStart ?p = 0" "\<not> isRange ?p" by (simp_all add: sendLen_def sendStart_def isRange_def params0_def)
  have bas: "list_all (\<lambda>(b, a). keeps_handoff b \<and> keeps_handoff a) [(id, setStatus 200)]" "before_all [(id, setStatus 200)] c = c" for c
    by (simp_all add: keeps_handoff_def setStatus_def before_all_def)
  obtain a st' c' where r: "stream_send (\<lambda>_. 0) (Some (''hello'', True)) ?p stats0
      (before_all [(id, setStatus 200)] (conn_context (mark_async (ctx0 True)))) [] = (Some ?s, a, st', c')"
    using p unfolding bas(2) by (simp add: stream_send_def stream_start_def Let_def conn_context_def mark_async_def ctx0_def ctx_new_def)
  obtain ret acts c where t: "async_handler ?h (around_all [(id, setStatus 200)]) False True False (ctx0 True) = (ret, acts, c)"
    by (metis prod_cases3)
  have w: "body_written (ts_writes (stream_run ?es ?s)) = ''hello''" by code_simp
  have "0 \<le> sendLen ?p" by (simp add: p)
  from download_ended [OF bas(1) this _ r t] have e: "count_list acts EndResponse = 0"
      "int (length (body_written (ts_writes (stream_run ?es ?s)))) < 6 \<longrightarrow> WriterEnd \<notin> set (ts_writes (stream_run ?es ?s))"
    by (simp_all only: p option.case, simp_all)
  show ?thesis using e w r t unfolding bas(2) by simp
qed

end
